(* ===== verification/Pty_Prelude.thy ===== *)
theory Pty_Prelude
  imports Main "HOL-Library.Monad_Syntax" "HOL-Library.Sublist"
begin

section \<open>Prelude\<close>

text \<open>
  What every component of the development shares: the collections of hints the component
  theories fill, generic lemmas on lists and on runs of a step function, and the contract
  of a stream consumer (a component that is fed its input in pieces of arbitrary size, as
  the PTY reader feeds the terminal code). Nothing here is specific to ptymux.
\<close>

named_theorems bound_simps \<open>size bounds and constants, unfolded where arithmetic needs them\<close>
named_theorems preserves \<open>an operation keeps its component's invariant\<close>

subsection \<open>Lists\<close>

text \<open>Removing a list of trailing or leading elements that satisfy a predicate.\<close>

definition trim_right :: "('a \<Rightarrow> bool) \<Rightarrow> 'a list \<Rightarrow> 'a list" where
  "trim_right P xs = rev (dropWhile P (rev xs))"

definition trim_left :: "('a \<Rightarrow> bool) \<Rightarrow> 'a list \<Rightarrow> 'a list" where
  "trim_left P xs = dropWhile P xs"

definition trim_both :: "('a \<Rightarrow> bool) \<Rightarrow> 'a list \<Rightarrow> 'a list" where
  "trim_both P xs = trim_left P (trim_right P xs)"

lemma trim_right_Nil [simp]: "trim_right P [] = []"
  by (simp add: trim_right_def)

lemma trim_right_snoc [simp]:
  "trim_right P (xs @ [x]) = (if P x then trim_right P xs else xs @ [x])"
  by (simp add: trim_right_def)

lemma trim_right_prefix: "prefix (trim_right P xs) xs"
  by (induction xs rule: rev_induct) (auto intro: prefix_order.trans)

lemma set_trim_right: "set (trim_right P xs) \<subseteq> set xs"
  using trim_right_prefix [of P xs] by (rule set_mono_prefix)

lemma length_trim_right: "length (trim_right P xs) \<le> length xs"
  using trim_right_prefix [of P xs] by (rule prefix_length_le)

lemma trim_right_last: "trim_right P xs \<noteq> [] \<Longrightarrow> \<not> P (last (trim_right P xs))"
  by (induction xs rule: rev_induct) auto

lemma trim_right_id: "xs = [] \<or> \<not> P (last xs) \<Longrightarrow> trim_right P xs = xs"
  by (cases xs rule: rev_cases) auto

lemma trim_right_no_suffix: "P x \<Longrightarrow> \<not> suffix [x] (trim_right P xs)"
proof
  assume P: "P x" and "suffix [x] (trim_right P xs)"
  then obtain ys where "trim_right P xs = ys @ [x]" by (auto simp: suffix_def)
  with trim_right_last [of P xs] P show False by simp
qed

lemma trim_right_idem [simp]: "trim_right P (trim_right P xs) = trim_right P xs"
  using trim_right_last [of P xs] by (intro trim_right_id) auto

lemma set_trim_left: "set (trim_left P xs) \<subseteq> set xs"
  by (auto simp: trim_left_def dest: set_dropWhileD)

lemma set_trim_both: "set (trim_both P xs) \<subseteq> set xs"
  using set_trim_left set_trim_right unfolding trim_both_def by fast

lemma list_all_concat: "list_all P (concat xss) \<longleftrightarrow> list_all (list_all P) xss"
  by (induction xss) auto

lemma sublist_append_left_mono: "sublist u xs \<Longrightarrow> sublist u (ys @ xs)"
  and sublist_append_right_mono: "sublist u xs \<Longrightarrow> sublist u (xs @ ys)"
  unfolding sublist_def by (metis append_assoc)+

text \<open>The last \<open>n\<close> elements: what the slice \<open>xs[len(xs)-n:]\<close> keeps.\<close>

definition take_last :: "nat \<Rightarrow> 'a list \<Rightarrow> 'a list" where
  "take_last n xs = drop (length xs - n) xs"

lemma take_last_suffix: "suffix (take_last n xs) xs"
  by (simp add: take_last_def suffix_drop)

lemma length_take_last [simp]: "length (take_last n xs) = min n (length xs)"
  by (auto simp: take_last_def)

lemma set_take_last: "set (take_last n xs) \<subseteq> set xs"
  by (simp add: take_last_def set_drop_subset)

subsection \<open>Error monad\<close>

text \<open>
  A Go function that returns \<open>(T, error)\<close> is modelled with a sum: \<open>Inl\<close> is the error.
  \<open>bind_err\<close> is the chain of \<open>if err != nil { return err }\<close>.
\<close>

definition bind_err :: "'e + 'a \<Rightarrow> ('a \<Rightarrow> 'e + 'b) \<Rightarrow> 'e + 'b" where
  "bind_err m f = (case m of Inl e \<Rightarrow> Inl e | Inr x \<Rightarrow> f x)"

lemma bind_err_simps [simp]: "bind_err (Inl e) f = Inl e" "bind_err (Inr x) f = f x"
  by (simp_all add: bind_err_def)

lemma bind_err_Inr_iff: "bind_err m f = Inr y \<longleftrightarrow> (\<exists>x. m = Inr x \<and> f x = Inr y)"
  by (cases m) auto

lemma bind_err_Inl_iff:
  "bind_err m f = Inl e \<longleftrightarrow> m = Inl e \<or> (\<exists>x. m = Inr x \<and> f x = Inl e)"
  by (cases m) auto

lemma bind_err_assoc: "bind_err (bind_err m f) g = bind_err m (\<lambda>x. bind_err (f x) g)"
  by (cases m) auto

lemma bind_err_cong [fundef_cong]:
  "m = m' \<Longrightarrow> (\<And>x. m' = Inr x \<Longrightarrow> f x = f' x) \<Longrightarrow> bind_err m f = bind_err m' f'"
  by (cases m') auto

lemma case_error_None: "(case m of None \<Rightarrow> X | Some e \<Rightarrow> Some e) = None \<longleftrightarrow> m = None \<and> X = None"
  by (cases m) auto

subsection \<open>Stream consumers\<close>

text \<open>
  A stream consumer is fed a byte stream in pieces: the terminal transcript, the terminal
  cleaner, the completion collector and the prefix skipper all are. The contract says that
  under its invariant a consumer never fails, keeps the invariant, and does not see where
  one piece ends and the next begins. Its lemmas then hold for every way of cutting the
  stream, which the PTY's reads decide.
\<close>

fun feed_all :: "('s \<Rightarrow> 'a list \<Rightarrow> 's option) \<Rightarrow> 's \<Rightarrow> 'a list list \<Rightarrow> 's option" where
  "feed_all f s [] = Some s"
| "feed_all f s (c # cs) = (case f s c of None \<Rightarrow> None | Some s' \<Rightarrow> feed_all f s' cs)"

locale stream_consumer =
  fixes feed :: "'s \<Rightarrow> 'a list \<Rightarrow> 's option"
    and ok :: "'s \<Rightarrow> bool"
  assumes feed_total: "ok s \<Longrightarrow> \<exists>s'. feed s xs = Some s' \<and> ok s'"
    and feed_Nil: "ok s \<Longrightarrow> feed s [] = Some s"
    and feed_append:
      "ok s \<Longrightarrow> feed s (xs @ ys) = (case feed s xs of None \<Rightarrow> None | Some t \<Rightarrow> feed t ys)"
begin

lemma feed_all_concat: "ok s \<Longrightarrow> feed_all feed s cs = feed s (concat cs)"
proof (induction cs arbitrary: s)
  case Nil
  then show ?case by (simp add: feed_Nil)
next
  case (Cons c cs)
  from feed_total [OF Cons.prems] obtain t where "feed s c = Some t" and "ok t" by blast
  with Cons show ?case by (simp add: feed_append)
qed

lemma feed_all_ok: "ok s \<Longrightarrow> \<exists>t. feed_all feed s cs = Some t \<and> ok t"
  using feed_total [of s "concat cs"] by (simp add: feed_all_concat)

lemma chunking_irrelevant:
  "ok s \<Longrightarrow> concat cs = concat ds \<Longrightarrow> feed_all feed s cs = feed_all feed s ds"
  by (simp add: feed_all_concat)

end

end
