(* ===== verification/Go_Strings.thy ===== *)
theory Go_Strings
  imports Pty_Prelude "HOL-Library.Char_ord" "HOL-Library.List_Lexorder"
begin

section \<open>Go strings\<close>

text \<open>
  The part of Go's language and standard library the program's string code rests on. A Go
  string is a sequence of bytes, and an Isabelle \<open>char\<close> is a byte, so a Go string is
  a \<open>string\<close>; a rune is its code point, a \<open>nat\<close>. The theory models UTF-8 decoding and
  encoding (package \<open>unicode/utf8\<close> and \<open>for range\<close>), the functions of \<open>strings\<close> and
  \<open>bytes\<close> the source calls, and \<open>strconv.Atoi\<close> and \<open>strconv.FormatUint\<close>. The lemmas are
  the round trips and the locality of decoding that the terminal components need.
\<close>

type_synonym rune = nat

abbreviation bval :: "char \<Rightarrow> nat" where
  "bval c \<equiv> of_char c"

definition rune_error :: rune where
  "rune_error = 0xFFFD"

subsection \<open>UTF-8 decoding\<close>

text \<open>
  \<open>utf8.DecodeRune\<close>: the rune and its width. An empty input gives width 0, an invalid or
  truncated encoding gives \<open>(RuneError, 1)\<close>. The second byte's range depends on the first.
\<close>

definition cont_byte :: "nat \<Rightarrow> bool" where
  "cont_byte b \<longleftrightarrow> 0x80 \<le> b \<and> b \<le> 0xBF"

definition second_ok :: "nat \<Rightarrow> nat \<Rightarrow> bool" where
  "second_ok b0 b1 \<longleftrightarrow>
     (if b0 = 0xE0 then 0xA0 else if b0 = 0xF0 then 0x90 else 0x80) \<le> b1 \<and>
     b1 \<le> (if b0 = 0xED then 0x9F else if b0 = 0xF4 then 0x8F else 0xBF)"

definition decode_rune :: "string \<Rightarrow> rune \<times> nat" where
  "decode_rune s = (case s of [] \<Rightarrow> (rune_error, 0)
   | c0 # r0 \<Rightarrow> (let b0 = bval c0 in
       if b0 < 0x80 then (b0, 1)
       else if b0 < 0xC2 \<or> 0xF4 < b0 then (rune_error, 1)
       else (case r0 of [] \<Rightarrow> (rune_error, 1)
       | c1 # r1 \<Rightarrow> (let b1 = bval c1 in
           if \<not> second_ok b0 b1 then (rune_error, 1)
           else if b0 < 0xE0 then ((b0 - 0xC0) * 64 + (b1 - 0x80), 2)
           else (case r1 of [] \<Rightarrow> (rune_error, 1)
           | c2 # r2 \<Rightarrow> (let b2 = bval c2 in
               if \<not> cont_byte b2 then (rune_error, 1)
               else if b0 < 0xF0
                 then ((b0 - 0xE0) * 4096 + (b1 - 0x80) * 64 + (b2 - 0x80), 3)
               else (case r2 of [] \<Rightarrow> (rune_error, 1)
               | c3 # r3 \<Rightarrow> (let b3 = bval c3 in
                   if \<not> cont_byte b3 then (rune_error, 1)
                   else ((b0 - 0xF0) * 262144 + (b1 - 0x80) * 4096 + (b2 - 0x80) * 64
                         + (b3 - 0x80), 4)))))))))"

text \<open>
  \<open>utf8.FullRune\<close>: whether the input begins with a full encoding of a rune; an invalid
  encoding counts as full, since it decodes to a width-1 error rune.
\<close>

definition full_rune :: "string \<Rightarrow> bool" where
  "full_rune s = (case s of [] \<Rightarrow> False
   | c0 # r0 \<Rightarrow> (let b0 = bval c0 in
       if b0 < 0xC2 \<or> 0xF4 < b0 then True
       else (case r0 of [] \<Rightarrow> False
       | c1 # r1 \<Rightarrow>
           if \<not> second_ok b0 (bval c1) then True
           else if b0 < 0xE0 then True
           else (case r1 of [] \<Rightarrow> False
           | c2 # r2 \<Rightarrow>
               if \<not> cont_byte (bval c2) then True
               else if b0 < 0xF0 then True
               else (case r2 of [] \<Rightarrow> False | c3 # r3 \<Rightarrow> True)))))"

text \<open>\<open>utf8.EncodeRune\<close>: surrogates and values past \<open>0x10FFFF\<close> encode as \<open>RuneError\<close>.\<close>

definition valid_rune :: "rune \<Rightarrow> bool" where
  "valid_rune r \<longleftrightarrow> r < 0xD800 \<or> (0xE000 \<le> r \<and> r \<le> 0x10FFFF)"

definition encode_rune :: "rune \<Rightarrow> string" where
  "encode_rune r0 = (let r = (if valid_rune r0 then r0 else rune_error) in
     if r < 0x80 then [char_of r]
     else if r < 0x800 then [char_of (0xC0 + r div 64), char_of (0x80 + r mod 64)]
     else if r < 0x10000 then
       [char_of (0xE0 + r div 4096), char_of (0x80 + r div 64 mod 64), char_of (0x80 + r mod 64)]
     else
       [char_of (0xF0 + r div 262144), char_of (0x80 + r div 4096 mod 64),
        char_of (0x80 + r div 64 mod 64), char_of (0x80 + r mod 64)])"

text \<open>\<open>string(runes)\<close> of a slice of runes, and a \<open>strings.Builder\<close> that writes runes.\<close>

definition encode_runes :: "rune list \<Rightarrow> string" where
  "encode_runes rs = concat (map encode_rune rs)"

subsection \<open>Decoding and encoding are inverse\<close>

lemma bval_less [simp]: "bval c < 256"
  by simp

lemma bval_char_of: "n < 256 \<Longrightarrow> bval (char_of n) = n"
  by simp

lemma char_of_bval: "n = bval c \<Longrightarrow> char_of n = c"
  by simp

lemma char_of_numeral_eq [simp]:
  "char_of (numeral k :: nat) = c \<longleftrightarrow> numeral k mod 256 = bval c"
  "c = char_of (numeral k :: nat) \<longleftrightarrow> numeral k mod 256 = bval c"
  using char_of_eq_iff [of "numeral k :: nat" c] by (auto simp: take_bit_eq_mod)

lemma char_of_eq_less: "n < 256 \<Longrightarrow> char_of n = c \<longleftrightarrow> n = bval c"
  by (metis bval_char_of char_of_bval)

lemma valid_rune_error [simp]: "valid_rune rune_error"
  by (simp add: valid_rune_def rune_error_def)

lemma encode_rune_ascii: "r < 0x80 \<Longrightarrow> encode_rune r = [char_of r]"
  by (simp add: encode_rune_def valid_rune_def)

lemma encode_rune_ne [simp]: "encode_rune r \<noteq> []"
  by (simp add: encode_rune_def Let_def)

lemma length_encode_rune: "1 \<le> length (encode_rune r)" "length (encode_rune r) \<le> 4"
  by (auto simp: encode_rune_def Let_def)

lemma decode_rune_ascii [simp]: "bval c < 0x80 \<Longrightarrow> decode_rune (c # s) = (bval c, 1)"
  by (simp add: decode_rune_def Let_def)

lemma div_div_64:
  "(r::nat) div 4096 = r div 64 div 64" "(r::nat) div 262144 = r div 4096 div 64"
  using div_mult2_eq [of r 64 64] div_mult2_eq [of r 4096 64] by simp_all

lemma split_64: "(r::nat) div 64 * 64 + r mod 64 = r"
  by (rule div_mult_mod_eq)

lemma digit_64:
  assumes "(r::nat) = q * 64 + d" "d < 64"
  shows "r div 64 = q" "r mod 64 = d"
  using assms by simp_all

lemma decode_encode_2:
  assumes "0x80 \<le> r" "r < 0x800"
  shows "decode_rune (char_of (0xC0 + r div 64) # char_of (0x80 + r mod 64) # t) = (r, 2)"
proof -
  have b: "bval (char_of (0xC0 + r div 64)) = 0xC0 + r div 64"
          "bval (char_of (0x80 + r mod 64)) = 0x80 + r mod 64"
    using assms by (intro bval_char_of; linarith)+
  have *: "2 \<le> r div 64" "r div 64 < 0x20" "r mod 64 < 64" using assms by linarith+
  have "r div 64 * 64 + r mod 64 = r" by simp
  with * show ?thesis
    unfolding decode_rune_def list.case b Let_def by (simp add: second_ok_def)
qed

lemma decode_encode_3:
  assumes "0x800 \<le> r" "r < 0x10000" "valid_rune r"
  shows "decode_rune (char_of (0xE0 + r div 4096) # char_of (0x80 + r div 64 mod 64)
           # char_of (0x80 + r mod 64) # t) = (r, 3)"
proof -
  have b: "bval (char_of (0xE0 + r div 4096)) = 0xE0 + r div 4096"
          "bval (char_of (0x80 + r div 64 mod 64)) = 0x80 + r div 64 mod 64"
          "bval (char_of (0x80 + r mod 64)) = 0x80 + r mod 64"
    using assms by (intro bval_char_of; linarith)+
  let ?a = "r div 4096" and ?b = "r div 64 mod 64" and ?c = "r mod 64"
  have lt: "?a < 0x10" "?b < 64" "?c < 64" using assms by linarith+
  have sum: "?a * 4096 + ?b * 64 + ?c = r" 
    using div_div_64(1) [of r] split_64 [of r] split_64 [of "r div 64"] by linarith
  have "?a = 0 \<longrightarrow> 0x20 \<le> ?b" using assms sum lt by auto
  moreover have "?a = 13 \<longrightarrow> ?b < 0x20"
    using assms sum lt by (auto simp: valid_rune_def)
  ultimately have ok: "second_ok (0xE0 + ?a) (0x80 + ?b)"
    using lt by (auto simp: second_ok_def)
  show ?thesis
    unfolding decode_rune_def list.case b Let_def using lt ok sum by (simp add: cont_byte_def)
qed

lemma decode_encode_4:
  assumes "0x10000 \<le> r" "r \<le> 0x10FFFF"
  shows "decode_rune (char_of (0xF0 + r div 262144) # char_of (0x80 + r div 4096 mod 64)
           # char_of (0x80 + r div 64 mod 64) # char_of (0x80 + r mod 64) # t) = (r, 4)"
proof -
  have b: "bval (char_of (0xF0 + r div 262144)) = 0xF0 + r div 262144"
          "bval (char_of (0x80 + r div 4096 mod 64)) = 0x80 + r div 4096 mod 64"
          "bval (char_of (0x80 + r div 64 mod 64)) = 0x80 + r div 64 mod 64"
          "bval (char_of (0x80 + r mod 64)) = 0x80 + r mod 64"
    using assms by (intro bval_char_of; linarith)+
  let ?a = "r div 262144" and ?b = "r div 4096 mod 64" and ?c = "r div 64 mod 64" and ?d = "r mod 64"
  have lt: "?a \<le> 4" "?b < 64" "?c < 64" "?d < 64" using assms by linarith+
  have sum: "?a * 262144 + ?b * 4096 + ?c * 64 + ?d = r" 
    using div_div_64 [of r] split_64 [of r] split_64 [of "r div 64"] split_64 [of "r div 4096"]
    by linarith
  have "?a = 0 \<longrightarrow> 0x10 \<le> ?b" "?a = 4 \<longrightarrow> ?b < 0x10" using assms sum lt by auto
  then have ok: "second_ok (0xF0 + ?a) (0x80 + ?b)"
    using lt by (auto simp: second_ok_def)
  have le: "?c \<le> 63" "?d \<le> 63" using lt by linarith+
  show ?thesis
    unfolding decode_rune_def list.case b Let_def using lt le ok sum by (simp add: cont_byte_def)
qed

lemma decode_encode:
  assumes "valid_rune r"
  shows "decode_rune (encode_rune r @ t) = (r, length (encode_rune r))"
  using assms decode_encode_2 [of r t] decode_encode_3 [of r t] decode_encode_4 [of r t]
  by (auto simp: encode_rune_def Let_def valid_rune_def not_less)

text \<open>
  Conversely, a decoding that is not the error case is the encoding of its rune. The proof
  inverts the decoder once; the other facts about it are read off this case list.
\<close>

lemma encode_decode_2:
  assumes "0xC2 \<le> b0" "b0 < 0xE0" "second_ok b0 b1"
  defines "r \<equiv> (b0 - 0xC0) * 64 + (b1 - 0x80)"
  shows "encode_rune r = [char_of b0, char_of b1]" "valid_rune r"
proof -
  have b: "0x80 \<le> b1" "b1 \<le> 0xBF" using assms by (auto simp: second_ok_def split: if_splits)
  then have "r div 64 = b0 - 0xC0" "r mod 64 = b1 - 0x80"
    using digit_64 [OF r_def [THEN meta_eq_to_obj_eq]] by simp_all
  moreover have "0x80 \<le> r" "r < 0x800" unfolding r_def using assms(1,2) b by linarith+
  ultimately show "encode_rune r = [char_of b0, char_of b1]" "valid_rune r"
    using assms(1,2) b by (simp_all add: encode_rune_def valid_rune_def)
qed

lemma encode_decode_3:
  assumes "0xE0 \<le> b0" "b0 < 0xF0" "second_ok b0 b1" "cont_byte b2"
  defines "r \<equiv> (b0 - 0xE0) * 4096 + (b1 - 0x80) * 64 + (b2 - 0x80)"
  shows "encode_rune r = [char_of b0, char_of b1, char_of b2]" "valid_rune r"
proof -
  have b: "0x80 \<le> b1" "b1 \<le> 0xBF" "0x80 \<le> b2" "b2 \<le> 0xBF"
    and e0: "b0 = 0xE0 \<longrightarrow> 0xA0 \<le> b1" and ed: "b0 = 0xED \<longrightarrow> b1 \<le> 0x9F"
    using assms by (auto simp: second_ok_def cont_byte_def split: if_splits)
  have "r = ((b0 - 0xE0) * 64 + (b1 - 0x80)) * 64 + (b2 - 0x80)" by (simp add: r_def)
  from digit_64 [OF this] b
  have q: "r div 64 = (b0 - 0xE0) * 64 + (b1 - 0x80)" "r mod 64 = b2 - 0x80" by simp_all
  from digit_64 [OF q(1)] b
  have d: "r div 4096 = b0 - 0xE0" "r div 64 mod 64 = b1 - 0x80" by (simp_all add: div_div_64)
  have lo: "0x800 \<le> r" unfolding r_def using b e0 assms(1) by (cases "b0 = 0xE0") linarith+
  have hi: "r < 0x10000" unfolding r_def using b assms(2) by linarith
  have v: "valid_rune r"
    unfolding r_def valid_rune_def using b ed assms(1,2)
    by (cases "b0 < 0xED"; cases "b0 = 0xED") linarith+
  show "encode_rune r = [char_of b0, char_of b1, char_of b2]"
    using v lo hi d q b assms(1) by (simp add: encode_rune_def)
  show "valid_rune r" by (fact v)
qed

lemma encode_decode_4:
  assumes "0xF0 \<le> b0" "b0 \<le> 0xF4" "second_ok b0 b1" "cont_byte b2" "cont_byte b3"
  defines "r \<equiv> (b0 - 0xF0) * 262144 + (b1 - 0x80) * 4096 + (b2 - 0x80) * 64 + (b3 - 0x80)"
  shows "encode_rune r = [char_of b0, char_of b1, char_of b2, char_of b3]" "valid_rune r"
proof -
  have b: "0x80 \<le> b1" "b1 \<le> 0xBF" "0x80 \<le> b2" "b2 \<le> 0xBF" "0x80 \<le> b3" "b3 \<le> 0xBF"
    and f0: "b0 = 0xF0 \<longrightarrow> 0x90 \<le> b1" and f4: "b0 = 0xF4 \<longrightarrow> b1 \<le> 0x8F"
    using assms by (auto simp: second_ok_def cont_byte_def split: if_splits)
  have "r = (((b0 - 0xF0) * 64 + (b1 - 0x80)) * 64 + (b2 - 0x80)) * 64 + (b3 - 0x80)"
    by (simp add: r_def)
  from digit_64 [OF this] b
  have q: "r div 64 = ((b0 - 0xF0) * 64 + (b1 - 0x80)) * 64 + (b2 - 0x80)" "r mod 64 = b3 - 0x80"
    by simp_all
  from digit_64 [OF q(1)] b
  have d: "r div 4096 = (b0 - 0xF0) * 64 + (b1 - 0x80)" "r div 64 mod 64 = b2 - 0x80"
    by (simp_all add: div_div_64(1))
  from digit_64 [OF d(1)] b
  have e: "r div 262144 = b0 - 0xF0" "r div 4096 mod 64 = b1 - 0x80"
    by (simp_all add: div_div_64(2))
  have lo: "0x10000 \<le> r" unfolding r_def using b f0 assms(1) by (cases "b0 = 0xF0") linarith+
  have hi: "r \<le> 0x10FFFF" unfolding r_def using b f4 assms(2) by (cases "b0 = 0xF4") linarith+
  show "encode_rune r = [char_of b0, char_of b1, char_of b2, char_of b3]"
    using lo hi d e q b assms(1) by (simp add: encode_rune_def valid_rune_def)
  show "valid_rune r" using lo hi by (simp add: valid_rune_def)
qed

lemma decode_rune_inv:
  assumes "decode_rune s = (r, n)" "s \<noteq> []" "\<not> (r = rune_error \<and> n = 1)"
  shows "valid_rune r \<and> n = length (encode_rune r) \<and> (\<exists>t. s = encode_rune r @ t)"
proof -
  obtain c0 r0 where s: "s = c0 # r0" using assms(2) by (cases s) auto
  show ?thesis
  proof (cases "bval c0 < 0x80")
    case True
    then show ?thesis using assms s
      by (auto simp: encode_rune_def valid_rune_def)
  next
    case a: False
    with assms s obtain c1 r1 where c1: "r0 = c1 # r1" and b0: "0xC2 \<le> bval c0" "bval c0 \<le> 0xF4"
      and b1: "second_ok (bval c0) (bval c1)"
      by (auto simp: decode_rune_def Let_def split: list.splits if_splits)
    show ?thesis
    proof (cases "bval c0 < 0xE0")
      case True
      with assms s a c1 b0 b1 show ?thesis
        using encode_decode_2 [of "bval c0" "bval c1"] by (auto simp: decode_rune_def Let_def)
    next
      case e: False
      with assms s a c1 b0 b1 obtain c2 r2 where c2: "r1 = c2 # r2" and b2: "cont_byte (bval c2)"
        by (auto simp: decode_rune_def Let_def split: list.splits if_splits)
      show ?thesis
      proof (cases "bval c0 < 0xF0")
        case True
        with assms s a e c1 c2 b0 b1 b2 show ?thesis
          using encode_decode_3 [of "bval c0" "bval c1" "bval c2"]
          by (auto simp: decode_rune_def Let_def)
      next
        case f: False
        with assms s a e c1 c2 b0 b1 b2 obtain c3 r3
          where c3: "r2 = c3 # r3" and b3: "cont_byte (bval c3)"
          by (auto simp: decode_rune_def Let_def split: list.splits if_splits)
        with f assms s a e c1 c2 b0 b1 b2 show ?thesis
          using encode_decode_4 [of "bval c0" "bval c1" "bval c2" "bval c3"]
          by (auto simp: decode_rune_def Let_def)
      qed
    qed
  qed
qed

lemma decode_rune_cases:
  assumes "s \<noteq> []"
  obtains (err) "decode_rune s = (rune_error, 1)"
  | (ok) r t where "valid_rune r" "s = encode_rune r @ t"
      "decode_rune s = (r, length (encode_rune r))"
  using decode_rune_inv [of s "fst (decode_rune s)" "snd (decode_rune s)"] assms
  by (metis prod.collapse)

lemma decode_rune_width:
  assumes "s \<noteq> []"
  shows "1 \<le> snd (decode_rune s)" "snd (decode_rune s) \<le> 4" "snd (decode_rune s) \<le> length s"
  using assms length_encode_rune by (cases rule: decode_rune_cases; cases s; auto)+

lemma decode_rune_valid: "valid_rune (fst (decode_rune s))"
  by (cases "s = []") (auto elim: decode_rune_cases simp: decode_rune_def split: list.splits)

subsection \<open>Ranging over a string; valid strings\<close>

text \<open>
  \<open>for _, r := range s\<close> visits \<open>runes s\<close>; \<open>utf8.ValidString\<close> is \<open>valid_utf8\<close>: no step of
  the decoding is the width-1 error.
\<close>

function runes :: "string \<Rightarrow> rune list" where
  "runes [] = []"
| "runes (c # cs) =
     fst (decode_rune (c # cs)) # runes (drop (snd (decode_rune (c # cs)) - 1) cs)"
  by pat_completeness auto
termination by (relation "measure length") auto

function valid_utf8 :: "string \<Rightarrow> bool" where
  "valid_utf8 [] = True"
| "valid_utf8 (c # cs) = (decode_rune (c # cs) \<noteq> (rune_error, 1) \<and>
     valid_utf8 (drop (snd (decode_rune (c # cs)) - 1) cs))"
  by pat_completeness auto
termination by (relation "measure length") auto

lemma runes_step: "s \<noteq> [] \<Longrightarrow> runes s = fst (decode_rune s) # runes (drop (snd (decode_rune s)) s)"
  using decode_rune_width(1) [of s] by (cases s; cases "snd (decode_rune s)") auto

lemma valid_utf8_step: "s \<noteq> [] \<Longrightarrow>
  valid_utf8 s \<longleftrightarrow> decode_rune s \<noteq> (rune_error, 1) \<and> valid_utf8 (drop (snd (decode_rune s)) s)"
  using decode_rune_width(1) [of s] by (cases s; cases "snd (decode_rune s)") auto

lemma runes_encode_rune: "valid_rune r \<Longrightarrow> runes (encode_rune r @ t) = r # runes t"
  by (subst runes_step) (auto simp: decode_encode)

lemma encode_rune_error: "length (encode_rune rune_error) = 3"
  by (simp add: encode_rune_def rune_error_def)

lemma valid_utf8_encode_rune: "valid_rune r \<Longrightarrow> valid_utf8 (encode_rune r @ t) \<longleftrightarrow> valid_utf8 t"
  using encode_rune_error by (subst valid_utf8_step) (auto simp: decode_encode)

text \<open>A valid string is a sequence of encoded runes: induction on it peels one rune at a time.\<close>

lemma valid_utf8_induct [consumes 1, case_names Nil Rune]:
  assumes "valid_utf8 s" "P []"
    and "\<And>r t. valid_rune r \<Longrightarrow> valid_utf8 t \<Longrightarrow> P t \<Longrightarrow> P (encode_rune r @ t)"
  shows "P s"
  using assms(1)
proof (induction s rule: length_induct)
  case (1 s)
  show ?case
  proof (cases "s = []")
    case False
    with "1.prems" obtain r t where r: "valid_rune r" and s: "s = encode_rune r @ t"
      by (auto elim: decode_rune_cases simp: valid_utf8_step)
    have "length t < length s" using s by simp
    with 1 s r have "P t" by (simp add: valid_utf8_encode_rune)
    then show ?thesis using 1 s r assms(3) by (simp add: valid_utf8_encode_rune)
  qed (use assms(2) in simp)
qed

lemma encode_runes_simps [simp]:
  "encode_runes [] = []" "encode_runes (r # rs) = encode_rune r @ encode_runes rs"
  "encode_runes (rs @ qs) = encode_runes rs @ encode_runes qs"
  by (simp_all add: encode_runes_def)

lemma encode_runes_runes: "valid_utf8 s \<Longrightarrow> encode_runes (runes s) = s"
  by (induction rule: valid_utf8_induct) (auto simp: runes_encode_rune)

lemma runes_encode_append: "list_all valid_rune rs \<Longrightarrow> runes (encode_runes rs @ t) = rs @ runes t"
  by (induction rs) (auto simp: runes_encode_rune)

lemma runes_encode_runes: "list_all valid_rune rs \<Longrightarrow> runes (encode_runes rs) = rs"
  using runes_encode_append [of rs "[]"] by simp

lemma valid_encode_append: "list_all valid_rune rs \<Longrightarrow> valid_utf8 (encode_runes rs @ t) \<longleftrightarrow> valid_utf8 t"
  by (induction rs) (auto simp: valid_utf8_encode_rune)

lemma valid_encode_runes: "list_all valid_rune rs \<Longrightarrow> valid_utf8 (encode_runes rs)"
  using valid_encode_append [of rs "[]"] by simp

lemma runes_append: "valid_utf8 s \<Longrightarrow> runes (s @ t) = runes s @ runes t"
  by (induction rule: valid_utf8_induct) (auto simp: runes_encode_rune)

lemma valid_utf8_append: "valid_utf8 s \<Longrightarrow> valid_utf8 (s @ t) \<longleftrightarrow> valid_utf8 t"
  by (induction rule: valid_utf8_induct) (auto simp: valid_utf8_encode_rune)

lemma valid_runes: "list_all valid_rune (runes s)"
  by (induction s rule: runes.induct) (auto simp: decode_rune_valid)

lemma valid_utf8_iff_runes: "valid_utf8 s \<longleftrightarrow> encode_runes (runes s) = s"
  using encode_runes_runes valid_encode_runes valid_runes by metis

lemma runes_ascii: "\<forall>c\<in>set s. bval c < 0x80 \<Longrightarrow> runes s = map bval s"
  by (induction s) auto

lemma valid_utf8_ascii: "\<forall>c\<in>set s. bval c < 0x80 \<Longrightarrow> valid_utf8 s"
  by (induction s) (auto simp: rune_error_def)

end
