(* ===== verification/Go_Library.thy ===== *)
theory Go_Library
  imports Go_Strings
begin

section \<open>The packages strings, bytes and strconv\<close>

text \<open>
  The functions of Go's standard library that the string code of ptymux calls, on strings as
  lists of bytes, with the round trips and locality facts its proofs use.
\<close>

abbreviation chr_lf :: char where "chr_lf \<equiv> CHR 0x0A"
abbreviation chr_cr :: char where "chr_cr \<equiv> CHR 0x0D"
abbreviation chr_esc :: char where "chr_esc \<equiv> CHR 0x1B"
abbreviation chr_bel :: char where "chr_bel \<equiv> CHR 0x07"

subsection \<open>Split and Join\<close>

text \<open>\<open>strings.Split(s, sep)\<close> for a one-byte separator, and \<open>strings.Join\<close>.\<close>

fun split_on :: "char \<Rightarrow> string \<Rightarrow> string list" where
  "split_on sep [] = [[]]"
| "split_on sep (c # cs) =
     (if c = sep then [] # split_on sep cs
      else (case split_on sep cs of [] \<Rightarrow> [[c]] | p # ps \<Rightarrow> (c # p) # ps))"

fun join :: "string \<Rightarrow> string list \<Rightarrow> string" where
  "join sep [] = []"
| "join sep [x] = x"
| "join sep (x # y # ys) = x @ sep @ join sep (y # ys)"

lemma split_on_ne [simp]: "split_on sep s \<noteq> []"
  by (induction s) (auto split: list.splits)

lemma split_on_Cons_ne: "c \<noteq> sep \<Longrightarrow>
  split_on sep (c # cs) = (c # hd (split_on sep cs)) # tl (split_on sep cs)"
  by (cases "split_on sep cs") auto

lemma join_Cons: "xs \<noteq> [] \<Longrightarrow> join sep (x # xs) = x @ sep @ join sep xs"
  by (cases xs) auto

lemma join_snoc: "xs \<noteq> [] \<Longrightarrow> join sep (xs @ [y]) = join sep xs @ sep @ y"
proof (induction xs)
  case (Cons x xs)
  then show ?case by (cases xs) (auto simp: join_Cons)
qed simp

lemma join_split: "join [sep] (split_on sep s) = s"
proof (induction s)
  case (Cons c cs)
  then show ?case by (cases "split_on sep cs"; cases "tl (split_on sep cs)") (auto simp: join_Cons)
qed simp

lemma split_on_free: "sep \<notin> set s \<Longrightarrow> split_on sep s = [s]"
  by (induction s) auto

lemma split_on_append_sep: "sep \<notin> set x \<Longrightarrow> split_on sep (x @ sep # s) = x # split_on sep s"
  by (induction x) auto

lemma split_join:
  "xs \<noteq> [] \<Longrightarrow> \<forall>x\<in>set xs. sep \<notin> set x \<Longrightarrow> split_on sep (join [sep] xs) = xs"
  by (induction "[sep]" xs rule: join.induct) (auto simp: split_on_free split_on_append_sep)

lemma split_on_parts: "p \<in> set (split_on sep s) \<Longrightarrow> sep \<notin> set p"
  by (induction s arbitrary: p) (auto split: list.splits if_splits)

lemma split_on_subset: "p \<in> set (split_on sep s) \<Longrightarrow> set p \<subseteq> set s"
proof (induction s arbitrary: p)
  case (Cons c cs)
  then show ?case by (cases "split_on sep cs") (fastforce split: if_splits)+
qed simp

lemma set_join: "set (join sep xs) \<subseteq> set sep \<union> (\<Union>x\<in>set xs. set x)"
  by (induction sep xs rule: join.induct) auto

lemma length_join:
  "length (join [c] xs) = sum_list (map length xs) + (length xs - 1)"
  by (induction "[c]" xs rule: join.induct) auto

subsection \<open>Index, IndexAny, Contains, ReplaceAll\<close>

text \<open>\<open>bytes.Index\<close>: the first position of a sublist; \<open>bytes.IndexAny\<close>: of a matching byte.\<close>

fun index_of :: "'a list \<Rightarrow> 'a list \<Rightarrow> nat option" where
  "index_of m [] = (if m = [] then Some 0 else None)"
| "index_of m (x # xs) = (if prefix m (x # xs) then Some 0 else map_option Suc (index_of m xs))"

fun index_where :: "('a \<Rightarrow> bool) \<Rightarrow> 'a list \<Rightarrow> nat option" where
  "index_where P [] = None"
| "index_where P (x # xs) = (if P x then Some 0 else map_option Suc (index_where P xs))"

text \<open>\<open>strings.Contains(s, sub)\<close>.\<close>

definition contains :: "string \<Rightarrow> string \<Rightarrow> bool" where
  "contains s sub \<longleftrightarrow> sublist sub s"

text \<open>\<open>strings.ReplaceAll(s, "\r\n", "\n")\<close>.\<close>

fun crlf_to_lf :: "string \<Rightarrow> string" where
  "crlf_to_lf [] = []"
| "crlf_to_lf [c] = [c]"
| "crlf_to_lf (c # d # cs) =
     (if c = chr_cr \<and> d = chr_lf then chr_lf # crlf_to_lf cs else c # crlf_to_lf (d # cs))"

lemma index_of_None_iff: "index_of m xs = None \<longleftrightarrow> \<not> sublist m xs"
  by (induction m xs rule: index_of.induct) (auto simp: sublist_Cons_right)

lemma index_of_Some:
  "index_of m xs = Some i \<Longrightarrow> i + length m \<le> length xs \<and> xs = take i xs @ m @ drop (i + length m) xs"
proof (induction m xs arbitrary: i rule: index_of.induct)
  case (2 m x xs)
  show ?case
  proof (cases "prefix m (x # xs)")
    case True
    then obtain zs where z: "x # xs = m @ zs" by (auto simp: prefix_def)
    from arg_cong [OF z, of length] have "length m \<le> length (x # xs)" by simp
    moreover from True 2 have "i = 0" by simp
    ultimately show ?thesis using z by simp
  next
    case False
    with 2 show ?thesis by auto
  qed
qed (auto split: if_splits)

lemma index_of_first:
  "index_of m xs = Some i \<Longrightarrow> j < i \<Longrightarrow> \<not> prefix m (drop j xs)"
proof (induction m xs arbitrary: i j rule: index_of.induct)
  case (2 m x xs)
  then show ?case by (cases j) (auto split: if_splits)
qed (auto split: if_splits)

lemma index_of_leftmost:
  assumes "\<And>j. j < length pre \<Longrightarrow> \<not> prefix m (drop j (pre @ m @ post))"
  shows "index_of m (pre @ m @ post) = Some (length pre)"
  using assms
proof (induction pre)
  case Nil
  have "prefix m (m @ post)" by simp
  then show ?case by (cases "m @ post") auto
next
  case (Cons a pre)
  have "\<not> prefix m (a # pre @ m @ post)" using Cons.prems [of 0] by simp
  moreover have "index_of m (pre @ m @ post) = Some (length pre)"
    using Cons.prems [of "Suc j" for j] by (intro Cons.IH) fastforce
  ultimately show ?case by simp
qed

lemma index_where_None_iff: "index_where P xs = None \<longleftrightarrow> (\<forall>x\<in>set xs. \<not> P x)"
  by (induction xs) auto

lemma index_where_Some:
  "index_where P xs = Some i \<Longrightarrow> i < length xs \<and> P (xs ! i) \<and> (\<forall>x\<in>set (take i xs). \<not> P x)"
  by (induction xs arbitrary: i) (auto split: if_splits)

lemma index_where_append:
  "\<forall>x\<in>set xs. \<not> P x \<Longrightarrow> index_where P (xs @ ys) = map_option ((+) (length xs)) (index_where P ys)"
  by (induction xs; cases "index_where P ys") auto

lemma set_crlf_to_lf: "set (crlf_to_lf s) \<subseteq> set s"
  by (induction s rule: crlf_to_lf.induct) auto

subsection \<open>White space: Fields and TrimSpace\<close>

text \<open>\<open>unicode.IsSpace\<close>: the White Space property.\<close>

definition is_space :: "rune \<Rightarrow> bool" where
  "is_space r \<longleftrightarrow> (9 \<le> r \<and> r \<le> 13) \<or> r = 32 \<or> r = 0x85 \<or> r = 0xA0 \<or> r = 0x1680 \<or>
     (0x2000 \<le> r \<and> r \<le> 0x200A) \<or> r = 0x2028 \<or> r = 0x2029 \<or> r = 0x202F \<or> r = 0x205F \<or> r = 0x3000"

text \<open>\<open>strings.Fields\<close>: maximal runs of non-space runes; \<open>cur\<close> is the run being read.\<close>

function fields_from :: "string \<Rightarrow> string \<Rightarrow> string list" where
  "fields_from cur [] = (if cur = [] then [] else [cur])"
| "fields_from cur (c # cs) =
     (let d = decode_rune (c # cs); rest = drop (snd d - 1) cs in
      if is_space (fst d) then (if cur = [] then fields_from [] rest else cur # fields_from [] rest)
      else fields_from (cur @ take (snd d) (c # cs)) rest)"
  by pat_completeness auto
termination by (relation "measure (\<lambda>(cur, s). length s)") auto

definition fields :: "string \<Rightarrow> string list" where
  "fields s = fields_from [] s"

text \<open>\<open>strings.TrimSpace\<close>. A trailing space rune is one whose encoding ends the string.\<close>

function trim_space_left :: "string \<Rightarrow> string" where
  "trim_space_left [] = []"
| "trim_space_left (c # cs) =
     (let d = decode_rune (c # cs) in
      if is_space (fst d) then trim_space_left (drop (snd d - 1) cs) else c # cs)"
  by pat_completeness auto
termination by (relation "measure length") auto

definition space_runes :: "rune list" where
  "space_runes = [9, 10, 11, 12, 13, 32, 0x85, 0xA0, 0x1680] @ [0x2000..<0x200B]
     @ [0x2028, 0x2029, 0x202F, 0x205F, 0x3000]"

definition trailing_space :: "string \<Rightarrow> nat" where
  "trailing_space s = (case find (\<lambda>r. suffix (encode_rune r) s) space_runes of
     None \<Rightarrow> 0 | Some r \<Rightarrow> length (encode_rune r))"

function trim_space_right :: "string \<Rightarrow> string" where
  "trim_space_right s =
     (if trailing_space s = 0 \<or> s = [] then s
      else trim_space_right (take (length s - trailing_space s) s))"
  by pat_completeness auto
termination by (relation "measure length") auto

declare trim_space_right.simps [simp del]

definition trim_space :: "string \<Rightarrow> string" where
  "trim_space s = trim_space_right (trim_space_left s)"

lemma space_runes_is_space: "r \<in> set space_runes \<longleftrightarrow> is_space r"
proof -
  have "r \<in> set [0x2000..<0x200B] \<longleftrightarrow> 0x2000 \<le> r \<and> r \<le> 0x200A" unfolding set_upt by auto
  then show ?thesis unfolding space_runes_def is_space_def set_append by auto
qed

lemma is_space_valid: "is_space r \<Longrightarrow> valid_rune r"
  by (auto simp: is_space_def valid_rune_def)

lemma trailing_space_0:
  assumes "s \<noteq> []" "bval (last s) < 0x80" "\<not> is_space (bval (last s))"
  shows "trailing_space s = 0"
proof -
  have "\<not> suffix (encode_rune r) s" if r: "is_space r" for r
  proof
    assume "suffix (encode_rune r) s"
    then have l: "last (encode_rune r) = last s" by (auto simp: suffix_def)
    show False
    proof (cases "r < 0x80")
      case True
      then have "last (encode_rune r) = char_of r" by (simp add: encode_rune_ascii)
      with l have "bval (last s) = r" using True bval_char_of [of r] by simp
      with assms r show False by simp
    next
      case False
      have m: "bval (char_of (0x80 + r mod 64)) = 0x80 + r mod 64" by (rule bval_char_of) linarith
      from False is_space_valid [OF r] have "last (encode_rune r) = char_of (0x80 + r mod 64)"
        by (simp add: encode_rune_def Let_def)
      with l m assms show False by simp
    qed
  qed
  then have "find (\<lambda>r. suffix (encode_rune r) s) space_runes = None"
    by (auto simp: find_None_iff space_runes_is_space)
  then show ?thesis by (simp add: trailing_space_def)
qed

lemma trim_space_id:
  assumes "s \<noteq> []" "\<forall>c\<in>set s. bval c < 0x80 \<and> \<not> is_space (bval c)"
  shows "trim_space s = s"
proof -
  have "trim_space_left s = s" using assms by (cases s) (auto simp: Let_def)
  moreover have "trailing_space s = 0" using assms by (intro trailing_space_0) auto
  ultimately show ?thesis by (simp add: trim_space_def trim_space_right.simps)
qed

text \<open>
  A string of ASCII words separated by single spaces has exactly those words as its fields.
\<close>

lemma fields_from_word:
  "\<forall>c\<in>set w. bval c < 0x80 \<and> \<not> is_space (bval c) \<Longrightarrow>
   fields_from cur (w @ s) = fields_from (cur @ w) s"
  by (induction w arbitrary: cur) (auto simp: Let_def)

lemma fields_from_space: "fields_from cur (CHR '' '' # s) = (if cur = [] then [] else [cur]) @ fields s"
  by (simp add: Let_def is_space_def fields_def)

lemma fields_join:
  assumes "\<forall>w\<in>set ws. w \<noteq> [] \<and> (\<forall>c\<in>set w. bval c < 0x80 \<and> \<not> is_space (bval c))"
  shows "fields (join '' '' ws) = ws"
  using assms
proof (induction "'' ''" ws rule: join.induct)
  case (2 x)
  then show ?case using fields_from_word [of x "[]" "[]"] by (simp add: fields_def)
next
  case (3 x y ys)
  then show ?case using fields_from_word [of x "[]" "CHR '' '' # join '' '' (y # ys)"]
    by (simp add: fields_def [of "_ @ _"] fields_from_space del: fields_from.simps)
qed (simp add: fields_def)

subsection \<open>ToLower\<close>

text \<open>
  \<open>strings.ToLower\<close>, as far as comparing its result with ASCII text can see: the ASCII
  letters, and the only two runes outside ASCII whose lower case is ASCII, U+0130 and the
  Kelvin sign. Every other rune outside ASCII lowers to a rune outside ASCII.
\<close>

definition lower_rune :: "rune \<Rightarrow> rune" where
  "lower_rune r = (if 65 \<le> r \<and> r \<le> 90 then r + 32
     else if r = 0x130 then 0x69 else if r = 0x212A then 0x6B else r)"

definition to_lower :: "string \<Rightarrow> string" where
  "to_lower s = encode_runes (map lower_rune (runes s))"

subsection \<open>Atoi and FormatUint\<close>

text \<open>
  \<open>strconv.Atoi\<close> on a 64-bit platform: an optional sign and at least one decimal digit;
  \<open>None\<close> is the error, for the syntax or for a value outside the range of \<open>int\<close>.
\<close>

definition is_digit :: "char \<Rightarrow> bool" where
  "is_digit c \<longleftrightarrow> 48 \<le> bval c \<and> bval c \<le> 57"

definition digits_value :: "string \<Rightarrow> nat" where
  "digits_value ds = foldl (\<lambda>v c. v * 10 + (bval c - 48)) 0 ds"

definition atoi :: "string \<Rightarrow> int option" where
  "atoi s =
     (let neg = (case s of c # _ \<Rightarrow> c = CHR ''-'' | [] \<Rightarrow> False);
          signed = (case s of c # _ \<Rightarrow> c = CHR ''-'' \<or> c = CHR ''+'' | [] \<Rightarrow> False);
          ds = (if signed then tl s else s);
          v = digits_value ds
      in if ds = [] \<or> \<not> list_all is_digit ds then None
         else if neg then (if v \<le> 2 ^ 63 then Some (- int v) else None)
         else (if v < 2 ^ 63 then Some (int v) else None))"

fun format_uint :: "nat \<Rightarrow> string" where
  "format_uint n = (if n < 10 then [char_of (48 + n)]
     else format_uint (n div 10) @ [char_of (48 + n mod 10)])"

declare format_uint.simps [simp del]

lemma bval_digit: "n < 10 \<Longrightarrow> bval (char_of (48 + n)) = 48 + n"
  by (rule bval_char_of) simp

lemma format_uint_props:
  "format_uint n \<noteq> [] \<and> list_all is_digit (format_uint n) \<and> digits_value (format_uint n) = n"
proof (induction n rule: format_uint.induct)
  case (1 n)
  show ?case
  proof (cases "n < 10")
    case True
    then show ?thesis
      by (subst (1 2 3) format_uint.simps) (simp add: bval_digit is_digit_def digits_value_def)
  next
    case False
    with 1 have "list_all is_digit (format_uint (n div 10))" "digits_value (format_uint (n div 10)) = n div 10"
      by auto
    with False show ?thesis
      by (subst (1 2 3) format_uint.simps)
        (simp add: bval_digit is_digit_def digits_value_def less_Suc_eq_le)
  qed
qed

lemma format_uint_chars: "c \<in> set (format_uint n) \<Longrightarrow> is_digit c"
  using format_uint_props [of n] by (auto simp: list_all_iff)

lemma format_uint_ne [simp]: "format_uint n \<noteq> []"
  using format_uint_props by blast

lemma atoi_digits:
  assumes "ds \<noteq> []" "list_all is_digit ds" "digits_value ds < 2 ^ 63"
  shows "atoi ds = Some (int (digits_value ds))"
proof -
  obtain d r where d: "ds = d # r" using assms(1) by (cases ds) auto
  with assms(2) have "d \<noteq> CHR ''-''" "d \<noteq> CHR ''+''" by (auto simp: is_digit_def)
  with d assms show ?thesis by (simp add: atoi_def Let_def)
qed

lemma atoi_format_uint: "n < 2 ^ 63 \<Longrightarrow> atoi (format_uint n) = Some (int n)"
  using atoi_digits [of "format_uint n"] format_uint_props [of n] by simp

lemma atoi_range: "atoi s = Some v \<Longrightarrow> - (2 ^ 63) \<le> v \<and> v < 2 ^ 63"
  by (auto simp: atoi_def Let_def split: if_splits)

end
