(* ===== verification/Server_Protocol.thy ===== *)
theory Server_Protocol
  imports Go_Library
begin

section \<open>Requests and their validation (internal/server/protocol.go)\<close>

text \<open>
  The request and the result of a local operation, the protocol's limits, and the validation
  every request passes before it touches a target. A Go \<open>error\<close> result is an option: \<open>None\<close>
  is \<open>nil\<close>. Every error here wraps \<open>ErrInvalidRequest\<close>; the constructor says which check
  failed.
\<close>

definition MaxTargetComponentBytes :: nat where [bound_simps]: "MaxTargetComponentBytes = 64"
definition MaxActionBytes :: nat where [bound_simps]: "MaxActionBytes = 32"
definition MaxCommandBytes :: nat where [bound_simps]: "MaxCommandBytes = 128 * 1024"
definition MaxReadCount :: int where [bound_simps]: "MaxReadCount = 4096"
definition MaxLocalRequestBytes :: nat where [bound_simps]: "MaxLocalRequestBytes = 1024 * 1024"
definition MaxRunOutputBytes :: nat where [bound_simps]: "MaxRunOutputBytes = 8 * 1024 * 1024"

datatype invalid_request =
    Action_required
  | Action_too_long
  | Component_required string
  | Component_not_utf8 string
  | Component_too_long string
  | Component_reserved string
  | Prefix_requires_session
  | Prefix_requires_pane
  | Input_not_utf8
  | Input_too_long
  | Read_count_range
  | Wait_negative

record request =
  req_action :: string
  req_session :: string
  req_pane :: string
  req_tab :: string
  req_command :: string
  req_follow :: bool
  req_wait_millis :: int
  req_read_count :: int
  req_stream_version :: int
  req_stream_action :: string

record run_result =
  rr_output :: string
  rr_exit_code :: int
  rr_truncated :: bool

definition ValidateAction :: "string \<Rightarrow> invalid_request option" where
  "ValidateAction action =
     (if action = [] then Some Action_required
      else if \<not> valid_utf8 action \<or> MaxActionBytes < length action then Some Action_too_long
      else None)"

text \<open>\<open>unicode.IsControl\<close>: the category Cc.\<close>

definition is_control :: "rune \<Rightarrow> bool" where
  "is_control r \<longleftrightarrow> r \<le> 0x1F \<or> (0x7F \<le> r \<and> r \<le> 0x9F)"

definition reserved_rune :: "rune \<Rightarrow> bool" where
  "reserved_rune r \<longleftrightarrow> r = bval CHR ''/'' \<or> r = 0 \<or> is_control r"

definition ValidateTargetComponent :: "string \<Rightarrow> string \<Rightarrow> invalid_request option" where
  "ValidateTargetComponent field val =
     (if val = [] then Some (Component_required field)
      else if \<not> valid_utf8 val then Some (Component_not_utf8 field)
      else if MaxTargetComponentBytes < length val then Some (Component_too_long field)
      else if list_ex reserved_rune (runes val) then Some (Component_reserved field)
      else None)"

text \<open>\<open>first_error\<close> is the chain of \<open>if err := ...; err != nil { return err }\<close>.\<close>

fun first_error :: "'e option list \<Rightarrow> 'e option" where
  "first_error [] = None"
| "first_error (Some e # es) = Some e"
| "first_error (None # es) = first_error es"

definition ValidateCompleteTarget :: "string \<Rightarrow> string \<Rightarrow> string \<Rightarrow> invalid_request option" where
  "ValidateCompleteTarget session pane tab =
     first_error [ValidateTargetComponent ''session'' session,
       ValidateTargetComponent ''pane'' pane, ValidateTargetComponent ''tab'' tab]"

definition ValidateTargetPrefix :: "string \<Rightarrow> string \<Rightarrow> string \<Rightarrow> invalid_request option" where
  "ValidateTargetPrefix session pane tab =
     (if session = [] then
        (if pane \<noteq> [] \<or> tab \<noteq> [] then Some Prefix_requires_session else None)
      else (case ValidateTargetComponent ''session'' session of Some e \<Rightarrow> Some e
      | None \<Rightarrow>
          (if pane = [] then (if tab \<noteq> [] then Some Prefix_requires_pane else None)
           else (case ValidateTargetComponent ''pane'' pane of Some e \<Rightarrow> Some e
           | None \<Rightarrow> (if tab = [] then None else ValidateTargetComponent ''tab'' tab)))))"

definition ValidateCommand :: "string \<Rightarrow> invalid_request option" where
  "ValidateCommand command =
     (if \<not> valid_utf8 command then Some Input_not_utf8
      else if MaxCommandBytes < length command then Some Input_too_long
      else None)"

definition ValidateReadCount :: "int \<Rightarrow> invalid_request option" where
  "ValidateReadCount count =
     (if count < 0 \<or> MaxReadCount < count then Some Read_count_range else None)"

definition IsStreamRequest :: "request \<Rightarrow> bool" where
  "IsStreamRequest req \<longleftrightarrow>
     req_action req = ''follow'' \<or> req_action req = ''ctrl-c'' \<or>
     (req_action req = ''send'' \<and> req_follow req) \<or>
     (req_action req = ''command'' \<and> req_follow req) \<or>
     (req_action req = ''keys'' \<and> req_follow req)"

text \<open>The actions whose case in \<open>ValidateRequest\<close> demands a complete target.\<close>

definition target_actions :: "string list" where
  "target_actions = [''close'', ''create'', ''run'', ''idle'', ''send'', ''text'', ''command'',
     ''keys'', ''read'', ''follow'', ''ctrl-c'']"

definition ValidateRequest :: "request \<Rightarrow> invalid_request option" where
  "ValidateRequest req =
     (case first_error [ValidateAction (req_action req), ValidateCommand (req_command req),
        ValidateReadCount (req_read_count req)] of Some e \<Rightarrow> Some e
      | None \<Rightarrow>
        if req_wait_millis req < 0 then Some Wait_negative
        else if req_action req \<in> set [''daemon'', ''stop''] then None
        else if req_action req = ''list'' then
          ValidateTargetPrefix (req_session req) (req_pane req) (req_tab req)
        else if req_action req = ''kill'' then
          (if req_session req = [] \<and> req_pane req = [] \<and> req_tab req = [] then None
           else ValidateCompleteTarget (req_session req) (req_pane req) (req_tab req))
        else if req_action req \<in> set target_actions then
          ValidateCompleteTarget (req_session req) (req_pane req) (req_tab req)
        else None)"

subsection \<open>What validation promises\<close>

text \<open>
  The specification of an accepted component: a non-empty, valid string of at most 64 bytes
  none of whose runes is a slash, a NUL or a control character.
\<close>

definition component_ok :: "string \<Rightarrow> bool" where
  "component_ok s \<longleftrightarrow> s \<noteq> [] \<and> valid_utf8 s \<and> length s \<le> 64 \<and>
     (\<forall>r\<in>set (runes s). r \<noteq> 47 \<and> \<not> (r \<le> 0x1F \<or> 0x7F \<le> r \<and> r \<le> 0x9F))"

definition target_ok :: "string \<Rightarrow> string \<Rightarrow> string \<Rightarrow> bool" where
  "target_ok s p t \<longleftrightarrow> component_ok s \<and> component_ok p \<and> component_ok t"

lemma first_error_None_iff: "first_error es = None \<longleftrightarrow> (\<forall>e\<in>set es. e = None)"
  by (induction es rule: first_error.induct) auto

lemma ValidateTargetComponent_iff: "ValidateTargetComponent f s = None \<longleftrightarrow> component_ok s"
  by (auto simp: ValidateTargetComponent_def component_ok_def bound_simps list_ex_iff
      reserved_rune_def is_control_def)

lemma plain_component:
  assumes "s \<noteq> []" "length s \<le> 64" "list_all (\<lambda>c. 32 \<le> bval c \<and> bval c < 127 \<and> bval c \<noteq> 47) s"
  shows "component_ok s"
proof -
  have "\<forall>c\<in>set s. bval c < 0x80" using assms(3) by (auto simp: list_all_iff)
  then show ?thesis
    using assms by (auto simp: component_ok_def valid_utf8_ascii runes_ascii list_all_iff)
qed

lemma component_ok_Nil: "\<not> component_ok []"
  by (simp add: component_ok_def)

lemma ValidateCompleteTarget_iff: "ValidateCompleteTarget s p t = None \<longleftrightarrow> target_ok s p t"
  by (simp add: ValidateCompleteTarget_def first_error_None_iff ValidateTargetComponent_iff
      target_ok_def)

lemma ValidateTargetPrefix_iff:
  "ValidateTargetPrefix s p t = None \<longleftrightarrow>
     (s = [] \<and> p = [] \<and> t = []) \<or> (component_ok s \<and> p = [] \<and> t = []) \<or>
     (component_ok s \<and> component_ok p \<and> (t = [] \<or> component_ok t))"
  unfolding ValidateTargetPrefix_def case_error_None
  using ValidateTargetComponent_iff component_ok_Nil by (auto simp: case_error_None)

text \<open>No byte of an accepted component is a slash, so targets and paths correspond.\<close>

lemma encode_rune_slash: "CHR ''/'' \<in> set (encode_rune r) \<Longrightarrow> r = 47"
proof -
  assume "CHR ''/'' \<in> set (encode_rune r)"
  then obtain c where c: "c \<in> set (encode_rune r)" "bval c = 47" by fastforce
  show "r = 47"
  proof (cases "r < 0x80")
    case True
    with c bval_char_of [of r] show ?thesis by (simp add: encode_rune_ascii)
  next
    case False
    with c show ?thesis
      by (auto simp: encode_rune_def Let_def rune_error_def valid_rune_def bval_char_of
          split: if_splits)
  qed
qed

lemma component_ok_no_slash: "component_ok s \<Longrightarrow> CHR ''/'' \<notin> set s"
proof
  assume ok: "component_ok s" and "CHR ''/'' \<in> set s"
  then have "CHR ''/'' \<in> set (encode_runes (runes s))"
    by (simp add: encode_runes_runes component_ok_def)
  then obtain r where "r \<in> set (runes s)" "CHR ''/'' \<in> set (encode_rune r)"
    by (auto simp: encode_runes_def)
  with ok encode_rune_slash show False by (fastforce simp: component_ok_def)
qed

lemma target_path_split:
  assumes "target_ok s p t"
  shows "split_on CHR ''/'' (join ''/'' [s, p, t]) = [s, p, t]"
  using assms by (intro split_join) (auto simp: target_ok_def dest: component_ok_no_slash)

subsection \<open>Properties\<close>

text \<open>C30: A request passes \<open>ValidateRequest\<close> exactly when its action is a valid string of 1 to 32
bytes, its command is valid UTF-8 of at most 128 KiB, its read count lies in 0..4096, its wait is
not negative, and its target fits the action: a prefix for \<open>list\<close>, a complete target or none at all for \<open>kill\<close>, a complete
target for the eleven actions on one tab, and any target for \<open>daemon\<close>, \<open>stop\<close> and what is no action. A complete target has three valid components without slash or control character.\<close>

lemma ValidateRequest_accepts:
  "ValidateRequest req = None \<longleftrightarrow>
     (req_action req \<noteq> [] \<and> valid_utf8 (req_action req) \<and> length (req_action req) \<le> 32) \<and>
     (valid_utf8 (req_command req) \<and> length (req_command req) \<le> 131072) \<and>
     (0 \<le> req_read_count req \<and> req_read_count req \<le> 4096) \<and> 0 \<le> req_wait_millis req \<and>
     (let s = req_session req; p = req_pane req; t = req_tab req in
      if req_action req = ''list'' then
        (s = [] \<and> p = [] \<and> t = []) \<or> (component_ok s \<and> p = [] \<and> t = []) \<or>
        (component_ok s \<and> component_ok p \<and> (t = [] \<or> component_ok t))
      else if req_action req = ''kill'' then (s = [] \<and> p = [] \<and> t = []) \<or> target_ok s p t
      else if req_action req \<in> {''create'', ''close'', ''run'', ''idle'', ''send'', ''text'', ''command'', ''keys'', ''ctrl-c'',
        ''read'', ''follow''} then target_ok s p t
      else True)"
proof -
  have d: "''daemon'' \<notin> set target_actions" "''stop'' \<notin> set target_actions"
    by (simp_all add: target_actions_def)
  have tab_actions: "{''create'', ''close'', ''run'', ''idle'', ''send'', ''text'', ''command'', ''keys'', ''ctrl-c'', ''read'', ''follow''} =
      set target_actions" by (auto simp: target_actions_def)
  have a: "ValidateAction a = None \<longleftrightarrow> a \<noteq> [] \<and> valid_utf8 a \<and> length a \<le> 32" for a
    by (auto simp: ValidateAction_def bound_simps)
  have c: "ValidateCommand a = None \<longleftrightarrow> valid_utf8 a \<and> length a \<le> 131072" for a
    by (auto simp: ValidateCommand_def bound_simps)
  have r: "ValidateReadCount n = None \<longleftrightarrow> 0 \<le> n \<and> n \<le> 4096" for n
    by (auto simp: ValidateReadCount_def bound_simps)
  show ?thesis
    unfolding ValidateRequest_def case_error_None first_error_None_iff tab_actions
    using d by (auto simp: a c r Let_def ValidateTargetPrefix_iff ValidateCompleteTarget_iff)
qed

end
