(* ===== verification/Key_Sequences.thy ===== *)
theory Key_Sequences
  imports Go_Library
begin

section \<open>Key sequences (internal/server/keys.go)\<close>

text \<open>
  A key sequence is a string of space-separated key presses (\<open>ctrl-c\<close>, \<open>up\<close>, \<open>a\<close>) that is
  translated to the bytes a terminal sends for them. Errors are values; each carries the text
  its message quotes.
\<close>

datatype key_error =
    Empty_key_sequence
  | Unsupported_modifier string string
  | Unsupported_ctrl_key string string
  | Unsupported_key string

text \<open>The cases of the \<open>switch\<close> in \<open>parsePlainKey\<close>, in order.\<close>

definition named_keys :: "(string \<times> string) list" where
  "named_keys =
    [(''enter'', [chr_cr]), (''esc'', [chr_esc]), (''escape'', [chr_esc]), (''tab'', [CHR 0x09]),
     (''backspace'', [CHR 0x7F]), (''space'', '' ''), (''up'', chr_esc # ''[A''),
     (''down'', chr_esc # ''[B''), (''right'', chr_esc # ''[C''), (''left'', chr_esc # ''[D''),
     (''home'', chr_esc # ''[H''), (''end'', chr_esc # ''[F''), (''delete'', chr_esc # ''[3~''),
     (''pageup'', chr_esc # ''[5~''), (''pagedown'', chr_esc # ''[6~'')]"

definition parsePlainKey :: "string \<Rightarrow> key_error + string" where
  "parsePlainKey press =
     (case map_of named_keys (to_lower press) of
        Some out \<Rightarrow> Inr out
      | None \<Rightarrow> (if length press = 1 then Inr [press ! 0] else Inl (Unsupported_key press)))"

definition parseCtrlKey :: "string \<Rightarrow> string \<Rightarrow> key_error + string" where
  "parseCtrlKey key press =
     (if length key \<noteq> 1 \<or> bval (key ! 0) < bval CHR ''a'' \<or> bval CHR ''z'' < bval (key ! 0)
      then Inl (Unsupported_ctrl_key key press)
      else Inr [char_of (bval (key ! 0) mod 32)])"

definition parseKeyPress :: "string \<Rightarrow> key_error + string" where
  "parseKeyPress press =
     (if length press = 1 then parsePlainKey press
      else (let pieces = split_on CHR ''-'' press in
        if 1 < length pieces then
          (case find (\<lambda>m. to_lower m \<noteq> ''ctrl'') (butlast pieces) of
             Some m \<Rightarrow> Inl (Unsupported_modifier m press)
           | None \<Rightarrow> parseCtrlKey (to_lower (last pieces)) press)
        else parsePlainKey press))"

fun parse_presses :: "string list \<Rightarrow> key_error + string" where
  "parse_presses [] = Inr []"
| "parse_presses (p # ps) =
     bind_err (parseKeyPress p) (\<lambda>key. bind_err (parse_presses ps) (\<lambda>out. Inr (key @ out)))"

definition parseKeySequenceWithOptions :: "string \<Rightarrow> bool \<Rightarrow> key_error + string" where
  "parseKeySequenceWithOptions sequence appendEnter =
     (let parts = fields sequence in
      if parts = [] then Inl Empty_key_sequence
      else bind_err (parse_presses parts)
             (\<lambda>out. Inr (if appendEnter then out @ [chr_cr] else out)))"

definition parseKeySequence :: "string \<Rightarrow> key_error + string" where
  "parseKeySequence sequence = parseKeySequenceWithOptions sequence True"

definition parseKeySequenceNoEnter :: "string \<Rightarrow> key_error + string" where
  "parseKeySequenceNoEnter sequence = parseKeySequenceWithOptions sequence False"

subsection \<open>Single presses\<close>

lemma to_lower_ascii:
  "\<forall>c\<in>set s. bval c < 0x80 \<Longrightarrow> to_lower s = map (\<lambda>c. char_of (lower_rune (bval c))) s"
proof (induction s)
  case (Cons c s)
  then have "lower_rune (bval c) < 0x80" by (auto simp: lower_rune_def)
  with Cons show ?case by (simp add: to_lower_def encode_rune_ascii)
qed (simp add: to_lower_def)

lemma length_to_lower_1:
  assumes "length s = 1"
  shows "length (to_lower s) \<noteq> 2" "length (to_lower s) < 4"
proof -
  obtain c where s: "s = [c]" using assms by (cases s) auto
  show "length (to_lower s) \<noteq> 2" "length (to_lower s) < 4"
  proof (atomize(full), cases "bval c < 0x80")
    case True
    then show "length (to_lower s) \<noteq> 2 \<and> length (to_lower s) < 4" by (simp add: s to_lower_ascii)
  next
    case False
    then have "decode_rune [c] = (rune_error, 1)" by (simp add: decode_rune_def Let_def)
    then show "length (to_lower s) \<noteq> 2 \<and> length (to_lower s) < 4"
      by (simp add: s to_lower_def lower_rune_def rune_error_def encode_rune_def)
  qed
qed

lemma length_1_cases: "length s = 1 \<Longrightarrow> \<exists>c. s = [c]"
  by (cases s) auto

text \<open>A one-byte press is typed as it is: no named key has a one-byte name.\<close>

lemma parseKeyPress_byte: "parseKeyPress [c] = Inr [c]"
proof -
  have "map_of named_keys (to_lower [c]) = None"
  proof (cases "bval c < 0x80")
    case True
    then show ?thesis by (simp add: to_lower_ascii named_keys_def)
  next
    case False
    then have "decode_rune [c] = (rune_error, 1)" by (simp add: decode_rune_def Let_def)
    then show ?thesis
      by (simp add: to_lower_def lower_rune_def rune_error_def encode_rune_def named_keys_def)
  qed
  then show ?thesis by (simp add: parseKeyPress_def parsePlainKey_def)
qed

definition ascii_letter :: "char \<Rightarrow> bool" where
  "ascii_letter c \<longleftrightarrow> (65 \<le> bval c \<and> bval c \<le> 90) \<or> (97 \<le> bval c \<and> bval c \<le> 122)"

lemma parseKeyPress_ctrl:
  assumes "ascii_letter c"
  shows "parseKeyPress (''ctrl-'' @ [c]) = Inr [char_of (bval c mod 32)]"
proof -
  have "c \<noteq> CHR ''-''" using assms by (auto simp: ascii_letter_def)
  then have pieces: "split_on CHR ''-'' (''ctrl-'' @ [c]) = [''ctrl'', [c]]" by simp
  have low: "to_lower [c] = [char_of (lower_rune (bval c))]"
    using assms by (intro trans [OF to_lower_ascii]) (auto simp: ascii_letter_def)
  have b: "bval (char_of (lower_rune (bval c))) = lower_rune (bval c)"
    using assms by (intro bval_char_of) (auto simp: ascii_letter_def lower_rune_def)
  have m: "lower_rune (bval c) mod 32 = bval c mod 32"
    unfolding lower_rune_def using assms by (auto simp: ascii_letter_def)
  have "to_lower ''ctrl'' = ''ctrl''" by (simp add: to_lower_ascii lower_rune_def)
  then show ?thesis
    unfolding parseKeyPress_def pieces
    using assms low b m
    by (simp add: parseCtrlKey_def Let_def ascii_letter_def lower_rune_def split: if_splits)
qed

lemma named_keys_ne: "map_of named_keys k = Some out \<Longrightarrow> out \<noteq> []"
  by (auto simp: named_keys_def split: if_splits)

lemma parseKeyPress_ne: "parseKeyPress p = Inr out \<Longrightarrow> out \<noteq> []"
  by (auto simp: parseKeyPress_def parsePlainKey_def parseCtrlKey_def Let_def
      split: if_splits option.splits dest: named_keys_ne)

subsection \<open>Sequences\<close>

lemma parse_presses_append:
  "parse_presses (ps @ qs) =
     bind_err (parse_presses ps) (\<lambda>a. bind_err (parse_presses qs) (\<lambda>b. Inr (a @ b)))"
  by (induction ps) (auto simp: bind_err_assoc bind_err_def split: sum.splits)

lemma parse_presses_ne: "parse_presses ps = Inr out \<Longrightarrow> ps \<noteq> [] \<Longrightarrow> out \<noteq> []"
  by (cases ps) (auto simp: bind_err_Inr_iff dest: parseKeyPress_ne)

lemma parse_presses_bytes: "parse_presses (map (\<lambda>c. [c]) cs) = Inr cs"
  by (induction cs) (auto simp: parseKeyPress_byte)

text \<open>The words of a sequence: non-empty ASCII words without white space.\<close>

definition press_word :: "string \<Rightarrow> bool" where
  "press_word w \<longleftrightarrow> w \<noteq> [] \<and> (\<forall>c\<in>set w. bval c < 0x80 \<and> \<not> is_space (bval c))"

lemma fields_press_words: "\<forall>w\<in>set ws. press_word w \<Longrightarrow> fields (join '' '' ws) = ws"
  by (rule fields_join) (auto simp: press_word_def)

lemma NoEnter_words:
  assumes "ws \<noteq> []" "\<forall>w\<in>set ws. press_word w"
  shows "parseKeySequenceNoEnter (join '' '' ws) = parse_presses ws"
  using assms
  by (cases "parse_presses ws")
    (auto simp: parseKeySequenceNoEnter_def parseKeySequenceWithOptions_def fields_press_words Let_def)

subsection \<open>Properties\<close>

text \<open>A key sequence is translated press by press: a sequence of words (non-empty, ASCII, no
white space) types what its first part types followed by what its second part types, and fails with
the first failing part's error.\<close>

lemma key_sequence_compositional:
  assumes "us \<noteq> []" "vs \<noteq> []" "\<forall>w\<in>set (us @ vs). press_word w"
  shows "parseKeySequenceNoEnter (join '' '' (us @ vs)) =
    bind_err (parseKeySequenceNoEnter (join '' '' us))
      (\<lambda>a. bind_err (parseKeySequenceNoEnter (join '' '' vs)) (\<lambda>b. Inr (a @ b)))"
proof -
  have "\<forall>w\<in>set us. press_word w" "\<forall>w\<in>set vs. press_word w" using assms by auto
  then show ?thesis
    using assms NoEnter_words [of us] NoEnter_words [of vs] NoEnter_words [of "us @ vs"]
    by (simp only: parse_presses_append) simp
qed

lemma key_sequence_compositional_witness:
  "parseKeySequenceNoEnter (join '' '' ([''up''] @ [''a''])) =
    bind_err (parseKeySequenceNoEnter (join '' '' [''up'']))
      (\<lambda>a. bind_err (parseKeySequenceNoEnter (join '' '' [''a''])) (\<lambda>b. Inr (a @ b)))"
  by (rule key_sequence_compositional) (auto simp: press_word_def is_space_def)

text \<open>\<open>ctrl-\<close> and an ASCII letter, in either case, is typed as the control byte of that letter
(1 to 26), followed by a carriage return; a modifier other than \<open>ctrl\<close> before the letter is
rejected, naming the modifier.\<close>

lemma key_ctrl_letter:
  assumes "ascii_letter c"
  shows "parseKeySequence (''ctrl-'' @ [c]) = Inr [char_of (bval c mod 32), chr_cr] \<and>
    1 \<le> bval c mod 32 \<and> bval c mod 32 \<le> 26 \<and>
    parseKeySequence (''alt-'' @ [c]) = Inl (Unsupported_modifier ''alt'' (''alt-'' @ [c]))"
proof -
  have ns: "\<not> is_space (bval c)" "bval c < 0x80" "c \<noteq> CHR ''-''"
    using assms by (auto simp: ascii_letter_def is_space_def)
  have sp: "\<forall>x\<in>set (m @ [c]). bval x < 0x80 \<and> \<not> is_space (bval x)" if "m = ''ctrl-'' \<or> m = ''alt-''" for m
    using that ns by (auto simp: is_space_def)
  have f: "fields (m @ [c]) = [m @ [c]]" if "m = ''ctrl-'' \<or> m = ''alt-''" for m
    using fields_press_words [of "[m @ [c]]"] sp [OF that] by (simp add: press_word_def)
  have "1 \<le> bval c mod 32" "bval c mod 32 \<le> 26" using assms by (auto simp: ascii_letter_def) presburger+
  moreover have "parseKeyPress (''alt-'' @ [c]) = Inl (Unsupported_modifier ''alt'' (''alt-'' @ [c]))"
    using ns by (simp add: parseKeyPress_def to_lower_ascii lower_rune_def)
  ultimately show ?thesis
    using f [of "''ctrl-''"] f [of "''alt-''"] parseKeyPress_ctrl [OF assms]
    by (simp add: parseKeySequence_def parseKeySequenceWithOptions_def Let_def)
qed

lemma key_ctrl_letter_witness:
  "parseKeySequence ''ctrl-c'' = Inr [CHR 0x03, chr_cr] \<and>
   parseKeySequence ''alt-c'' = Inl (Unsupported_modifier ''alt'' ''alt-c'')"
  using key_ctrl_letter [of "CHR ''c''"] by (simp add: ascii_letter_def)

text \<open>\<open>parseKeySequence\<close> accepts what \<open>parseKeySequenceNoEnter\<close> accepts and appends one carriage
return; what an accepted sequence types is never empty, and a sequence of single bytes types these
bytes.\<close>

lemma key_sequence_enter:
  "parseKeySequence s = bind_err (parseKeySequenceNoEnter s) (\<lambda>out. Inr (out @ [chr_cr])) \<and>
   parseKeySequenceNoEnter s \<noteq> Inr [] \<and>
   (cs \<noteq> [] \<and> list_all (\<lambda>c. bval c < 0x80 \<and> \<not> is_space (bval c)) cs \<longrightarrow>
      parseKeySequenceNoEnter (join '' '' (map (\<lambda>c. [c]) cs)) = Inr cs)"
proof (intro conjI impI)
  show "parseKeySequence s = bind_err (parseKeySequenceNoEnter s) (\<lambda>out. Inr (out @ [chr_cr]))"
    by (simp add: parseKeySequence_def parseKeySequenceNoEnter_def parseKeySequenceWithOptions_def
        Let_def bind_err_assoc)
  show "parseKeySequenceNoEnter s \<noteq> Inr []"
    by (auto simp: parseKeySequenceNoEnter_def parseKeySequenceWithOptions_def Let_def
        bind_err_Inr_iff dest: parse_presses_ne)
  assume "cs \<noteq> [] \<and> list_all (\<lambda>c. bval c < 0x80 \<and> \<not> is_space (bval c)) cs"
  then show "parseKeySequenceNoEnter (join '' '' (map (\<lambda>c. [c]) cs)) = Inr cs"
    using NoEnter_words [of "map (\<lambda>c. [c]) cs"] parse_presses_bytes [of cs]
    by (auto simp: press_word_def list_all_iff)
qed

lemma key_sequence_enter_witness:
  "parseKeySequenceNoEnter ''l s'' = Inr ''ls'' \<and> parseKeySequenceNoEnter ''l s'' \<noteq> Inr []"
  using key_sequence_enter [of "''l s''" "''ls''"] by (simp add: is_space_def)

end
