(* ===== verification/Terminal_Cleaner.thy ===== *)
theory Terminal_Cleaner
  imports Go_Library
begin

section \<open>The terminal cleaner (internal/server/cleaner.go)\<close>

text \<open>
  \<open>TerminalCleaner\<close> turns raw terminal output into plain text: it drops escape sequences and
  control characters, and applies carriage return and backspace to the line being built. The
  record has the fields of the struct, \<open>clean_rune\<close> is the body of the loop of
  \<open>WriteString\<close>; what a call writes to its builder is the second component of the result.
\<close>

datatype cleanerState =
    cleanerNormal | cleanerEscape | cleanerCSI | cleanerOSC | cleanerOSCEscape | cleanerSkipOne

record cleaner =
  cl_state :: cleanerState
  cl_line :: "rune list"
  cl_col :: nat
  cl_pendingCR :: bool

definition NewTerminalCleaner :: cleaner where
  "NewTerminalCleaner = \<lparr>cl_state = cleanerNormal, cl_line = [], cl_col = 0, cl_pendingCR = False\<rparr>"

definition isAllowedTextRune :: "rune \<Rightarrow> bool" where
  "isAllowedTextRune r \<longleftrightarrow> (if r = 9 then True else 0x20 \<le> r \<and> r \<noteq> 0x7F)"

definition applyPendingCR :: "cleaner \<Rightarrow> cleaner" where
  "applyPendingCR c = (if cl_pendingCR c then c\<lparr>cl_col := 0, cl_pendingCR := False\<rparr> else c)"

definition writeRune :: "cleaner \<Rightarrow> rune \<Rightarrow> cleaner" where
  "writeRune c r =
     (let line = cl_line c @ replicate (cl_col c - length (cl_line c)) 32;
          line' = (if cl_col c < length line then line[cl_col c := r] else line @ [r])
      in c\<lparr>cl_line := line', cl_col := cl_col c + 1\<rparr>)"

definition flushLine :: "cleaner \<Rightarrow> cleaner \<times> string" where
  "flushLine c =
     (let line = (if cl_col c < length (cl_line c) then take (cl_col c) (cl_line c) else cl_line c)
      in (c\<lparr>cl_line := [], cl_col := 0\<rparr>, encode_runes line))"

definition clean_normal :: "cleaner \<Rightarrow> rune \<Rightarrow> cleaner \<times> string" where
  "clean_normal c r =
     (if r = 0x1B then ((applyPendingCR c)\<lparr>cl_state := cleanerEscape\<rparr>, [])
      else if r = 0x03 then (applyPendingCR c, ''^C'')
      else if r = 0x07 then (c, [])
      else if r = 0x0A then
        (let f = flushLine (c\<lparr>cl_pendingCR := False\<rparr>) in (fst f, snd f @ [chr_lf]))
      else if r = 0x0D then (c\<lparr>cl_pendingCR := True\<rparr>, [])
      else if r = 0x08 then
        (let d = applyPendingCR c in (if 0 < cl_col d then d\<lparr>cl_col := cl_col d - 1\<rparr> else d, []))
      else if isAllowedTextRune r then (writeRune (applyPendingCR c) r, [])
      else (c, []))"

definition clean_rune :: "cleaner \<Rightarrow> rune \<Rightarrow> cleaner \<times> string" where
  "clean_rune c r =
     (case cl_state c of
        cleanerNormal \<Rightarrow> clean_normal c r
      | cleanerEscape \<Rightarrow>
          (c\<lparr>cl_state :=
             if r = bval CHR ''['' then cleanerCSI
             else if r = bval CHR '']'' then cleanerOSC
             else if r \<in> bval ` set ''()*+-./'' then cleanerSkipOne
             else cleanerNormal\<rparr>, [])
      | cleanerCSI \<Rightarrow>
          (if 0x40 \<le> r \<and> r \<le> 0x7E then c\<lparr>cl_state := cleanerNormal\<rparr> else c, [])
      | cleanerOSC \<Rightarrow>
          (if r = 0x07 then c\<lparr>cl_state := cleanerNormal\<rparr>
           else if r = 0x1B then c\<lparr>cl_state := cleanerOSCEscape\<rparr> else c, [])
      | cleanerOSCEscape \<Rightarrow>
          (c\<lparr>cl_state := if r = bval CHR 0x5C then cleanerNormal else cleanerOSC\<rparr>, [])
      | cleanerSkipOne \<Rightarrow> (c\<lparr>cl_state := cleanerNormal\<rparr>, []))"

fun clean_runes :: "cleaner \<Rightarrow> rune list \<Rightarrow> cleaner \<times> string" where
  "clean_runes c [] = (c, [])"
| "clean_runes c (r # rs) =
     (let a = clean_rune c r; b = clean_runes (fst a) rs in (fst b, snd a @ snd b))"

definition WriteString :: "cleaner \<Rightarrow> string \<Rightarrow> cleaner \<times> string" where
  "WriteString c input = clean_runes c (runes input)"

definition Flush :: "cleaner \<Rightarrow> cleaner \<times> string" where
  "Flush c = flushLine (c\<lparr>cl_pendingCR := False\<rparr>)"

definition Pending :: "cleaner \<Rightarrow> bool" where
  "Pending c \<longleftrightarrow> 0 < length (cl_line c) \<or> cl_pendingCR c"

definition CleanTerminalString :: "string \<Rightarrow> string" where
  "CleanTerminalString input =
     (let w = WriteString NewTerminalCleaner input
      in trim_right (\<lambda>c. c = chr_lf) (snd w @ snd (Flush (fst w))))"

subsection \<open>The invariant of the line buffer\<close>

text \<open>
  The column never passes the end of the line, so the padding loop of \<open>writeRune\<close> has nothing
  to do; and the line holds only runes that were allowed in.
\<close>

definition text_rune :: "rune \<Rightarrow> bool" where
  "text_rune r \<longleftrightarrow> valid_rune r \<and> isAllowedTextRune r"

definition cleaner_inv :: "cleaner \<Rightarrow> bool" where
  "cleaner_inv c \<longleftrightarrow> cl_col c \<le> length (cl_line c) \<and> list_all text_rune (cl_line c)"

lemma cleaner_inv_init [simp]: "cleaner_inv NewTerminalCleaner"
  by (simp add: cleaner_inv_def NewTerminalCleaner_def)

lemma cleaner_inv_state [simp]: "cleaner_inv (c\<lparr>cl_state := s\<rparr>) = cleaner_inv c"
  and cleaner_inv_pendingCR [simp]: "cleaner_inv (c\<lparr>cl_pendingCR := b\<rparr>) = cleaner_inv c"
  by (simp_all add: cleaner_inv_def)

lemma cleaner_inv_CR [preserves]: "cleaner_inv c \<Longrightarrow> cleaner_inv (applyPendingCR c)"
  by (simp add: cleaner_inv_def applyPendingCR_def)

lemma writeRune_eq:
  assumes "cleaner_inv c"
  shows "writeRune c r =
    c\<lparr>cl_line := take (cl_col c) (cl_line c) @ r # drop (Suc (cl_col c)) (cl_line c),
      cl_col := cl_col c + 1\<rparr>"
  using assms by (auto simp: cleaner_inv_def writeRune_def Let_def upd_conv_take_nth_drop)

lemma cleaner_inv_writeRune [preserves]:
  assumes "cleaner_inv c" "text_rune r"
  shows "cleaner_inv (writeRune c r)"
proof -
  have "list_all text_rune (take n (cl_line c))" "list_all text_rune (drop n (cl_line c))" for n
    using assms(1) by (auto simp: cleaner_inv_def list_all_iff dest: in_set_takeD in_set_dropD)
  with assms show ?thesis by (auto simp: writeRune_eq cleaner_inv_def)
qed

lemma cleaner_inv_flush [preserves]: "cleaner_inv (fst (flushLine c))"
  by (simp add: flushLine_def cleaner_inv_def Let_def)

lemma flushLine_text:
  assumes "cleaner_inv c"
  shows "snd (flushLine c) = encode_runes (take (cl_col c) (cl_line c))"
    and "list_all text_rune (take (cl_col c) (cl_line c))"
  using assms
  by (auto simp: flushLine_def Let_def cleaner_inv_def list_all_iff dest: in_set_takeD)

text \<open>What may appear in cleaned text: allowed runes and line feeds.\<close>

definition clean_rune_ok :: "rune \<Rightarrow> bool" where
  "clean_rune_ok r \<longleftrightarrow> text_rune r \<or> r = 10"

definition clean_output :: "string \<Rightarrow> bool" where
  "clean_output s \<longleftrightarrow> (\<exists>rs. s = encode_runes rs \<and> list_all clean_rune_ok rs)"

lemma clean_outputI: "list_all clean_rune_ok rs \<Longrightarrow> clean_output (encode_runes rs)"
  by (auto simp: clean_output_def)

lemma clean_output_Nil [simp]: "clean_output []"
  by (rule clean_outputI [of "[]", simplified])

lemma clean_output_append: "clean_output s \<Longrightarrow> clean_output t \<Longrightarrow> clean_output (s @ t)"
  unfolding clean_output_def by (metis encode_runes_simps(3) list_all_append)

lemma clean_output_text: "list_all text_rune rs \<Longrightarrow> clean_output (encode_runes rs)"
  by (rule clean_outputI) (auto simp: list_all_iff clean_rune_ok_def)

lemma encode_rune_LF: "encode_rune 10 = [chr_lf]"
  by (simp add: encode_rune_ascii)

lemma clean_output_LF: "clean_output [chr_lf]"
  using clean_outputI [of "[10]"] by (simp add: clean_rune_ok_def encode_rune_LF)

lemma clean_output_caretC: "clean_output ''^C''"
proof -
  have "encode_rune 94 = ''^''" "encode_rune 67 = ''C''" by (simp_all add: encode_rune_ascii)
  then show ?thesis using clean_outputI [of "[94, 67]"]
    by (simp add: clean_rune_ok_def text_rune_def isAllowedTextRune_def valid_rune_def)
qed

lemma clean_output_runes: "clean_output s \<longleftrightarrow> valid_utf8 s \<and> list_all clean_rune_ok (runes s)"
proof
  assume "clean_output s"
  then obtain rs where s: "s = encode_runes rs" and ok: "list_all clean_rune_ok rs"
    by (auto simp: clean_output_def)
  from ok have "list_all valid_rune rs"
    by (auto simp: list_all_iff clean_rune_ok_def text_rune_def valid_rune_def)
  with s ok show "valid_utf8 s \<and> list_all clean_rune_ok (runes s)"
    by (simp add: valid_encode_runes runes_encode_runes)
next
  assume "valid_utf8 s \<and> list_all clean_rune_ok (runes s)"
  then show "clean_output s" by (metis clean_outputI encode_runes_runes)
qed

lemma clean_normal_LF_ok:
  assumes "cleaner_inv c"
  shows "cleaner_inv (fst (clean_normal c 10)) \<and> clean_output (snd (clean_normal c 10))"
proof -
  let ?d = "c\<lparr>cl_pendingCR := False\<rparr>"
  have "cleaner_inv ?d" using assms by simp
  from flushLine_text [OF this] have "clean_output (snd (flushLine ?d))"
    using clean_output_text by metis
  then show ?thesis
    by (simp add: clean_normal_def Let_def cleaner_inv_flush clean_output_append clean_output_LF)
qed

lemma clean_normal_ok:
  assumes "cleaner_inv c" "valid_rune r"
  shows "cleaner_inv (fst (clean_normal c r)) \<and> clean_output (snd (clean_normal c r))"
proof (cases "r = 10")
  case True
  with clean_normal_LF_ok [OF assms(1)] show ?thesis by simp
next
  case False
  have d: "cleaner_inv (applyPendingCR c)" using assms(1) by (rule cleaner_inv_CR)
  then have b: "cleaner_inv ((applyPendingCR c)\<lparr>cl_col := cl_col (applyPendingCR c) - 1\<rparr>)"
    by (auto simp: cleaner_inv_def)
  have w: "isAllowedTextRune r \<Longrightarrow> cleaner_inv (writeRune (applyPendingCR c) r)"
    using d assms(2) by (simp add: cleaner_inv_writeRune text_rune_def)
  show ?thesis
    using False assms(1) d b w by (simp add: clean_normal_def Let_def clean_output_caretC)
qed

lemma clean_rune_ok:
  assumes "cleaner_inv c" "valid_rune r"
  shows "cleaner_inv (fst (clean_rune c r)) \<and> clean_output (snd (clean_rune c r))"
  using assms clean_normal_ok [OF assms] by (cases "cl_state c") (simp_all add: clean_rune_def)

lemma clean_runes_ok:
  assumes "cleaner_inv c" "list_all valid_rune rs"
  shows "cleaner_inv (fst (clean_runes c rs)) \<and> clean_output (snd (clean_runes c rs))"
  using assms
proof (induction rs arbitrary: c)
  case (Cons r rs)
  then show ?case
    using clean_rune_ok [of c r] by (auto simp: Let_def intro: clean_output_append)
qed simp

lemma WriteString_ok [preserves]:
  "cleaner_inv c \<Longrightarrow> cleaner_inv (fst (WriteString c s)) \<and> clean_output (snd (WriteString c s))"
  by (simp add: WriteString_def clean_runes_ok valid_runes)

lemma Flush_ok: "cleaner_inv c \<Longrightarrow> cleaner_inv (fst (Flush c)) \<and> clean_output (snd (Flush c))"
  using flushLine_text [of "c\<lparr>cl_pendingCR := False\<rparr>"]
  by (simp add: Flush_def cleaner_inv_flush clean_output_text)

subsection \<open>Runs of runes\<close>

lemma clean_runes_append:
  "clean_runes c (xs @ ys) =
     (fst (clean_runes (fst (clean_runes c xs)) ys),
      snd (clean_runes c xs) @ snd (clean_runes (fst (clean_runes c xs)) ys))"
  by (induction xs arbitrary: c) (auto simp: Let_def)

text \<open>
  The cleaner as a stream consumer of runes: its state together with the text written so far.
\<close>

definition feed_cleaner :: "cleaner \<times> string \<Rightarrow> rune list \<Rightarrow> (cleaner \<times> string) option" where
  "feed_cleaner s rs =
     (let b = clean_runes (fst s) rs in Some (fst b, snd s @ snd b))"

interpretation cleaner_stream: stream_consumer feed_cleaner "\<lambda>_. True"
  by unfold_locales (auto simp: feed_cleaner_def Let_def clean_runes_append)

text \<open>Text that is already clean and has no line feed is appended to the line as it is.\<close>

lemma clean_rune_text:
  assumes "cl_state c = cleanerNormal" "\<not> cl_pendingCR c" "cl_col c = length (cl_line c)" "text_rune r"
  shows "clean_rune c r = (c\<lparr>cl_line := cl_line c @ [r], cl_col := Suc (length (cl_line c))\<rparr>, [])"
  using assms
  by (auto simp: clean_rune_def clean_normal_def text_rune_def isAllowedTextRune_def
      applyPendingCR_def writeRune_def Let_def split: if_splits)

lemma clean_runes_clean:
  assumes "cl_state c = cleanerNormal" "\<not> cl_pendingCR c" "cl_col c = length (cl_line c)"
    and "list_all clean_rune_ok rs"
  shows "snd (clean_runes c rs) @ snd (Flush (fst (clean_runes c rs)))
           = encode_runes (cl_line c) @ encode_runes rs"
  using assms
proof (induction rs arbitrary: c)
  case Nil
  then show ?case by (simp add: Flush_def flushLine_def Let_def)
next
  case (Cons r rs)
  show ?case
  proof (cases "r = 10")
    case True
    let ?d = "c\<lparr>cl_pendingCR := False, cl_line := [], cl_col := 0\<rparr>"
    have "clean_rune c r = (?d, encode_runes (cl_line c) @ [chr_lf])"
      using Cons.prems True by (simp add: clean_rune_def clean_normal_def flushLine_def Let_def)
    then show ?thesis
      using Cons.IH [of ?d] Cons.prems True by (simp add: Let_def encode_rune_LF)
  next
    case False
    then have "text_rune r" using Cons.prems by (simp add: clean_rune_ok_def)
    from clean_rune_text [OF Cons.prems(1-3) this] show ?thesis
      using Cons.IH [of "c\<lparr>cl_line := cl_line c @ [r], cl_col := Suc (length (cl_line c))\<rparr>"] Cons.prems
      by (simp add: Let_def)
  qed
qed

lemma clean_output_trim:
  assumes "clean_output s"
  shows "clean_output (trim_right (\<lambda>c. c = chr_lf) s)"
proof -
  obtain rs where s: "s = encode_runes rs" and ok: "list_all clean_rune_ok rs"
    using assms by (auto simp: clean_output_def)
  from ok show ?thesis unfolding s
  proof (induction rs rule: rev_induct)
    case (snoc r rs)
    show ?case
    proof (cases "r = 10")
      case True
      with snoc show ?thesis by (simp add: encode_rune_LF)
    next
      case False
      have "last (encode_rune r) \<noteq> chr_lf"
      proof (cases "r < 0x80")
        case True
        with False char_of_eq_less [of r chr_lf] show ?thesis by (simp add: encode_rune_ascii)
      next
        case f: False
        have "char_of (0x80 + q mod 64) \<noteq> chr_lf" for q :: nat
        proof -
          have "0x80 + q mod 64 < 256" by linarith
          then show ?thesis by (simp add: char_of_eq_less)
        qed
        with f snoc show ?thesis
          by (auto simp: encode_rune_def Let_def rune_error_def valid_rune_def)
      qed
      then have "trim_right (\<lambda>c. c = chr_lf) (encode_runes (rs @ [r])) = encode_runes (rs @ [r])"
        by (intro trim_right_id) (simp add: last_append)
      with snoc.prems show ?thesis by (metis clean_outputI)
    qed
  qed simp
qed

lemma clean_runes_init:
  assumes "list_all clean_rune_ok rs"
  shows "snd (clean_runes NewTerminalCleaner rs) @ snd (Flush (fst (clean_runes NewTerminalCleaner rs)))
           = encode_runes rs"
  using clean_runes_clean [of NewTerminalCleaner rs] assms by (simp add: NewTerminalCleaner_def)

lemma CleanTerminalString_id:
  "clean_output s \<Longrightarrow> CleanTerminalString s = trim_right (\<lambda>c. c = chr_lf) s"
  using clean_runes_init [of "runes s"]
  by (simp add: clean_output_runes CleanTerminalString_def WriteString_def Let_def encode_runes_runes)

lemma CleanTerminalString_clean: "clean_output (CleanTerminalString s)"
  unfolding CleanTerminalString_def Let_def
  using WriteString_ok [of NewTerminalCleaner s] Flush_ok [of "fst (WriteString NewTerminalCleaner s)"]
  by (intro clean_output_trim clean_output_append) auto

subsection \<open>Properties\<close>

text \<open>C24: Whatever bytes the terminal sent, the cleaned text is valid UTF-8 without a C0 control but tab and line
feed and without DEL, and it does not end in a line feed; so no sequence that begins with an escape byte survives.
(The C1 controls U+0080 to U+009F do.) Exactly the texts of this form are left as they are, so cleaning twice is
cleaning once.\<close>

lemma cleaned_text_is_clean:
  "valid_utf8 (CleanTerminalString s) \<and>
   list_all (\<lambda>r. r = 9 \<or> r = 10 \<or> (0x20 \<le> r \<and> r \<noteq> 0x7F)) (runes (CleanTerminalString s)) \<and>
   \<not> suffix [chr_lf] (CleanTerminalString s) \<and>
   (CleanTerminalString t = t \<longleftrightarrow> valid_utf8 t \<and>
     list_all (\<lambda>r. r = 9 \<or> r = 10 \<or> (0x20 \<le> r \<and> r \<noteq> 0x7F)) (runes t) \<and> \<not> suffix [chr_lf] t)"
proof -
  let ?ok = "\<lambda>r. r = 9 \<or> r = 10 \<or> (0x20 \<le> r \<and> r \<noteq> 0x7F)"
  have "valid_rune r \<Longrightarrow> clean_rune_ok r \<longleftrightarrow> ?ok r" for r
    by (auto simp: clean_rune_ok_def text_rune_def isAllowedTextRune_def valid_rune_def)
  then have form: "clean_output u \<longleftrightarrow> valid_utf8 u \<and> list_all ?ok (runes u)" for u
    using valid_runes [of u] unfolding clean_output_runes list_all_iff by metis
  have no_lf: "\<not> suffix [chr_lf] (CleanTerminalString u)" for u
    unfolding CleanTerminalString_def Let_def by (rule trim_right_no_suffix) simp
  have "CleanTerminalString t = t" if "clean_output t" "\<not> suffix [chr_lf] t"
    using CleanTerminalString_id [OF that(1)] that(2) by (cases t rule: rev_cases) (auto simp: suffix_def)
  then have "CleanTerminalString t = t \<longleftrightarrow> clean_output t \<and> \<not> suffix [chr_lf] t"
    using CleanTerminalString_clean [of t] no_lf [of t] by metis
  then show ?thesis using CleanTerminalString_clean [of s] no_lf [of s] unfolding form by blast
qed

text \<open>An 8-bit control sequence reaches the caller: U+009B is the introducer that ESC [ is in seven bits.\<close>

lemma c1_sequence_survives: "CleanTerminalString (encode_runes [0x9B, 51, 49, 109]) = encode_runes [0x9B, 51, 49, 109]"
proof -
  have c: "clean_output (encode_runes [0x9B, 51, 49, 109])"
    by (rule clean_outputI) (simp add: clean_rune_ok_def text_rune_def isAllowedTextRune_def valid_rune_def)
  have "trim_right (\<lambda>c. c = chr_lf) (xs @ [CHR ''m'']) = xs @ [CHR ''m'']" for xs by (rule trim_right_id) simp
  moreover have "encode_runes [0x9B, 51, 49, 109] = (encode_rune 0x9B @ ''31'') @ [CHR ''m'']" by (simp add: encode_rune_ascii)
  ultimately show ?thesis unfolding CleanTerminalString_id [OF c] by metis
qed

text \<open>Cleaning is the identity on clean text up to trailing line feeds, so cleaning twice is
cleaning once.\<close>

lemma cleaning_idempotent:
  "CleanTerminalString (CleanTerminalString s) = CleanTerminalString s \<and>
   CleanTerminalString (encode_runes (map (\<lambda>n. 32 + n mod 95) ns)) =
     encode_runes (map (\<lambda>n. 32 + n mod 95) ns)"
proof
  have "trim_right (\<lambda>c. c = chr_lf) (CleanTerminalString s) = CleanTerminalString s"
    by (simp add: CleanTerminalString_def Let_def)
  then show "CleanTerminalString (CleanTerminalString s) = CleanTerminalString s"
    using CleanTerminalString_id [OF CleanTerminalString_clean, of s] by simp
next
  let ?rs = "map (\<lambda>n. 32 + n mod 95) ns"
  have m: "n mod 95 < 95" for n :: nat by simp
  have "list_all text_rune ?rs"
    using m by (fastforce simp: list_all_iff text_rune_def valid_rune_def isAllowedTextRune_def)
  then have c: "clean_output (encode_runes ?rs)" by (rule clean_output_text)
  have "encode_runes ?rs = map char_of ?rs"
  proof (induction ns)
    case (Cons n ns)
    have "32 + n mod 95 < 0x80" using m [of n] by simp
    with Cons show ?case by (simp add: encode_rune_ascii)
  qed simp
  then have "encode_runes ?rs = [] \<or> last (encode_runes ?rs) \<noteq> chr_lf"
  proof (cases ns rule: rev_cases)
    case (snoc ms n)
    have "32 + n mod 95 < 256" using m [of n] by simp
    then have "char_of (32 + n mod 95) \<noteq> chr_lf" by (simp add: char_of_eq_less)
    then show ?thesis using \<open>encode_runes ?rs = map char_of ?rs\<close> snoc by simp
  qed simp
  then show "CleanTerminalString (encode_runes ?rs) = encode_runes ?rs"
    using CleanTerminalString_id [OF c] by (simp add: trim_right_id)
qed

text \<open>A CSI sequence (escape, bracket, parameter bytes below 0x40, one final byte) between two
pieces of complete runes changes nothing but the pending carriage return it applies: the text before
and after it is cleaned as if the cursor had only been told where the column is.\<close>

lemma csi_sequence_invisible:
  assumes "cl_state c = cleanerNormal" "\<forall>r\<in>set ps. r < 0x40" "0x40 \<le> f" "f \<le> 0x7E"
  shows "clean_runes c (0x1B # bval CHR ''['' # ps @ f # rs) = clean_runes (applyPendingCR c) rs"
proof -
  let ?d = "(applyPendingCR c)\<lparr>cl_state := cleanerCSI\<rparr>"
  have skip: "clean_runes ?d (ps @ qs) = clean_runes ?d qs" for qs
    using assms(2) by (induction ps) (auto simp: clean_rune_def Let_def)
  have n: "cl_state (applyPendingCR c) = cleanerNormal"
    using assms(1) by (simp add: applyPendingCR_def)
  then have "(applyPendingCR c)\<lparr>cl_state := cleanerNormal\<rparr> = applyPendingCR c"
    by (metis cleaner.surjective cleaner.update_convs(1))
  then have "clean_runes ?d (f # rs) = clean_runes (applyPendingCR c) rs"
    using assms(3,4) by (simp add: clean_rune_def Let_def)
  then show ?thesis
    using assms(1) skip [of "f # rs"] by (simp add: clean_rune_def clean_normal_def Let_def)
qed

lemma csi_sequence_invisible_witness:
  "clean_runes NewTerminalCleaner (0x1B # bval CHR ''['' # [0x33, 0x31] @ 0x6D # [65])
     = clean_runes (applyPendingCR NewTerminalCleaner) [65]"
  by (rule csi_sequence_invisible) (auto simp: NewTerminalCleaner_def)

text \<open>The cleaner does not see where one piece of its input ends and the next begins, as long as
every cut is between runes; a cut inside a rune is seen: the two bytes of U+00E9 fed one at a time
come out as two replacement characters. The follow stream feeds it the PTY's reads as they come.\<close>

lemma cleaner_pieces:
  "(valid_utf8 s \<longrightarrow>
     WriteString c (s @ t) =
       (fst (WriteString (fst (WriteString c s)) t),
        snd (WriteString c s) @ snd (WriteString (fst (WriteString c s)) t))) \<and>
   (let a = WriteString NewTerminalCleaner [CHR 0xC3]; b = WriteString (fst a) [CHR 0xA9] in
     valid_utf8 [CHR 0xC3, CHR 0xA9] \<and>
     cl_line (fst (WriteString NewTerminalCleaner [CHR 0xC3, CHR 0xA9])) = [0xE9] \<and>
     cl_line (fst b) = [rune_error, rune_error])"
proof
  have e: "runes [CHR 0xC3] = [rune_error]" "runes [CHR 0xA9] = [rune_error]"
    "runes [CHR 0xC3, CHR 0xA9] = [0xE9]" "valid_utf8 [CHR 0xC3, CHR 0xA9]"
    by (simp_all add: decode_rune_def second_ok_def cont_byte_def Let_def)
  show "valid_utf8 s \<longrightarrow> WriteString c (s @ t) =
       (fst (WriteString (fst (WriteString c s)) t),
        snd (WriteString c s) @ snd (WriteString (fst (WriteString c s)) t))"
    by (simp add: WriteString_def runes_append clean_runes_append)
  show "let a = WriteString NewTerminalCleaner [CHR 0xC3]; b = WriteString (fst a) [CHR 0xA9] in
     valid_utf8 [CHR 0xC3, CHR 0xA9] \<and>
     cl_line (fst (WriteString NewTerminalCleaner [CHR 0xC3, CHR 0xA9])) = [0xE9] \<and>
     cl_line (fst b) = [rune_error, rune_error]"
    using e by (simp add: WriteString_def NewTerminalCleaner_def clean_rune_def clean_normal_def Let_def
        writeRune_def applyPendingCR_def isAllowedTextRune_def rune_error_def)
qed

lemma cleaner_pieces_witness:
  "valid_utf8 ''ab'' \<and> WriteString NewTerminalCleaner (''ab'' @ ''c'') =
     (fst (WriteString (fst (WriteString NewTerminalCleaner ''ab'')) ''c''),
      snd (WriteString NewTerminalCleaner ''ab'') @
      snd (WriteString (fst (WriteString NewTerminalCleaner ''ab'')) ''c''))"
proof -
  have "valid_utf8 ''ab''" by (rule valid_utf8_ascii) simp
  then show ?thesis using cleaner_pieces [of "''ab''" NewTerminalCleaner "''c''"] by blast
qed

end
