(* ===== verification/Command_Markers.thy ===== *)
theory Command_Markers
  imports Terminal_Cleaner
begin

section \<open>Completion markers and output formatting (internal/server/tab.go)\<close>

text \<open>
  \<open>run\<close> learns that a command has finished by having the shell print a random token after it.
  This theory models how the token is made and typed (\<open>newCommandToken\<close>, \<open>wrapCompletion\<close>),
  how lines that only exist because of it are recognised (\<open>isInternalMarkerLine\<close>), and the
  pure functions that turn collected bytes into the reported output.
\<close>

abbreviation dquote :: char where "dquote \<equiv> CHR 0x22"
abbreviation squote :: char where "squote \<equiv> CHR 0x27"
abbreviation bslash :: char where "bslash \<equiv> CHR 0x5C"

definition internal_markers :: "string list" where
  "internal_markers = [''__ptymux_status=$?'', ''__ptymux_token_a='', ''__ptymux_token_b='',
     ''$__ptymux_token_a'', ''$__ptymux_token_b'', ''$__ptymux_status'', ''__PTYMUX_DONE_'']"

definition isInternalMarkerLine :: "string \<Rightarrow> bool" where
  "isInternalMarkerLine line \<longleftrightarrow> list_ex (contains line) internal_markers"

subsection \<open>The token\<close>

text \<open>
  \<open>hex.EncodeToString\<close>, and the token of 16 random bytes; \<open>None\<close> is a failing random source.
  \<open>go_quote\<close> is \<open>%q\<close> on ASCII text, which is all the token's halves hold.
\<close>

definition hex_digit :: "nat \<Rightarrow> char" where
  "hex_digit n = ''0123456789abcdef'' ! n"

definition hex_encode :: "string \<Rightarrow> string" where
  "hex_encode bs = concat (map (\<lambda>b. [hex_digit (bval b div 16), hex_digit (bval b mod 16)]) bs)"

definition newCommandToken :: "string option \<Rightarrow> string option" where
  "newCommandToken random =
     map_option (\<lambda>bs. ''__PTYMUX_DONE_'' @ hex_encode bs @ ''__'') random"

definition quote_char :: "char \<Rightarrow> string" where
  "quote_char c =
     (if c = dquote \<or> c = bslash then [bslash, c]
      else if c = CHR 0x07 then [bslash, CHR ''a''] else if c = CHR 0x08 then [bslash, CHR ''b'']
      else if c = CHR 0x0C then [bslash, CHR ''f''] else if c = CHR 0x0A then [bslash, CHR ''n'']
      else if c = CHR 0x0D then [bslash, CHR ''r''] else if c = CHR 0x09 then [bslash, CHR ''t'']
      else if c = CHR 0x0B then [bslash, CHR ''v'']
      else if bval c < 0x20 \<or> c = CHR 0x7F
        then [bslash, CHR ''x'', hex_digit (bval c div 16), hex_digit (bval c mod 16)]
      else [c])"

definition go_quote :: "string \<Rightarrow> string" where
  "go_quote s = dquote # concat (map quote_char s) @ [dquote]"

definition wrapCompletion :: "string \<Rightarrow> string" where
  "wrapCompletion token =
     (let tokenA = take (length token div 2) token; tokenB = drop (length token div 2) token in
      ''__ptymux_status=$?; __ptymux_token_a='' @ go_quote tokenA @
      ''; __ptymux_token_b='' @ go_quote tokenB @
      ''; printf '' @ [squote, bslash] @ ''n%s%s:%s'' @ [bslash] @ ''n'' @ [squote, CHR '' ''] @
      [dquote] @ ''$__ptymux_token_a'' @ [dquote, CHR '' '', dquote] @ ''$__ptymux_token_b'' @
      [dquote, CHR '' '', dquote] @ ''$__ptymux_status'' @ [dquote, chr_lf])"

definition wrapCommand :: "string \<Rightarrow> string \<Rightarrow> string" where
  "wrapCommand command token = command @ [chr_lf] @ wrapCompletion token"

subsection \<open>Formatting\<close>

definition trimOutputBoundary :: "string \<Rightarrow> string" where
  "trimOutputBoundary output = trim_left (\<lambda>c. c = chr_lf) (trim_right (\<lambda>c. c = chr_lf) output)"

definition cleanTerminalNoise :: "string \<Rightarrow> string" where
  "cleanTerminalNoise output = CleanTerminalString output"

definition printf_echo :: string where
  "printf_echo = ''printf '' @ [squote, bslash] @ ''n%s%s:%s'' @ [bslash] @ ''n'' @ [squote]"

definition dropEchoLines :: "string list \<Rightarrow> string list" where
  "dropEchoLines lines =
     filter (\<lambda>line. \<not> (isInternalMarkerLine line \<or> contains line printf_echo)) lines"

definition isPromptLike :: "string \<Rightarrow> bool" where
  "isPromptLike line = (let l = trim_space line in
     suffix ''$'' l \<or> suffix ''#'' l \<or> suffix ''>'' l \<or> suffix ''%'' l)"

definition formatCommandTranscript :: "string \<Rightarrow> string \<Rightarrow> string \<Rightarrow> string" where
  "formatCommandTranscript output command pre =
     (let lines = split_on chr_lf output in
      if length lines < 2 \<or> lines ! 0 \<noteq> command then output
      else (let prompt = (if pre = [] then lines ! (length lines - 1) else pre) in
        if \<not> isPromptLike prompt then output
        else join [chr_lf] (lines[0 := prompt @ lines ! 0])))"

definition formatRunOutput :: "string \<Rightarrow> string \<Rightarrow> string \<Rightarrow> string" where
  "formatRunOutput raw command pre =
     (let output = cleanTerminalNoise (crlf_to_lf raw);
          lines = dropEchoLines (split_on chr_lf output);
          trimmed = trim_both (\<lambda>c. c = chr_lf) (join [chr_lf] lines)
      in formatCommandTranscript trimmed command pre)"

subsection \<open>Lines of trimmed text\<close>

lemma split_on_snoc_sep: "split_on sep (s @ [sep]) = split_on sep s @ [[]]"
  by (induction s) (auto split: list.splits)

lemma lines_trim_right:
  "set (split_on sep (trim_right (\<lambda>c. c = sep) s)) \<subseteq> set (split_on sep s)"
  by (induction s rule: rev_induct) (auto simp: split_on_snoc_sep)

lemma lines_trim_left:
  "set (split_on sep (trim_left (\<lambda>c. c = sep) s)) \<subseteq> set (split_on sep s)"
  by (induction s) (auto simp: trim_left_def)

lemma lines_trim_both:
  "set (split_on sep (trim_both (\<lambda>c. c = sep) s)) \<subseteq> set (split_on sep s)"
  using lines_trim_left lines_trim_right unfolding trim_both_def by fast

lemma lines_join_split:
  assumes "\<forall>l\<in>set ls. sep \<notin> set l"
  shows "set (split_on sep (join [sep] ls)) \<subseteq> insert [] (set ls)"
  using assms by (cases "ls = []") (auto simp: split_join)

text \<open>Substrings that avoid a separator lie within one part of the split.\<close>

lemma prefix_first_part:
  "prefix u xs \<Longrightarrow> sep \<notin> set u \<Longrightarrow> prefix u (hd (split_on sep xs))"
proof (induction xs arbitrary: u)
  case (Cons x xs)
  then show ?case by (cases u; cases "split_on sep xs") auto
qed simp

lemma sublist_part:
  "sublist u xs \<Longrightarrow> sep \<notin> set u \<Longrightarrow> \<exists>p\<in>set (split_on sep xs). sublist u p"
proof (induction xs)
  case Nil
  then show ?case by simp
next
  case (Cons x xs)
  consider "prefix u (x # xs)" | "sublist u xs" using Cons.prems by (auto simp: sublist_Cons_right)
  then show ?case
  proof cases
    case 1
    from prefix_first_part [OF 1 Cons.prems(2)] have "sublist u (hd (split_on sep (x # xs)))" by auto
    then show ?thesis by (metis list.set_sel(1) split_on_ne)
  next
    case 2
    then obtain p where p: "p \<in> set (split_on sep xs)" "sublist u p" using Cons by blast
    show ?thesis
    proof (cases "x = sep")
      case False
      obtain h t where "split_on sep xs = h # t" by (cases "split_on sep xs") auto
      with False p show ?thesis by (auto intro: sublist_Cons_right [THEN iffD2])
    qed (use p in auto)
  qed
qed

lemma isInternalMarkerLine_Nil [simp]: "\<not> isInternalMarkerLine []"
  by (simp add: isInternalMarkerLine_def internal_markers_def contains_def)

lemma dropEchoLines_clean: "l \<in> set (dropEchoLines ls) \<Longrightarrow> \<not> isInternalMarkerLine l"
  by (simp add: dropEchoLines_def)

subsection \<open>The token is never echoed whole\<close>

lemma hex_digit_chars: "n < 16 \<Longrightarrow> hex_digit n \<in> set ''0123456789abcdef''"
  unfolding hex_digit_def by (rule nth_mem) simp

lemma hex_encode_chars: "set (hex_encode bs) \<subseteq> set ''0123456789abcdef''"
proof -
  have "{hex_digit (bval b div 16), hex_digit (bval b mod 16)} \<subseteq> set ''0123456789abcdef''" for b
  proof -
    have "bval b div 16 < 16" using bval_less [of b] by linarith
    moreover have "bval b mod 16 < 16" by simp
    ultimately show ?thesis using hex_digit_chars by blast
  qed
  then show ?thesis unfolding hex_encode_def set_concat set_map by fastforce
qed

lemma length_hex_encode: "length (hex_encode bs) = 2 * length bs"
  by (induction bs) (auto simp: hex_encode_def)

text \<open>The characters of a token, none of which \<open>%q\<close> escapes.\<close>

definition token_char :: "char \<Rightarrow> bool" where
  "token_char c \<longleftrightarrow> c \<in> set ''_PTYMUXDONE0123456789abcdef''"

lemma token_chars: "newCommandToken (Some bs) = Some token \<Longrightarrow> list_all token_char token"
proof -
  have a: "list_all token_char ''__PTYMUX_DONE_''" "list_all token_char ''__''"
    by (simp_all add: token_char_def)
  have "set ''0123456789abcdef'' \<subseteq> Collect token_char" by (simp add: token_char_def)
  then have h: "list_all token_char (hex_encode bs)"
    using hex_encode_chars [of bs] by (fastforce simp: list_all_iff)
  assume "newCommandToken (Some bs) = Some token"
  then have "token = ''__PTYMUX_DONE_'' @ hex_encode bs @ ''__''" by (simp add: newCommandToken_def)
  then show ?thesis using a h by (simp only: list_all_append)
qed

lemma length_token: "newCommandToken (Some bs) = Some token \<Longrightarrow> length token = 16 + 2 * length bs"
  by (auto simp: newCommandToken_def length_hex_encode)

lemma quote_token_char: "token_char c \<Longrightarrow> quote_char c = [c]"
proof -
  have "list_all (\<lambda>c. quote_char c = [c]) ''_PTYMUXDONE0123456789abcdef''"
    by (simp add: quote_char_def)
  then show "token_char c \<Longrightarrow> quote_char c = [c]" by (simp only: token_char_def list_all_iff)
qed

lemma go_quote_token: "list_all token_char s \<Longrightarrow> go_quote s = dquote # s @ [dquote]"
proof -
  assume "list_all token_char s"
  then have "concat (map quote_char s) = s" by (induction s) (auto simp: quote_token_char)
  then show ?thesis by (simp add: go_quote_def)
qed

lemma token_no_dquote: "list_all token_char s \<Longrightarrow> dquote \<notin> set s"
proof -
  have "\<not> token_char dquote" by (simp add: token_char_def)
  then show "list_all token_char s \<Longrightarrow> dquote \<notin> set s" by (metis list_all_iff)
qed

lemma wrapCompletion_parts:
  assumes "list_all token_char token"
  defines "a \<equiv> take (length token div 2) token" and "b \<equiv> drop (length token div 2) token"
  shows "split_on dquote (wrapCompletion token) =
    [''__ptymux_status=$?; __ptymux_token_a='', a, ''; __ptymux_token_b='', b,
     ''; printf '' @ [squote, bslash] @ ''n%s%s:%s'' @ [bslash] @ ''n'' @ [squote, CHR '' ''],
     ''$__ptymux_token_a'', '' '', ''$__ptymux_token_b'', '' '', ''$__ptymux_status'', [chr_lf]]"
proof -
  have "list_all token_char (a @ b)" using assms by simp
  then have ab: "list_all token_char a" "list_all token_char b" by simp_all
  then have n: "dquote \<notin> set a" "dquote \<notin> set b" by (simp_all add: token_no_dquote)
  have w: "wrapCompletion token =
    ''__ptymux_status=$?; __ptymux_token_a='' @ dquote # a @ dquote #
    ''; __ptymux_token_b='' @ dquote # b @ dquote #
    (''; printf '' @ [squote, bslash] @ ''n%s%s:%s'' @ [bslash] @ ''n'' @ [squote, CHR '' '']) @
    dquote # ''$__ptymux_token_a'' @ dquote # '' '' @ dquote # ''$__ptymux_token_b'' @
    dquote # '' '' @ dquote # ''$__ptymux_status'' @ dquote # [chr_lf]"
    unfolding wrapCompletion_def Let_def a_def [symmetric] b_def [symmetric]
    using ab by (simp add: go_quote_token)
  show ?thesis
    unfolding w using n by (simp add: split_on_append_sep)
qed

lemma wrapCompletion_part_length:
  assumes "list_all token_char token" "length token = 48" "p \<in> set (split_on dquote (wrapCompletion token))"
  shows "length p < 48"
  using assms(2,3) unfolding wrapCompletion_parts [OF assms(1)] by auto

lemma lines_trimmed_clean:
  assumes "l \<in> set (split_on chr_lf (trim_both (\<lambda>c. c = chr_lf)
    (join [chr_lf] (dropEchoLines (split_on chr_lf s)))))"
  shows "\<not> isInternalMarkerLine l"
proof -
  let ?ls = "dropEchoLines (split_on chr_lf s)"
  have "\<forall>l\<in>set ?ls. chr_lf \<notin> set l" by (auto simp: dropEchoLines_def dest: split_on_parts)
  then have "l \<in> insert [] (set ?ls)"
    using assms lines_trim_both lines_join_split [of ?ls chr_lf] by blast
  then show ?thesis by (auto dest: dropEchoLines_clean)
qed

lemma isPromptLike_Nil: "\<not> isPromptLike []"
  by (simp add: isPromptLike_def trim_space_def trim_space_right.simps Let_def)

subsection \<open>Properties\<close>

text \<open>C28: The shell line that reports completion never contains the completion token itself, because
the token is typed in two halves: the terminal's echo of the line cannot be taken for the report.\<close>

lemma token_not_echoed:
  assumes "length bs = 16" "newCommandToken (Some bs) = Some token"
  shows "\<not> contains (wrapCompletion token) token"
proof
  have c: "list_all token_char token" and l: "length token = 48"
    using token_chars [OF assms(2)] length_token [OF assms(2)] assms(1) by simp_all
  assume "contains (wrapCompletion token) token"
  then obtain p where "p \<in> set (split_on dquote (wrapCompletion token))" "sublist token p"
    using sublist_part [of token _ dquote] token_no_dquote [OF c] by (fastforce simp: contains_def)
  with wrapCompletion_part_length [OF c l] sublist_length_le [of token p] l show False by fastforce
qed

lemma token_not_echoed_witness:
  "\<exists>token. newCommandToken (Some (replicate 16 CHR ''A'')) = Some token \<and>
     \<not> contains (wrapCompletion token) token"
proof -
  obtain token where t: "newCommandToken (Some (replicate 16 CHR ''A'')) = Some token"
    by (simp add: newCommandToken_def)
  with token_not_echoed [OF _ t] show ?thesis by simp
qed

text \<open>The reported output of \<open>run\<close> holds no line that mentions the completion machinery (its
shell variables or the token's prefix): every line is free of the markers, except that a prompt may
have been put before a first line that is the command itself.\<close>

lemma run_output_marker_free:
  "\<exists>l ls. formatRunOutput raw command pre = join [chr_lf] (l # ls) \<and>
     list_all (\<lambda>k. \<not> isInternalMarkerLine k) ls \<and>
     (\<exists>prompt k. l = prompt @ k \<and> \<not> isInternalMarkerLine k \<and>
       (prompt = [] \<or> (isPromptLike prompt \<and> k = command)))"
proof -
  define out where "out = trim_both (\<lambda>c. c = chr_lf)
    (join [chr_lf] (dropEchoLines (split_on chr_lf (cleanTerminalNoise (crlf_to_lf raw)))))"
  have f: "formatRunOutput raw command pre = formatCommandTranscript out command pre"
    by (simp add: formatRunOutput_def out_def Let_def)
  have clean: "\<not> isInternalMarkerLine k" if "k \<in> set (split_on chr_lf out)" for k
    using that lines_trimmed_clean unfolding out_def by blast
  obtain l ls where s: "split_on chr_lf out = l # ls" by (cases "split_on chr_lf out") auto
  have j: "out = join [chr_lf] (l # ls)" using join_split [of chr_lf out] s by simp
  show ?thesis
  proof (cases "formatCommandTranscript out command pre = out")
    case True
    have "list_all (\<lambda>k. \<not> isInternalMarkerLine k) ls" "\<not> isInternalMarkerLine l"
      using clean s by (auto simp: list_all_iff)
    with True f j show ?thesis by (metis append_Nil)
  next
    case False
    define prompt where "prompt = (if pre = [] then (l # ls) ! length ls else pre)"
    from False have "l = command" "isPromptLike prompt"
      "formatCommandTranscript out command pre = join [chr_lf] ((prompt @ l) # ls)"
      by (auto simp: formatCommandTranscript_def s Let_def prompt_def split: if_splits)
    moreover have "list_all (\<lambda>k. \<not> isInternalMarkerLine k) ls" "\<not> isInternalMarkerLine l"
      using clean s by (auto simp: list_all_iff)
    ultimately show ?thesis using f by metis
  qed
qed

end
