(* ===== verification/Utf8_Prefix.thy ===== *)
theory Utf8_Prefix
  imports Go_Strings
begin

section \<open>Complete runes of a byte stream (internal/server/tab.go)\<close>

text \<open>
  \<open>completeUTF8Prefix\<close>: the length of the longest prefix that does not end inside a rune. It decides
  how much of what was read from the PTY the terminal emulator gets, and where a truncated output ends.
\<close>

function completeUTF8Prefix :: "string \<Rightarrow> nat" where
  "completeUTF8Prefix [] = 0"
| "completeUTF8Prefix (c # cs) =
     (let size = snd (decode_rune (c # cs)) in
      if size = 1 \<and> \<not> full_rune (c # cs) then 0
      else size + completeUTF8Prefix (drop (size - 1) cs))"
  by pat_completeness auto
termination by (relation "measure length") auto

lemma rune_shapes:
  assumes "P []" "\<And>a. P [a]" "\<And>a b. P [a, b]" "\<And>a b c. P [a, b, c]"
    "\<And>a b c d r. P (a # b # c # d # r)"
  shows "P (s :: string)"
  using assms by (metis list.exhaust)

lemma decode_rune_partial: "s \<noteq> [] \<Longrightarrow> \<not> full_rune s \<Longrightarrow> decode_rune s = (rune_error, 1) \<and> length s \<le> 3"
  by (induction s rule: rune_shapes) (auto simp: full_rune_def decode_rune_def Let_def split: if_splits)

lemma decode_rune_append: "full_rune s \<Longrightarrow> decode_rune (s @ t) = decode_rune s"
  by (induction s rule: rune_shapes) (auto simp: full_rune_def decode_rune_def Let_def split: if_splits)

lemma full_rune_append: "full_rune s \<Longrightarrow> full_rune (s @ t)"
  by (induction s rule: rune_shapes) (auto simp: full_rune_def Let_def split: if_splits)

lemma completeUTF8Prefix_step:
  assumes "s \<noteq> []"
  shows "completeUTF8Prefix s =
    (if full_rune s then snd (decode_rune s) + completeUTF8Prefix (drop (snd (decode_rune s)) s) else 0)"
proof (cases "full_rune s")
  case True
  obtain c cs where s: "s = c # cs" using assms by (cases s) auto
  show ?thesis using True decode_rune_width(1) [OF assms]
    by (cases "snd (decode_rune s)") (simp_all add: s)
next
  case False
  with decode_rune_partial [OF assms] assms show ?thesis by (cases s) auto
qed

lemma prefix_induct [case_names Nil Partial Full]:
  assumes "P []"
    and "\<And>s. s \<noteq> [] \<Longrightarrow> \<not> full_rune s \<Longrightarrow> P s"
    and "\<And>s. s \<noteq> [] \<Longrightarrow> full_rune s \<Longrightarrow> P (drop (snd (decode_rune s)) s) \<Longrightarrow> P s"
  shows "P s"
proof (induction "length s" arbitrary: s rule: less_induct)
  case less
  show ?case
  proof (cases "s = [] \<or> \<not> full_rune s")
    case False
    then have "length (drop (snd (decode_rune s)) s) < length s"
      using decode_rune_width(1) [of s] by (cases s) auto
    then have "P (drop (snd (decode_rune s)) s)" by (rule less)
    with False show ?thesis using assms(3) by metis
  next
    case True
    then show ?thesis using assms(1,2) by metis
  qed
qed

text \<open>What is left out is shorter than a rune and is the beginning of one.\<close>

lemma completeUTF8Prefix_le: "completeUTF8Prefix s \<le> length s"
proof (induction s rule: prefix_induct)
  case (Full s)
  then show ?case using decode_rune_width(3) [of s] by (simp add: completeUTF8Prefix_step)
qed (simp_all add: completeUTF8Prefix_step)

lemma completeUTF8Prefix_rest:
  "drop (completeUTF8Prefix s) s = [] \<or>
     (\<not> full_rune (drop (completeUTF8Prefix s) s) \<and> length (drop (completeUTF8Prefix s) s) \<le> 3)"
proof (induction s rule: prefix_induct)
  case (Partial s)
  then show ?case using decode_rune_partial [of s] by (simp add: completeUTF8Prefix_step)
next
  case (Full s)
  have "drop (completeUTF8Prefix s) s = drop (completeUTF8Prefix (drop (snd (decode_rune s)) s)) (drop (snd (decode_rune s)) s)"
    using Full by (simp add: completeUTF8Prefix_step [of s] add.commute)
  with Full show ?case by (simp only:)
qed simp

text \<open>The prefix of a longer text: the complete runes already seen stay complete.\<close>

lemma completeUTF8Prefix_append:
  "completeUTF8Prefix (s @ t) =
     completeUTF8Prefix s + completeUTF8Prefix (drop (completeUTF8Prefix s) s @ t)"
proof (induction s rule: prefix_induct)
  case (Partial s)
  then show ?case by (simp add: completeUTF8Prefix_step [of s])
next
  case (Full s)
  let ?n = "snd (decode_rune s)"
  have n: "?n \<le> length s" using Full(1) by (rule decode_rune_width(3))
  have "completeUTF8Prefix (s @ t) = ?n + completeUTF8Prefix (drop ?n s @ t)"
    using Full n by (simp add: completeUTF8Prefix_step [of "s @ t"] decode_rune_append full_rune_append)
  also have "\<dots> = ?n + completeUTF8Prefix (drop ?n s) +
      completeUTF8Prefix (drop (completeUTF8Prefix (drop ?n s)) (drop ?n s) @ t)"
    using Full(3) by simp
  finally show ?case using Full(1,2)
    by (simp add: completeUTF8Prefix_step [of s] drop_drop add.commute)
qed simp

lemma full_rune_encode: "valid_rune r \<Longrightarrow> full_rune (encode_rune r @ t)"
proof -
  assume r: "valid_rune r"
  have "full_rune (encode_rune r @ t) \<or> decode_rune (encode_rune r @ t) = (rune_error, 1)"
    using decode_rune_partial [of "encode_rune r @ t"] by auto
  with r show ?thesis using decode_encode [OF r, of t] encode_rune_error by auto
qed

lemma completeUTF8Prefix_valid: "valid_utf8 s \<Longrightarrow> completeUTF8Prefix s = length s"
proof (induction rule: valid_utf8_induct)
  case (Rune r t)
  then show ?case by (simp add: completeUTF8Prefix_step full_rune_encode decode_encode)
qed simp

text \<open>Cutting valid text anywhere and keeping the complete prefix leaves valid text.\<close>

lemma completeUTF8Prefix_cut:
  "valid_utf8 (s @ t) \<Longrightarrow> valid_utf8 (take (completeUTF8Prefix s) s)"
proof (induction s rule: prefix_induct)
  case (Full s)
  let ?n = "snd (decode_rune s)"
  have n: "?n \<le> length s" using Full(1) by (rule decode_rune_width(3))
  have d: "decode_rune (s @ t) = decode_rune s" using Full(2) by (rule decode_rune_append)
  from Full(1,4) have v: "decode_rune s \<noteq> (rune_error, 1)" "valid_utf8 (drop ?n s @ t)"
    using valid_utf8_step [of "s @ t"] n by (simp_all add: d)
  obtain r where r: "valid_rune r" "take ?n s = encode_rune r"
    using decode_rune_inv [of s "fst (decode_rune s)" ?n] Full(1) v(1)
    by (metis append_eq_conv_conj prod.collapse)
  have "take (completeUTF8Prefix s) s = encode_rune r @ take (completeUTF8Prefix (drop ?n s)) (drop ?n s)"
    using Full(1,2) r(2) by (simp add: completeUTF8Prefix_step [of s] take_add)
  then show ?case using Full(3) v(2) r(1) by (simp add: valid_utf8_encode_rune)
qed (simp_all add: completeUTF8Prefix_step)

subsection \<open>Properties\<close>

text \<open>\<open>completeUTF8Prefix\<close> cuts a byte string at most three bytes before its end, and what it
leaves out is the beginning of an unfinished rune; it leaves out nothing of valid text, and of any
beginning of a valid text it keeps valid text.\<close>

lemma complete_prefix_cut:
  "completeUTF8Prefix s \<le> length s \<and> length s - completeUTF8Prefix s \<le> 3 \<and>
   (drop (completeUTF8Prefix s) s = [] \<or> \<not> full_rune (drop (completeUTF8Prefix s) s)) \<and>
   (valid_utf8 s \<longrightarrow> completeUTF8Prefix s = length s) \<and>
   (valid_utf8 (s @ t) \<longrightarrow> valid_utf8 (take (completeUTF8Prefix s) s))"
  using completeUTF8Prefix_le [of s] completeUTF8Prefix_rest [of s] completeUTF8Prefix_valid [of s]
    completeUTF8Prefix_cut [of s t]
  by auto

lemma complete_prefix_cut_witness:
  "valid_utf8 ([CHR ''a'', CHR 0xC3] @ [CHR 0xA9]) \<and>
   valid_utf8 (take (completeUTF8Prefix [CHR ''a'', CHR 0xC3]) [CHR ''a'', CHR 0xC3])"
proof -
  have "valid_utf8 ([CHR ''a'', CHR 0xC3] @ [CHR 0xA9])"
    by (simp add: decode_rune_def second_ok_def rune_error_def Let_def)
  with complete_prefix_cut [of "[CHR ''a'', CHR 0xC3]" "[CHR 0xA9]"] show ?thesis by blast
qed

end
