(* ===== verification/Run_Collector.thy ===== *)
theory Run_Collector
  imports Server_Protocol Command_Markers Utf8_Prefix
begin

section \<open>Collecting the output of a command (internal/server/tab.go)\<close>

text \<open>
  \<open>runCollector\<close> is fed what the PTY prints while a command runs and looks for the completion
  marker (the token and a colon), the exit status after it and the end of that line. Everything else
  is output, kept up to a limit. An error of \<open>consume\<close> ends the run.
\<close>

definition maxRunStatusBytes :: nat where [bound_simps]: "maxRunStatusBytes = 32"

datatype collector_error = Invalid_completion_status

record run_collector =
  rc_marker :: string
  rc_pending :: string
  rc_status :: string
  rc_output :: string
  rc_limit :: int
  rc_found :: bool
  rc_complete :: bool
  rc_truncated :: bool
  rc_exit_code :: int

definition newRunCollector :: "string \<Rightarrow> int \<Rightarrow> run_collector" where
  "newRunCollector marker limit = \<lparr>rc_marker = marker, rc_pending = [], rc_status = [],
     rc_output = [], rc_limit = limit, rc_found = False, rc_complete = False, rc_truncated = False,
     rc_exit_code = 0\<rparr>"

text \<open>\<open>appendBounded\<close> returns the new output and whether something was cut off.\<close>

definition appendBounded :: "string \<Rightarrow> string \<Rightarrow> int \<Rightarrow> string \<times> bool" where
  "appendBounded output data limit =
     (let remaining = limit - int (length output) in
      if remaining \<le> 0 then (output, 0 < length data)
      else if remaining < int (length data) then (output @ take (nat remaining) data, True)
      else (output @ data, False))"

definition appendOutput :: "run_collector \<Rightarrow> string \<Rightarrow> run_collector" where
  "appendOutput c data =
     (let b = appendBounded (rc_output c) data (rc_limit c)
      in c\<lparr>rc_output := fst b, rc_truncated := rc_truncated c \<or> snd b\<rparr>)"

abbreviation line_end :: "char \<Rightarrow> bool" where
  "line_end b \<equiv> b = chr_cr \<or> b = chr_lf"

definition consumeStatus :: "run_collector \<Rightarrow> string \<Rightarrow> collector_error + run_collector" where
  "consumeStatus c data =
     (let status = rc_status c @ data in
      case index_where line_end status of
        None \<Rightarrow>
          (if maxRunStatusBytes < length status then Inl Invalid_completion_status
           else Inr (c\<lparr>rc_status := status\<rparr>))
      | Some lineEnd \<Rightarrow>
          (case atoi (trim_space (take lineEnd status)) of
             None \<Rightarrow> Inl Invalid_completion_status
           | Some exitCode \<Rightarrow>
               (let restStart =
                  (if status ! lineEnd = chr_cr \<and> lineEnd + 1 < length status \<and>
                      status ! (lineEnd + 1) = chr_lf then lineEnd + 2 else lineEnd + 1)
                in Inr ((appendOutput (c\<lparr>rc_exit_code := exitCode, rc_complete := True\<rparr>)
                           (drop restStart status))\<lparr>rc_status := []\<rparr>))))"

definition consume :: "run_collector \<Rightarrow> string \<Rightarrow> collector_error + run_collector" where
  "consume c data =
     (if rc_complete c then Inr (appendOutput c data)
      else if rc_found c then consumeStatus c data
      else (let pending = rc_pending c @ data; marker = rc_marker c in
        case index_of marker pending of
          Some markerStart \<Rightarrow>
            consumeStatus
              ((appendOutput c (take markerStart pending))\<lparr>rc_pending := [], rc_found := True\<rparr>)
              (drop (markerStart + length marker) pending)
        | None \<Rightarrow>
            (let keep = length marker - 1; flush = length pending - keep in
             Inr (if keep < length pending
                  then (appendOutput c (take flush pending))\<lparr>rc_pending := drop flush pending\<rparr>
                  else c\<lparr>rc_pending := pending\<rparr>))))"

definition collector_result :: "run_collector \<Rightarrow> string \<Rightarrow> string \<Rightarrow> run_result" where
  "collector_result c command pre =
     (let complete = completeUTF8Prefix (rc_output c) in
      \<lparr>rr_output = formatRunOutput (take complete (rc_output c)) command pre,
       rr_exit_code = rc_exit_code c,
       rr_truncated = rc_truncated c \<or> complete < length (rc_output c)\<rparr>)"

fun consume_all :: "run_collector \<Rightarrow> string list \<Rightarrow> collector_error + run_collector" where
  "consume_all c [] = Inr c"
| "consume_all c (d # ds) = bind_err (consume c d) (\<lambda>c'. consume_all c' ds)"

text \<open>\<open>parseMarkedOutput\<close>: the same on a complete capture, given where the marker is.\<close>

definition parseMarkedOutput :: "string \<Rightarrow> nat \<Rightarrow> nat \<Rightarrow> string \<Rightarrow> string \<Rightarrow> run_result" where
  "parseMarkedOutput raw markerStart markerLen command pre =
     (let beforeMarker = trim_right line_end (take markerStart raw);
          rest = drop (markerStart + markerLen) raw;
          i = index_where line_end rest;
          line = (case i of None \<Rightarrow> rest | Some n \<Rightarrow> take n rest);
          afterStatus = (case i of None \<Rightarrow> [] | Some n \<Rightarrow> drop (n + 1) rest);
          exitCode = (case atoi (trim_space line) of None \<Rightarrow> 0 | Some v \<Rightarrow> v);
          output = (if trim_both line_end afterStatus \<noteq> []
                    then beforeMarker @ [chr_lf] @ trim_left line_end afterStatus else beforeMarker)
      in \<lparr>rr_output = formatRunOutput output command pre, rr_exit_code = exitCode,
          rr_truncated = False\<rparr>)"

subsection \<open>Bounded output\<close>

text \<open>
  \<open>outputs c body\<close>: the collector was given \<open>body\<close> as output, kept as much of it as the limit
  allows, and knows whether it kept it all.
\<close>

definition outputs :: "run_collector \<Rightarrow> string \<Rightarrow> bool" where
  "outputs c body \<longleftrightarrow> rc_output c = take (nat (rc_limit c)) body \<and>
     rc_truncated c = (nat (rc_limit c) < length body)"

lemma outputs_append:
  assumes "outputs c body"
  shows "outputs (appendOutput c data) (body @ data)"
proof (cases "nat (rc_limit c) \<le> length body")
  case True
  then have "length (rc_output c) = nat (rc_limit c)" using assms by (simp add: outputs_def)
  then have "rc_limit c - int (length (rc_output c)) \<le> 0" by simp
  with assms True show ?thesis by (auto simp: outputs_def appendOutput_def appendBounded_def Let_def)
next
  case False
  then have o: "rc_output c = body" "\<not> rc_truncated c" using assms by (simp_all add: outputs_def)
  have "int (length body) < rc_limit c" using False by linarith
  then show ?thesis
    using o by (auto simp: outputs_def appendOutput_def appendBounded_def Let_def nat_diff_distrib)
qed

lemma appendOutput_frame [simp]:
  "rc_marker (appendOutput c d) = rc_marker c" "rc_pending (appendOutput c d) = rc_pending c"
  "rc_status (appendOutput c d) = rc_status c" "rc_limit (appendOutput c d) = rc_limit c"
  "rc_found (appendOutput c d) = rc_found c" "rc_complete (appendOutput c d) = rc_complete c"
  "rc_exit_code (appendOutput c d) = rc_exit_code c"
  by (simp_all add: appendOutput_def Let_def)

lemma outputs_frame [simp]:
  "outputs (c\<lparr>rc_pending := p\<rparr>) = outputs c" "outputs (c\<lparr>rc_status := s\<rparr>) = outputs c"
  "outputs (c\<lparr>rc_found := b\<rparr>) = outputs c" "outputs (c\<lparr>rc_complete := b\<rparr>) = outputs c"
  "outputs (c\<lparr>rc_exit_code := e\<rparr>) = outputs c"
  by (simp_all add: outputs_def fun_eq_iff)

subsection \<open>The three phases\<close>

text \<open>
  What the collector has seen, \<open>seen\<close>, and its state: before the marker it holds back the last
  bytes, which may begin the marker; between the marker and the end of the status line it holds the
  status; afterwards everything is output.
\<close>

definition searching :: "string \<Rightarrow> int \<Rightarrow> run_collector \<Rightarrow> string \<Rightarrow> bool" where
  "searching marker limit c seen \<longleftrightarrow>
     rc_marker c = marker \<and> rc_limit c = limit \<and> \<not> rc_found c \<and> \<not> rc_complete c \<and> rc_status c = [] \<and>
     \<not> sublist marker seen \<and> length (rc_pending c) < length marker \<and>
     (\<exists>flushed. seen = flushed @ rc_pending c \<and> outputs c flushed \<and>
        (flushed \<noteq> [] \<longrightarrow> length (rc_pending c) = length marker - 1))"

definition reading_status :: "string \<Rightarrow> int \<Rightarrow> string \<Rightarrow> run_collector \<Rightarrow> string \<Rightarrow> bool" where
  "reading_status marker limit pre c st \<longleftrightarrow>
     rc_marker c = marker \<and> rc_limit c = limit \<and> rc_found c \<and> \<not> rc_complete c \<and> rc_status c = st \<and>
     outputs c pre \<and> (\<forall>b\<in>set st. \<not> line_end b)"

definition completed :: "int \<Rightarrow> int \<Rightarrow> run_collector \<Rightarrow> string \<Rightarrow> bool" where
  "completed limit code c body \<longleftrightarrow>
     rc_limit c = limit \<and> rc_complete c \<and> rc_exit_code c = code \<and> outputs c body"

lemma searching_init: "marker \<noteq> [] \<Longrightarrow> searching marker limit (newRunCollector marker limit) []"
  by (simp add: searching_def newRunCollector_def outputs_def)

lemma completed_step:
  "completed limit code c body \<Longrightarrow>
     consume c d = Inr (appendOutput c d) \<and> completed limit code (appendOutput c d) (body @ d)"
  by (simp add: completed_def consume_def outputs_append)

text \<open>The output after the status line: its line feed is dropped when it follows a carriage return.\<close>

definition after_status :: "char \<Rightarrow> string \<Rightarrow> string" where
  "after_status eol rest = (if eol = chr_cr \<and> rest \<noteq> [] \<and> hd rest = chr_lf then tl rest else rest)"

lemma status_line_end:
  assumes "reading_status marker limit pre c st" "\<forall>b\<in>set d. \<not> line_end b" "line_end eol"
    and "atoi (trim_space (st @ d)) = Some code"
  shows "\<exists>c'. consumeStatus c (d @ eol # rest) = Inr c' \<and>
    completed limit code c' (pre @ after_status eol rest)"
proof -
  let ?s = "rc_status c @ d @ eol # rest"
  have st: "rc_status c = st" using assms(1) by (simp add: reading_status_def)
  have n: "\<forall>b\<in>set (st @ d). \<not> line_end b" using assms(1,2) by (auto simp: reading_status_def)
  have i: "index_where line_end ?s = Some (length (st @ d))"
    using index_where_append [OF n, of "eol # rest"] assms(3) st by auto
  have e: "?s ! length (st @ d) = eol" using nth_append_length [of "st @ d" eol rest] st by simp
  have e2: "?s ! (length (st @ d) + 1) = rest ! 0"
    using nth_append [of "st @ d" "eol # rest" "length (st @ d) + 1"] st by simp
  have t: "take (length (st @ d)) ?s = st @ d" using st by simp
  have r: "drop (if ?s ! length (st @ d) = chr_cr \<and> length (st @ d) + 1 < length ?s \<and>
      ?s ! (length (st @ d) + 1) = chr_lf then length (st @ d) + 2 else length (st @ d) + 1) ?s
      = after_status eol rest"
    unfolding e e2 using st by (cases rest) (auto simp: after_status_def)
  have "outputs (c\<lparr>rc_exit_code := code, rc_complete := True\<rparr>) pre" "rc_limit c = limit"
    using assms(1) by (simp_all add: reading_status_def)
  from outputs_append [OF this(1)] this(2) show ?thesis
    unfolding consumeStatus_def Let_def i option.case t assms(4) r by (simp add: completed_def)
qed

lemma status_partial:
  assumes "reading_status marker limit pre c st" "\<forall>b\<in>set d. \<not> line_end b" "length (st @ d) \<le> 32"
  shows "\<exists>c'. consumeStatus c d = Inr c' \<and> reading_status marker limit pre c' (st @ d)"
proof -
  have st: "rc_status c = st" using assms(1) by (simp add: reading_status_def)
  have n: "\<forall>b\<in>set (st @ d). \<not> line_end b" using assms(1,2) by (auto simp: reading_status_def)
  then have "index_where line_end (st @ d) = None" by (simp add: index_where_None_iff)
  with assms n st show ?thesis
    by (simp add: consumeStatus_def Let_def bound_simps reading_status_def)
qed

lemma searching_step:
  assumes "searching marker limit c seen" "marker \<noteq> []" "\<not> sublist marker (seen @ d)"
  shows "\<exists>c'. consume c d = Inr c' \<and> searching marker limit c' (seen @ d)"
proof -
  obtain fl where fl: "seen = fl @ rc_pending c" "outputs c fl"
    "fl \<noteq> [] \<longrightarrow> length (rc_pending c) = length marker - 1"
    and c: "rc_marker c = marker" "rc_limit c = limit" "\<not> rc_found c" "\<not> rc_complete c" "rc_status c = []"
    using assms(1) by (auto simp: searching_def)
  let ?p = "rc_pending c @ d" and ?k = "length marker - 1"
  have "\<not> sublist marker ?p" using assms(3) fl(1) sublist_append_left_mono by (metis append_assoc)
  then have i: "index_of marker ?p = None" by (simp add: index_of_None_iff)
  show ?thesis
  proof (cases "?k < length ?p")
    case True
    let ?f = "length ?p - ?k"
    let ?c = "(appendOutput c (take ?f ?p))\<lparr>rc_pending := drop ?f ?p\<rparr>"
    have "consume c d = Inr ?c" using True i c by (simp add: consume_def Let_def)
    moreover have "outputs ?c (fl @ take ?f ?p)" using outputs_append [OF fl(2)] by simp
    moreover have "seen @ d = (fl @ take ?f ?p) @ drop ?f ?p"
      using fl(1) by (simp only: append_assoc append_take_drop_id)
    moreover have "length (drop ?f ?p) = ?k" "?k < length marker" using True assms(2) by simp_all
    ultimately show ?thesis using c assms(3) unfolding searching_def by fastforce
  next
    case False
    have "consume c d = Inr (c\<lparr>rc_pending := ?p\<rparr>)" using False i c by (simp add: consume_def Let_def)
    moreover have "length ?p < length marker" using False assms(2) by (cases marker) auto
    moreover have "fl \<noteq> [] \<longrightarrow> length ?p = ?k" using False fl(3) by auto
    ultimately show ?thesis using c fl assms(3) unfolding searching_def by fastforce
  qed
qed

lemma index_of_append: "index_of m xs = Some i \<Longrightarrow> index_of m (xs @ ys) = Some i"
proof (induction m xs arbitrary: i rule: index_of.induct)
  case (1 m)
  then show ?case by (cases ys) (auto split: if_splits)
next
  case (2 m x xs)
  have "prefix m (x # xs) \<Longrightarrow> prefix m (x # xs @ ys)" by (metis append_Cons prefix_prefix)
  moreover have "\<not> prefix m (x # xs @ ys)" if "\<not> prefix m (x # xs)" "index_of m xs = Some j" for j
  proof
    assume "prefix m (x # xs @ ys)"
    moreover have "length m \<le> length xs" using index_of_Some [OF that(2)] by simp
    ultimately have "prefix m (x # xs)" by (metis append_Cons length_Cons le_Suc_eq prefix_append prefix_length_prefix prefixI)
    with that(1) show False by blast
  qed
  ultimately show ?case using 2 by (auto split: if_splits)
qed

text \<open>When the marker has been seen, what was flushed lies before it.\<close>

lemma searching_found:
  assumes "searching marker limit c seen" "marker \<noteq> []"
    and "seen @ d = pre @ marker @ rest" "index_of marker (seen @ d) = Some (length pre)"
  shows "\<exists>c'. consume c d = consume c' rest \<and> reading_status marker limit pre c' []"
proof -
  obtain fl where fl: "seen = fl @ rc_pending c" "outputs c fl"
    "fl \<noteq> [] \<longrightarrow> length (rc_pending c) = length marker - 1" and nm: "\<not> sublist marker seen"
    and c: "rc_marker c = marker" "rc_limit c = limit" "\<not> rc_found c" "\<not> rc_complete c" "rc_status c = []"
    using assms(1) by (auto simp: searching_def)
  have le: "length fl \<le> length pre"
  proof (rule ccontr)
    assume "\<not> length fl \<le> length pre"
    then have "length (pre @ marker) \<le> length seen" using fl(1,3) assms(2) by (cases marker) auto
    then have "prefix (pre @ marker) seen"
      using assms(3) by (metis append_assoc prefix_length_prefix prefixI)
    then have "sublist marker seen" by (metis append_Nil2 prefix_imp_sublist sublist_append_left_mono sublist_order.order_refl sublist_order.order_trans)
    with nm show False by blast
  qed
  have p: "fl @ (rc_pending c @ d) = pre @ marker @ rest" using assms(3) fl(1) by simp
  with le obtain q where q: "pre = fl @ q" "rc_pending c @ d = q @ marker @ rest"
    by (metis append_eq_append_conv_if append_take_drop_id)
  have "\<not> prefix marker (drop j (q @ marker @ rest))" if "j < length q" for j
  proof -
    have "\<not> prefix marker (drop (length fl + j) (seen @ d))"
      using index_of_first [OF assms(4), of "length fl + j"] that q(1) by simp
    moreover have "drop (length fl + j) (seen @ d) = drop j (q @ marker @ rest)"
      using p q by (simp only: assms(3) drop_drop [symmetric] add.commute [of "length fl"]) simp
    ultimately show ?thesis by simp
  qed
  then have i: "index_of marker (rc_pending c @ d) = Some (length q)"
    unfolding q(2) by (rule index_of_leftmost)
  let ?c = "(appendOutput c q)\<lparr>rc_pending := [], rc_found := True\<rparr>"
  have "consume c d = consumeStatus ?c rest" using c i by (simp add: consume_def Let_def q(2))
  moreover have "consume ?c rest = consumeStatus ?c rest" using c by (simp add: consume_def)
  moreover have "reading_status marker limit pre ?c []"
    using c outputs_append [OF fl(2), of q] q(1) by (simp add: reading_status_def)
  ultimately show ?thesis by metis
qed

subsection \<open>Whole runs\<close>

text \<open>Whether one of the chunks ends after \<open>n\<close> bytes.\<close>

fun cut_at :: "nat \<Rightarrow> string list \<Rightarrow> bool" where
  "cut_at n [] \<longleftrightarrow> n = 0"
| "cut_at n (c # cs) \<longleftrightarrow> n = 0 \<or> length c \<le> n \<and> cut_at (n - length c) cs"

lemma cut_at_iff: "cut_at n cs \<longleftrightarrow> (\<exists>ds es. cs = ds @ es \<and> length (concat ds) = n)"
proof (induction cs arbitrary: n)
  case (Cons c cs)
  have "(\<exists>ds es. c # cs = ds @ es \<and> length (concat ds) = n) \<longleftrightarrow>
      n = 0 \<or> (\<exists>ds es. cs = ds @ es \<and> length c + length (concat ds) = n)" (is "?l \<longleftrightarrow> ?r")
  proof
    show "?l \<Longrightarrow> ?r" by (auto simp: Cons_eq_append_conv)
    show "?r \<Longrightarrow> ?l" by (metis append_Cons append_Nil concat.simps(1) concat.simps(2) length_append list.size(3))
  qed
  also have "\<dots> \<longleftrightarrow> n = 0 \<or> length c \<le> n \<and> (\<exists>ds es. cs = ds @ es \<and> length (concat ds) = n - length c)"
    by (metis add_diff_cancel_left' le_add1 le_add_diff_inverse)
  finally show ?case using Cons.IH by simp
qed simp

lemma cut_at_0 [simp]: "cut_at 0 cs"
  by (cases cs) simp_all

lemma completed_all:
  "completed limit code c body \<Longrightarrow>
     \<exists>c'. consume_all c cs = Inr c' \<and> completed limit code c' (body @ concat cs)"
proof (induction cs arbitrary: c body)
  case (Cons d cs)
  from completed_step [OF Cons.prems, of d] Cons.IH [of "appendOutput c d" "body @ d"] show ?case by simp
qed simp

lemma reading_status_all:
  assumes "reading_status marker limit pre c st0" "concat cs = st1 @ eol # rest"
    and "\<forall>b\<in>set st1. \<not> line_end b" "line_end eol" "length (st0 @ st1) \<le> 32"
    and "atoi (trim_space (st0 @ st1)) = Some code"
  shows "\<exists>c'. consume_all c cs = Inr c' \<and>
    completed limit code c' (pre @ (if cut_at (length st1 + 1) cs then rest else after_status eol rest))"
  using assms
proof (induction cs arbitrary: c st0 st1)
  case (Cons d cs)
  have cons: "consume c d = consumeStatus c d"
    using Cons.prems(1) by (simp add: consume_def reading_status_def)
  show ?case
  proof (cases "length d \<le> length st1")
    case True
    then obtain st2 where st2: "st1 = d @ st2"
      using Cons.prems(2) by (metis append_eq_append_conv_if append_take_drop_id concat.simps(2))
    then have cs: "concat cs = st2 @ eol # rest" using Cons.prems(2) by simp
    have "\<forall>b\<in>set d. \<not> line_end b" "length (st0 @ d) \<le> 32" using Cons.prems(3,5) st2 by auto
    from status_partial [OF Cons.prems(1) this] obtain c1 where
      c1: "consumeStatus c d = Inr c1" "reading_status marker limit pre c1 (st0 @ d)" by blast
    from Cons.IH [OF c1(2) cs] Cons.prems(3-6) st2 c1(1) cons show ?thesis by simp
  next
    case False
    then obtain us where us: "d = st1 @ us" "us \<noteq> []" "us @ concat cs = eol # rest"
      using Cons.prems(2) append_eq_append_conv2 [of d "concat cs" st1 "eol # rest"] by auto
    then obtain r1 where r1: "d = st1 @ eol # r1" "rest = r1 @ concat cs" by (cases us) auto
    from status_line_end [OF Cons.prems(1,3,4,6), of r1] obtain c1 where
      c1: "consumeStatus c d = Inr c1" "completed limit code c1 (pre @ after_status eol r1)"
      unfolding r1(1) by blast
    from completed_all [OF c1(2), of cs] obtain c2 where
      c2: "consume_all c1 cs = Inr c2" "completed limit code c2 (pre @ after_status eol r1 @ concat cs)"
      by auto
    moreover have "after_status eol r1 @ concat cs =
        (if cut_at (length st1 + 1) (d # cs) then rest else after_status eol rest)"
      unfolding r1 by (cases r1) (auto simp: after_status_def cut_at_0)
    ultimately show ?thesis using c1(1) cons by auto
  qed
qed simp

lemma before_marker:
  assumes "\<not> sublist marker seen" "seen @ xs = pre @ marker @ ys"
  shows "length seen \<le> length (pre @ marker)"
proof (rule ccontr)
  assume "\<not> length seen \<le> length (pre @ marker)"
  moreover have "seen @ xs = (pre @ marker) @ ys" using assms(2) by simp
  ultimately have "prefix (pre @ marker) seen" by (metis nat_le_linear prefixI prefix_length_prefix)
  then have "sublist marker seen" by (metis append_Nil2 prefix_def sublist_appendI append_assoc)
  with assms(1) show False by blast
qed

lemma searching_all:
  assumes "searching marker limit c seen" "marker \<noteq> []"
    and "seen @ concat cs = pre @ marker @ st @ eol # rest"
    and "index_of marker (seen @ concat cs) = Some (length pre)"
    and "\<forall>b\<in>set st. \<not> line_end b" "line_end eol" "length st \<le> 32" "atoi (trim_space st) = Some code"
  shows "\<exists>c'. consume_all c cs = Inr c' \<and> completed limit code c'
    (pre @ (if cut_at (length (pre @ marker @ st) + 1 - length seen) cs then rest else after_status eol rest))"
  using assms
proof (induction cs arbitrary: c seen)
  case Nil
  then have "sublist marker seen" by (metis append_Nil2 concat.simps(1) index_of_None_iff option.distinct(1))
  with Nil.prems(1) show ?case by (simp add: searching_def)
next
  case (Cons d cs)
  show ?case
  proof (cases "index_of marker (seen @ d)")
    case None
    then have "\<not> sublist marker (seen @ d)" by (simp add: index_of_None_iff)
    from searching_step [OF Cons.prems(1,2) this] obtain c1 where
      "consume c d = Inr c1" "searching marker limit c1 (seen @ d)" by blast
    moreover have "length (seen @ d) \<le> length (pre @ marker)"
      using before_marker [OF \<open>\<not> sublist marker (seen @ d)\<close>] Cons.prems(3) by simp
    ultimately have "cut_at (length (pre @ marker @ st) + 1 - length seen) (d # cs) =
        cut_at (length (pre @ marker @ st) + 1 - length (seen @ d)) cs" "searching marker limit c1 (seen @ d)" by auto
    then show ?thesis using Cons.IH [of c1 "seen @ d"] Cons.prems(2-) \<open>consume c d = Inr c1\<close> by (simp del: cut_at.simps)
  next
    case (Some i)
    then have i: "i = length pre"
      using index_of_append [OF Some, of "concat cs"] Cons.prems(4) by simp
    define rest1 where "rest1 = drop (i + length marker) (seen @ d)"
    have e: "seen @ d = take i (seen @ d) @ marker @ rest1" "i + length marker \<le> length (seen @ d)"
      using index_of_Some [OF Some] unfolding rest1_def by blast+
    have "take i (seen @ d) = take i ((seen @ d) @ concat cs)" using e(2) by simp
    also have "\<dots> = pre"
      unfolding i using Cons.prems(3) by (metis append_assoc append_eq_conv_conj concat.simps(2))
    finally have t: "take i (seen @ d) = pre" .
    have e1: "seen @ d = pre @ marker @ rest1" using e(1) unfolding t .
    then have r: "concat (rest1 # cs) = st @ eol # rest"
      using Cons.prems(3) by (metis append_assoc concat.simps(2) same_append_eq)
    from searching_found [OF Cons.prems(1,2) e1] Some i obtain c1 where
      c1: "consume c d = consume c1 rest1" "reading_status marker limit pre c1 []" by blast
    have "length seen \<le> length (pre @ marker)"
      using before_marker [of marker seen "concat (d # cs)"] Cons.prems(1,3) by (simp add: searching_def)
    with arg_cong [OF e1, of length] have "cut_at (length (pre @ marker @ st) + 1 - length seen) (d # cs) =
        cut_at (length st + 1) (rest1 # cs)" by auto
    with reading_status_all [OF c1(2) r] Cons.prems(5-8) c1(1) show ?thesis by simp
  qed
qed

lemma searching_never:
  "searching marker limit c seen \<Longrightarrow> marker \<noteq> [] \<Longrightarrow> \<not> sublist marker (seen @ concat cs) \<Longrightarrow>
     \<exists>c'. consume_all c cs = Inr c' \<and> searching marker limit c' (seen @ concat cs)"
proof (induction cs arbitrary: c seen)
  case (Cons d cs)
  have "\<not> sublist marker (seen @ d)"
    using Cons.prems(3) sublist_append_right_mono [of marker "seen @ d" "concat cs"] by auto
  from searching_step [OF Cons.prems(1,2) this] obtain c1 where
    "consume c d = Inr c1" "searching marker limit c1 (seen @ d)" by blast
  with Cons.IH [of c1 "seen @ d"] Cons.prems show ?case by simp
qed simp

subsection \<open>Properties\<close>

text \<open>C10: However the PTY's output is cut into chunks, the collector finds the completion: if the
output is some text, the marker (where it first occurs), a status of at most 32 bytes that reads as a
number, a line end and more text, then the run completes with that exit code, and its output is exactly
the text before the marker and the text after the status line, cut off at the limit with the truncation
reported exactly. A status line that ends with CR LF ends with both, so the line feed is no output; but when a
chunk ends between the two, which happens exactly when one ends right after the CR, the line feed is output.\<close>

lemma collector_completes:
  assumes "marker \<noteq> []" "concat chunks = pre @ marker @ status @ eol # rest"
    and "index_of marker (concat chunks) = Some (length pre)"
    and "\<forall>b\<in>set status. \<not> line_end b" "line_end eol" "length status \<le> 32"
    and "atoi (trim_space status) = Some code"
  shows "\<exists>c. consume_all (newRunCollector marker limit) chunks = Inr c \<and> rc_complete c \<and> rc_exit_code c = code \<and>
    (let out = pre @ (if eol = CHR 0x0D \<and> rest \<noteq> [] \<and> hd rest = CHR 0x0A \<and>
           \<not> cut_at (length (pre @ marker @ status @ [eol])) chunks then tl rest else rest)
     in rc_output c = take (nat limit) out \<and> rc_truncated c = (nat limit < length out))"
proof -
  from searching_all [OF searching_init [OF assms(1)] assms(1), of chunks pre status eol rest code limit]
    assms(2-) obtain c where
      "consume_all (newRunCollector marker limit) chunks = Inr c"
      "completed limit code c (pre @ (if cut_at (length (pre @ marker @ status @ [eol])) chunks then rest else after_status eol rest))"
    by auto
  then show ?thesis by (auto simp: completed_def outputs_def after_status_def Let_def)
qed

lemma collector_completes_witness:
  "\<exists>c. consume_all (newRunCollector ''T:'' 5) [''hi'' @ ''T'', '':7'' @ [chr_cr, chr_lf] @ ''$''] = Inr c \<and>
    rc_complete c \<and> rc_exit_code c = 7 \<and> rc_output c = ''hi$'' \<and> \<not> rc_truncated c"
proof -
  have i: "index_of ''T:'' (concat [''hi'' @ ''T'', '':7'' @ [chr_cr, chr_lf] @ ''$'']) = Some (length ''hi'')"
    by simp
  have s: "atoi (trim_space ''7'') = Some 7"
    by (subst trim_space_id) (simp_all add: is_space_def atoi_def is_digit_def digits_value_def Let_def)
  from collector_completes [OF _ _ i, of "''7''" chr_cr "chr_lf # ''$''" 7 5] s show ?thesis by (simp add: Let_def)
qed

text \<open>Without the whole marker in the output the collector neither completes nor fails: it has
kept a prefix of the output within the limit and holds back fewer bytes than the marker has.\<close>

lemma collector_waits:
  assumes "marker \<noteq> []" "\<not> contains (concat chunks) marker"
  shows "\<exists>c. consume_all (newRunCollector marker limit) chunks = Inr c \<and>
    \<not> rc_found c \<and> \<not> rc_complete c \<and> length (rc_pending c) < length marker \<and>
    (\<exists>flushed. concat chunks = flushed @ rc_pending c \<and> rc_output c = take (nat limit) flushed)"
proof -
  have "\<not> sublist marker ([] @ concat chunks)" using assms(2) by (simp add: contains_def)
  from searching_never [OF searching_init [OF assms(1)] assms(1) this, of limit] show ?thesis
    by (fastforce simp: searching_def outputs_def)
qed

lemma collector_waits_witness:
  "\<exists>c. consume_all (newRunCollector ''T:'' 5) [''a'', ''bT''] = Inr c \<and>
    \<not> rc_found c \<and> \<not> rc_complete c \<and> length (rc_pending c) < length ''T:'' \<and>
    (\<exists>flushed. concat [''a'', ''bT''] = flushed @ rc_pending c \<and> rc_output c = take (nat 5) flushed)"
  by (rule collector_waits) (auto simp: contains_def sublist_Cons_right)

text \<open>The result of a run reports truncation when output was cut off or ends inside a rune, and
formats only complete runes of at most the limit's bytes: nothing is reported beyond what was
collected.\<close>

lemma collector_result_truncation:
  "rr_exit_code (collector_result c command pre) = rc_exit_code c \<and>
   (\<exists>text. prefix text (rc_output c) \<and> length (rc_output c) - length text \<le> 3 \<and>
      rr_output (collector_result c command pre) = formatRunOutput text command pre \<and>
      rr_truncated (collector_result c command pre) = (rc_truncated c \<or> text \<noteq> rc_output c) \<and>
      (valid_utf8 (rc_output c) \<longrightarrow> text = rc_output c))"
proof (intro conjI exI)
  let ?n = "completeUTF8Prefix (rc_output c)"
  have n: "?n \<le> length (rc_output c)" by (rule completeUTF8Prefix_le)
  then have "length (rc_output c) - ?n = length (drop ?n (rc_output c))" by simp
  then show "length (rc_output c) - length (take ?n (rc_output c)) \<le> 3"
    using n completeUTF8Prefix_rest [of "rc_output c"] by auto
  have "?n < length (rc_output c) \<longleftrightarrow> take ?n (rc_output c) \<noteq> rc_output c"
    using n by (metis length_take linorder_neqE_nat min.absorb2 nless_le order_less_irrefl take_all)
  then show "rr_truncated (collector_result c command pre) =
      (rc_truncated c \<or> take ?n (rc_output c) \<noteq> rc_output c)"
    by (simp add: collector_result_def Let_def)
qed (simp_all add: collector_result_def Let_def take_is_prefix completeUTF8Prefix_valid)

lemma collector_result_truncation_witness:
  "rr_exit_code (collector_result (newRunCollector ''T:'' 9) ''ls'' []) = 0 \<and> valid_utf8 [] \<and>
   rr_output (collector_result (newRunCollector ''T:'' 9) ''ls'' []) = formatRunOutput [] ''ls'' []"
  using collector_result_truncation [of "newRunCollector ''T:'' 9" "''ls''" "[]"]
  by (auto simp: newRunCollector_def)

end
