(* ===== verification/Ansi_Style.thy ===== *)
theory Ansi_Style
  imports Go_Library "HOL-Library.Word"
begin

unbundle bit_operations_syntax

section \<open>ANSI styles (internal/server/transcript.go)\<close>

text \<open>
  The style the transcript tracks: how SGR parameters change it (\<open>applySGR\<close>) and the escape
  sequence that restores it (\<open>sequence\<close>). Colours keep their machine widths. The record fields
  are those of \<open>ansiColor\<close> and \<open>ansiStyle\<close>; the zero values are \<open>no_color\<close> and
  \<open>default_style\<close>.
\<close>

record ansi_color =
  color_kind :: "8 word"
  color_value :: "32 word"

record ansi_style =
  st_bold :: bool
  st_faint :: bool
  st_italic :: bool
  st_underline :: bool
  st_blink :: bool
  st_conceal :: bool
  st_strike :: bool
  st_fg :: ansi_color
  st_bg :: ansi_color

definition no_color :: ansi_color where
  "no_color = \<lparr>color_kind = 0, color_value = 0\<rparr>"

definition default_style :: ansi_style where
  "default_style = \<lparr>st_bold = False, st_faint = False, st_italic = False, st_underline = False,
     st_blink = False, st_conceal = False, st_strike = False, st_fg = no_color, st_bg = no_color\<rparr>"

definition indexedColor :: "32 word \<Rightarrow> ansi_color" where
  "indexedColor v = \<lparr>color_kind = 1, color_value = v\<rparr>"

definition rgbColor :: "32 word \<Rightarrow> 32 word \<Rightarrow> 32 word \<Rightarrow> ansi_color" where
  "rgbColor red green blue =
     \<lparr>color_kind = 2, color_value = push_bit 16 red OR push_bit 8 green OR blue\<rparr>"

definition isDefault :: "ansi_style \<Rightarrow> bool" where
  "isDefault s \<longleftrightarrow> s = default_style"

text \<open>\<open>extendedColor\<close> returns the colour and how many parameters it consumed, 0 for none.\<close>

definition extendedColor :: "int list \<Rightarrow> ansi_color \<times> nat" where
  "extendedColor params =
     (if 2 \<le> length params \<and> params ! 0 = 5 \<and> 0 \<le> params ! 1 \<and> params ! 1 \<le> 255
      then (indexedColor (word_of_int (params ! 1)), 2)
      else if 4 \<le> length params \<and> params ! 0 = 2 then
        (if \<exists>v\<in>set (take 3 (drop 1 params)). v < 0 \<or> 255 < v then (no_color, 0)
         else (rgbColor (word_of_int (params ! 1)) (word_of_int (params ! 2))
                 (word_of_int (params ! 3)), 4))
      else (no_color, 0))"

fun parse_parts :: "string list \<Rightarrow> int list" where
  "parse_parts [] = []"
| "parse_parts (part # parts) =
     (if part = [] then 0 # parse_parts parts
      else (case atoi part of None \<Rightarrow> [] | Some v \<Rightarrow> v # parse_parts parts))"

definition parseSGRParameters :: "string \<Rightarrow> int list" where
  "parseSGRParameters raw = (if raw = [] then [0] else parse_parts (split_on CHR '';'' raw))"

text \<open>One parameter other than 38 and 48: the plain cases of the \<open>switch\<close>.\<close>

definition sgr_plain :: "int \<Rightarrow> ansi_style \<Rightarrow> ansi_style" where
  "sgr_plain p s =
     (if p = 0 then default_style
      else if p = 1 then s\<lparr>st_bold := True\<rparr>
      else if p = 2 then s\<lparr>st_faint := True\<rparr>
      else if p = 3 then s\<lparr>st_italic := True\<rparr>
      else if p = 4 then s\<lparr>st_underline := True\<rparr>
      else if p = 5 \<or> p = 6 then s\<lparr>st_blink := True\<rparr>
      else if p = 8 then s\<lparr>st_conceal := True\<rparr>
      else if p = 9 then s\<lparr>st_strike := True\<rparr>
      else if p = 22 then s\<lparr>st_bold := False, st_faint := False\<rparr>
      else if p = 23 then s\<lparr>st_italic := False\<rparr>
      else if p = 24 then s\<lparr>st_underline := False\<rparr>
      else if p = 25 then s\<lparr>st_blink := False\<rparr>
      else if p = 28 then s\<lparr>st_conceal := False\<rparr>
      else if p = 29 then s\<lparr>st_strike := False\<rparr>
      else if 30 \<le> p \<and> p \<le> 37 then s\<lparr>st_fg := indexedColor (word_of_int (p - 30))\<rparr>
      else if p = 39 then s\<lparr>st_fg := no_color\<rparr>
      else if 40 \<le> p \<and> p \<le> 47 then s\<lparr>st_bg := indexedColor (word_of_int (p - 40))\<rparr>
      else if p = 49 then s\<lparr>st_bg := no_color\<rparr>
      else if 90 \<le> p \<and> p \<le> 97 then s\<lparr>st_fg := indexedColor (word_of_int (p - 90 + 8))\<rparr>
      else if 100 \<le> p \<and> p \<le> 107 then s\<lparr>st_bg := indexedColor (word_of_int (p - 100 + 8))\<rparr>
      else s)"

function sgr_params :: "int list \<Rightarrow> ansi_style \<Rightarrow> ansi_style" where
  "sgr_params [] s = s"
| "sgr_params (p # ps) s =
     (if p = 38 \<or> p = 48 then
        (let (color, consumed) = extendedColor ps in
         if 0 < consumed
         then sgr_params (drop consumed ps)
           (if p = 38 then s\<lparr>st_fg := color\<rparr> else s\<lparr>st_bg := color\<rparr>)
         else sgr_params ps s)
      else sgr_params ps (sgr_plain p s))"
  by pat_completeness auto
termination by (relation "measure (length \<circ> fst)") auto

definition applySGR :: "ansi_style \<Rightarrow> string \<Rightarrow> ansi_style" where
  "applySGR s raw = sgr_params (parseSGRParameters raw) s"

definition appendColor :: "string list \<Rightarrow> ansi_color \<Rightarrow> bool \<Rightarrow> string list" where
  "appendColor params color foreground =
     (if color_kind color = 0 then params
      else (let base = (if foreground then ''38'' else ''48'') in
        if color_kind color = 1
        then params @ [base, ''5'', format_uint (unat (color_value color))]
        else params @ [base, ''2'',
          format_uint (unat (drop_bit 16 (color_value color) AND 0xFF)),
          format_uint (unat (drop_bit 8 (color_value color) AND 0xFF)),
          format_uint (unat (color_value color AND 0xFF))]))"

definition style_flags :: "ansi_style \<Rightarrow> string list" where
  "style_flags s =
     (if st_bold s then [''1''] else []) @ (if st_faint s then [''2''] else []) @
     (if st_italic s then [''3''] else []) @ (if st_underline s then [''4''] else []) @
     (if st_blink s then [''5''] else []) @ (if st_conceal s then [''8''] else []) @
     (if st_strike s then [''9''] else [])"

definition style_params :: "ansi_style \<Rightarrow> string list" where
  "style_params s = appendColor (appendColor (style_flags s) (st_fg s) True) (st_bg s) False"

definition sequence :: "ansi_style \<Rightarrow> string" where
  "sequence s =
     (if style_params s = [] then []
      else chr_esc # CHR ''['' # join '';'' (style_params s) @ ''m'')"

subsection \<open>Well-formed styles\<close>

text \<open>
  The colours the program makes: none, an index of at most 255, or 24 bits of RGB. Every style it
  can reach has such colours, and \<open>sequence\<close> is faithful on them.
\<close>

definition wf_color :: "ansi_color \<Rightarrow> bool" where
  "wf_color c \<longleftrightarrow> c = no_color \<or> (color_kind c = 1 \<and> unat (color_value c) \<le> 255) \<or>
     (color_kind c = 2 \<and> unat (color_value c) < 2 ^ 24)"

definition wf_style :: "ansi_style \<Rightarrow> bool" where
  "wf_style s \<longleftrightarrow> wf_color (st_fg s) \<and> wf_color (st_bg s)"

lemma wf_no_color [simp]: "wf_color no_color"
  by (simp add: wf_color_def)

lemma wf_default_style [simp]: "wf_style default_style"
  by (simp add: wf_style_def default_style_def)

lemma unat_word_of_int_small: "0 \<le> v \<Longrightarrow> v \<le> 255 \<Longrightarrow> unat (word_of_int v :: 32 word) = nat v"
  by (simp add: unat_eq_nat_uint take_bit_int_eq_self uint_word_of_int)

lemma wf_indexed: "0 \<le> v \<Longrightarrow> v \<le> 255 \<Longrightarrow> wf_color (indexedColor (word_of_int v))"
  by (auto simp: wf_color_def indexedColor_def unat_word_of_int_small)

lemma mask_8: "(0xFF :: 32 word) = mask 8"
  by (simp add: mask_eq_exp_minus_1)

lemma unat_bits:
  fixes v :: "32 word"
  assumes "unat v < 2 ^ n"
  shows "bit v i \<Longrightarrow> i < n"
proof -
  have "take_bit n (unat v) = unat v" using assms by (rule take_bit_nat_eq_self)
  then have "take_bit n v = v" by (metis unsigned_take_bit_eq word_unat_eq_iff)
  then show "bit v i \<Longrightarrow> i < n" by (metis bit_take_bit_iff)
qed

lemma bits_unat:
  fixes v :: "32 word"
  assumes "\<And>i. bit v i \<Longrightarrow> i < n"
  shows "unat v < 2 ^ n"
proof -
  have "take_bit n v = v" using assms by (intro bit_word_eqI) (auto simp: bit_take_bit_iff)
  then have "unat v = take_bit n (unat v)" by (metis unsigned_take_bit_eq)
  then show ?thesis by (metis take_bit_nat_less_exp)
qed

lemma rgb_bits:
  fixes r g b :: "32 word"
  assumes "unat r \<le> 255" "unat g \<le> 255" "unat b \<le> 255"
  shows "unat (push_bit 16 r OR push_bit 8 g OR b) < 2 ^ 24"
proof (rule bits_unat)
  fix i assume "bit (push_bit 16 r OR push_bit 8 g OR b) i"
  moreover have "bit r j \<Longrightarrow> j < 8" "bit g j \<Longrightarrow> j < 8" "bit b j \<Longrightarrow> j < 8" for j
    using assms unat_bits [of r 8] unat_bits [of g 8] unat_bits [of b 8] by simp_all
  ultimately show "i < 24" by (fastforce simp: bit_simps)
qed

lemma wf_rgb:
  assumes "0 \<le> r" "r \<le> 255" "0 \<le> g" "g \<le> 255" "0 \<le> b" "b \<le> 255"
  shows "wf_color (rgbColor (word_of_int r) (word_of_int g) (word_of_int b))"
  using assms
    rgb_bits [of "word_of_int r" "word_of_int g" "word_of_int b"]
  by (simp add: wf_color_def rgbColor_def unat_word_of_int_small)

lemma rgb_split:
  fixes v :: "32 word"
  assumes "unat v < 2 ^ 24"
  shows "push_bit 16 (drop_bit 16 v AND 0xFF) OR push_bit 8 (drop_bit 8 v AND 0xFF) OR (v AND 0xFF) = v"
proof (rule bit_word_eqI)
  fix i assume "i < LENGTH(32)"
  then show "bit (push_bit 16 (drop_bit 16 v AND 0xFF) OR push_bit 8 (drop_bit 8 v AND 0xFF) OR
      (v AND 0xFF)) i = bit v i"
    using unat_bits [OF assms, of i] unfolding mask_8
    by (cases "i < 8"; cases "i < 16") (auto simp: bit_simps)
qed

lemma byte_le: "unat (v AND 0xFF :: 32 word) \<le> 255"
proof -
  have "unat (v AND mask 8) < 2 ^ 8" by (rule bits_unat) (simp add: bit_simps)
  then show ?thesis by (simp add: mask_8)
qed

lemma wf_extendedColor: "wf_color (fst (extendedColor ps))"
proof -
  define A B V where "A = (2 \<le> length ps \<and> ps ! 0 = 5 \<and> 0 \<le> ps ! 1 \<and> ps ! 1 \<le> 255)"
    and "B = (4 \<le> length ps \<and> ps ! 0 = 2)" and "V = (\<exists>v\<in>set (take 3 (drop 1 ps)). v < 0 \<or> 255 < v)"
  have e: "fst (extendedColor ps) = (if A then indexedColor (word_of_int (ps ! 1))
      else if B then (if V then no_color else
        rgbColor (word_of_int (ps ! 1)) (word_of_int (ps ! 2)) (word_of_int (ps ! 3)))
      else no_color)"
    unfolding extendedColor_def A_def [symmetric] B_def [symmetric] V_def [symmetric] by simp
  have a: "A \<Longrightarrow> wf_color (indexedColor (word_of_int (ps ! 1)))"
    unfolding A_def by (simp add: wf_indexed)
  have b: "wf_color (rgbColor (word_of_int (ps ! 1)) (word_of_int (ps ! 2)) (word_of_int (ps ! 3)))"
    if B "\<not> V"
  proof -
    have "take 3 (drop 1 ps) = [ps ! 1, ps ! 2, ps ! 3]"
      using \<open>B\<close> unfolding B_def
      by (cases ps; cases "tl ps"; cases "tl (tl ps)"; cases "tl (tl (tl ps))") auto
    with \<open>\<not> V\<close> show ?thesis unfolding V_def by (simp add: wf_rgb not_less)
  qed
  show ?thesis unfolding e using a b by simp
qed

lemma wf_sgr_plain: "wf_style s \<Longrightarrow> wf_style (sgr_plain p s)"
  using wf_indexed [of "p - 30"] wf_indexed [of "p - 40"] wf_indexed [of "p - 90 + 8"]
    wf_indexed [of "p - 100 + 8"]
  by (auto simp: sgr_plain_def wf_style_def default_style_def)

lemma wf_sgr_params: "wf_style s \<Longrightarrow> wf_style (sgr_params ps s)"
proof (induction ps s rule: sgr_params.induct)
  case (2 p ps s)
  show ?case
  proof (cases "p = 38 \<or> p = 48")
    case True
    obtain c n where e: "extendedColor ps = (c, n)" by fastforce
    then have "wf_color c" using wf_extendedColor [of ps] by simp
    then have "wf_style (if p = 38 then s\<lparr>st_fg := c\<rparr> else s\<lparr>st_bg := c\<rparr>)"
      using 2(4) by (simp add: wf_style_def)
    then show ?thesis using 2 True e by (auto simp: Let_def)
  qed (use 2 wf_sgr_plain in simp)
qed simp

lemma wf_applySGR [preserves]: "wf_style s \<Longrightarrow> wf_style (applySGR s raw)"
  by (simp add: applySGR_def wf_sgr_params)

subsection \<open>The sequence of a style restores it\<close>

lemma format_uint_small: "n < 10 \<Longrightarrow> format_uint n = [char_of (48 + n)]"
  by (simp add: format_uint.simps)

lemma length_format_uint: "n < 10 ^ Suc k \<Longrightarrow> length (format_uint n) \<le> Suc k"
proof (induction k arbitrary: n)
  case (Suc k)
  then have "n div 10 < 10 ^ Suc k" by (simp add: less_mult_imp_div_less mult.commute)
  with Suc.IH [of "n div 10"] show ?case by (subst format_uint.simps) auto
qed (simp add: format_uint_small)

lemma parse_parts_numbers:
  "list_all (\<lambda>n. n < 2 ^ 63) ns \<Longrightarrow> parse_parts (map format_uint ns) = map int ns"
  by (induction ns) (auto simp: atoi_format_uint)

lemma parse_joined_numbers:
  assumes "ns \<noteq> []" "list_all (\<lambda>n. n < 2 ^ 63) ns"
  shows "parseSGRParameters (join '';'' (map format_uint ns)) = map int ns"
proof -
  have "CHR '';'' \<notin> set (format_uint n)" for n
    using format_uint_chars [of "CHR '';''" n] by (auto simp: is_digit_def)
  then have s: "split_on CHR '';'' (join '';'' (map format_uint ns)) = map format_uint ns"
    using assms(1) by (intro split_join) auto
  moreover have "join '';'' (map format_uint ns) \<noteq> []"
  proof
    assume "join '';'' (map format_uint ns) = []"
    with s have "map format_uint ns = [[]]" by simp
    then show False by auto
  qed
  ultimately show ?thesis
    using assms(2) by (simp add: parseSGRParameters_def parse_parts_numbers)
qed

text \<open>The parameters of a style as numbers.\<close>

definition color_codes :: "ansi_color \<Rightarrow> bool \<Rightarrow> nat list" where
  "color_codes c foreground =
     (let base = (if foreground then 38 else 48) in
      if color_kind c = 0 then []
      else if color_kind c = 1 then [base, 5, unat (color_value c)]
      else [base, 2, unat (drop_bit 16 (color_value c) AND 0xFF),
        unat (drop_bit 8 (color_value c) AND 0xFF), unat (color_value c AND 0xFF)])"

definition flag_codes :: "ansi_style \<Rightarrow> nat list" where
  "flag_codes s =
     (if st_bold s then [1] else []) @ (if st_faint s then [2] else []) @
     (if st_italic s then [3] else []) @ (if st_underline s then [4] else []) @
     (if st_blink s then [5] else []) @ (if st_conceal s then [8] else []) @
     (if st_strike s then [9] else [])"

definition style_codes :: "ansi_style \<Rightarrow> nat list" where
  "style_codes s = flag_codes s @ color_codes (st_fg s) True @ color_codes (st_bg s) False"

lemma format_codes:
  "format_uint 1 = ''1''" "format_uint 2 = ''2''" "format_uint 3 = ''3''" "format_uint 4 = ''4''"
  "format_uint 5 = ''5''" "format_uint 8 = ''8''" "format_uint 9 = ''9''"
  "format_uint 38 = ''38''" "format_uint 48 = ''48''"
  by (simp_all add: format_uint.simps)

lemma style_flags_codes: "style_flags s = map format_uint (flag_codes s)"
  unfolding style_flags_def flag_codes_def by (simp only: map_append if_distrib [of "map format_uint"] list.map format_codes)

lemma appendColor_codes: "appendColor ps c f = ps @ map format_uint (color_codes c f)"
  by (simp add: appendColor_def color_codes_def format_codes Let_def)

lemma style_params_codes: "style_params s = map format_uint (style_codes s)"
  by (simp add: style_params_def style_codes_def appendColor_codes style_flags_codes)

lemma style_codes_bound: "n \<in> set (style_codes s) \<Longrightarrow> n < 2 ^ 32"
proof -
  have "unat (v :: 32 word) < 2 ^ 32" for v using unsigned_less [of v] by simp
  then show "n \<in> set (style_codes s) \<Longrightarrow> n < 2 ^ 32"
    by (auto simp: style_codes_def flag_codes_def color_codes_def Let_def split: if_splits)
qed

lemma sgr_flag:
  "p \<noteq> 38 \<Longrightarrow> p \<noteq> 48 \<Longrightarrow> sgr_params (map int ((if b then [p] else []) @ rest)) s =
     sgr_params (map int rest) (if b then sgr_plain (int p) s else s)"
  by auto

lemma sgr_flags:
  "sgr_params (map int (flag_codes s @ rest)) default_style =
     sgr_params (map int rest) (s\<lparr>st_fg := no_color, st_bg := no_color\<rparr>)"
  unfolding flag_codes_def append_assoc
  by (cases s) (simp only: sgr_flag, simp add: sgr_flag sgr_plain_def default_style_def)

lemma extendedColor_index:
  "n \<le> 255 \<Longrightarrow> extendedColor (5 # int n # ps) = (indexedColor (of_nat n), 2)"
  by (simp add: extendedColor_def)

lemma extendedColor_rgb:
  "r \<le> 255 \<Longrightarrow> g \<le> 255 \<Longrightarrow> b \<le> 255 \<Longrightarrow>
     extendedColor (2 # int r # int g # int b # ps) = (rgbColor (of_nat r) (of_nat g) (of_nat b), 4)"
  by (simp add: extendedColor_def numeral_eq_Suc)

lemma of_unat: "of_nat (unat (v :: 32 word)) = v"
  by simp

lemma sgr_color:
  assumes "wf_color c"
  shows "sgr_params (map int (color_codes c f @ rest)) s =
    sgr_params (map int rest)
      (if c = no_color then s else if f then s\<lparr>st_fg := c\<rparr> else s\<lparr>st_bg := c\<rparr>)"
proof -
  consider "c = no_color" | v where "c = indexedColor v" "unat v \<le> 255"
    | v where "c = \<lparr>color_kind = 2, color_value = v\<rparr>" "unat v < 2 ^ 24"
    using assms by (cases c) (auto simp: wf_color_def indexedColor_def)
  then show ?thesis
  proof cases
    case 1
    then show ?thesis by (simp add: color_codes_def no_color_def)
  next
    case 2
    then have "extendedColor (5 # int (unat v) # map int rest) = (c, 2)"
      using extendedColor_index [of "unat v" "map int rest"] by (simp only: of_unat)
    with 2 show ?thesis by (simp add: color_codes_def indexedColor_def no_color_def)
  next
    case 3
    let ?r = "drop_bit 16 v AND 0xFF" and ?g = "drop_bit 8 v AND 0xFF" and ?b = "v AND 0xFF"
    have "extendedColor (2 # int (unat ?r) # int (unat ?g) # int (unat ?b) # map int rest) = (c, 4)"
      unfolding extendedColor_rgb [OF byte_le byte_le byte_le] of_unat
      using 3 rgb_split [of v] by (simp only: rgbColor_def)
    with 3 show ?thesis by (simp add: color_codes_def no_color_def)
  qed
qed

lemma sgr_style_codes: "wf_style s \<Longrightarrow> sgr_params (map int (style_codes s)) default_style = s"
proof -
  assume "wf_style s"
  then have c: "wf_color (st_fg s)" "wf_color (st_bg s)" by (simp_all add: wf_style_def)
  show ?thesis
    unfolding style_codes_def sgr_flags sgr_color [OF c(1)]
    using sgr_color [OF c(2), of False "[]"] by (cases s) auto
qed

lemma style_codes_Nil: "wf_style s \<Longrightarrow> style_codes s = [] \<Longrightarrow> s = default_style"
  using sgr_style_codes [of s] by simp

lemma applySGR_codes: "wf_style s \<Longrightarrow> style_codes s \<noteq> [] \<Longrightarrow>
    applySGR default_style (join '';'' (map format_uint (style_codes s))) = s"
proof -
  assume s: "wf_style s" "style_codes s \<noteq> []"
  have "list_all (\<lambda>n. n < 2 ^ 63) (style_codes s)"
    using style_codes_bound [of _ s] by (fastforce simp: list_all_iff)
  from parse_joined_numbers [OF s(2) this] show ?thesis
    by (simp add: applySGR_def sgr_style_codes [OF s(1)])
qed

lemma length_join_le:
  "\<forall>x\<in>set xs. length x \<le> k \<Longrightarrow> length (join [c] xs) \<le> length xs * Suc k"
proof -
  assume "\<forall>x\<in>set xs. length x \<le> k"
  then have "sum_list (map length xs) \<le> length xs * k" by (induction xs) auto
  then show ?thesis by (simp add: length_join)
qed

lemma length_style_codes: "length (style_codes s) \<le> 17"
  by (simp add: style_codes_def flag_codes_def color_codes_def Let_def)

lemma length_sequence: "length (sequence s) \<le> 200"
proof -
  have "length (format_uint n) \<le> 10" if "n \<in> set (style_codes s)" for n
    using style_codes_bound [OF that] length_format_uint [of n 9] by simp
  then have "length (join '';'' (style_params s)) \<le> length (style_codes s) * 11"
    using length_join_le [of "style_params s" 10] by (simp add: style_params_codes)
  with length_style_codes [of s] show ?thesis by (simp add: sequence_def)
qed

lemma sequence_cases:
  assumes "wf_style s"
  shows "(s = default_style \<and> sequence s = []) \<or>
    (\<exists>raw. sequence s = chr_esc # CHR ''['' # raw @ ''m'' \<and> applySGR default_style raw = s \<and>
      (\<forall>c\<in>set raw. is_digit c \<or> c = CHR '';'') \<and> length raw \<le> 197)"
proof (cases "style_codes s = []")
  case True
  then show ?thesis
    using style_codes_Nil [OF assms True] by (simp add: sequence_def style_params_codes)
next
  case False
  let ?raw = "join '';'' (map format_uint (style_codes s))"
  have eq: "sequence s = chr_esc # CHR ''['' # ?raw @ ''m''"
    using False by (simp add: sequence_def style_params_codes)
  have "set (join '';'' xs) \<subseteq> insert CHR '';'' (\<Union> (set ` set xs))" for xs
    by (induction "'';''" xs rule: join.induct) auto
  then have "\<forall>c\<in>set ?raw. is_digit c \<or> c = CHR '';''"
    using format_uint_chars by fastforce
  moreover have "length ?raw \<le> 197" using length_sequence [of s] eq by simp
  ultimately show ?thesis using eq applySGR_codes [OF assms False] by blast
qed

subsection \<open>Properties\<close>

text \<open>The escape sequence the transcript prepends to a line restores the style exactly: parsing the
parameters of \<open>sequence\<close> with \<open>applySGR\<close>, from the default style, gives the style back, for every
style whose colours are none, an index up to 255 or 24 bits of RGB; the default style has no sequence.
\<open>applySGR\<close> on any parameters stays within these styles.\<close>

lemma style_sequence_roundtrip:
  assumes "wf_style s"
  shows "((s = default_style \<and> sequence s = []) \<or>
    (\<exists>raw. sequence s = chr_esc # CHR ''['' # raw @ ''m'' \<and> applySGR default_style raw = s)) \<and>
    wf_style (applySGR s params)"
  using sequence_cases [OF assms] wf_applySGR [OF assms] by blast

definition example_style :: ansi_style where
  "example_style = default_style\<lparr>st_bold := True, st_fg := rgbColor 1 2 3, st_bg := indexedColor 200\<rparr>"

lemma style_sequence_roundtrip_witness:
  "wf_style example_style \<and>
   ((example_style = default_style \<and> sequence example_style = []) \<or>
    (\<exists>raw. sequence example_style = chr_esc # CHR ''['' # raw @ ''m'' \<and>
       applySGR default_style raw = example_style)) \<and>
   wf_style (applySGR example_style ''38;5;300;1'')"
proof -
  have "wf_style example_style"
    by (simp add: wf_style_def example_style_def default_style_def wf_color_def rgbColor_def indexedColor_def)
  then show ?thesis using style_sequence_roundtrip by blast
qed

end
