(* ===== verification/Ansi_Transcript.thy ===== *)
theory Ansi_Transcript
  imports Ansi_Style Command_Markers
begin

section \<open>The ANSI transcript (internal/server/transcript.go)\<close>

text \<open>
  \<open>ansiTranscript\<close> keeps the last lines a terminal printed, with their styles, and leaves out what a
  full-screen program drew on the alternate screen. The record has the fields of the struct. Slice
  accesses that Go would panic on are \<open>None\<close>: only the eviction loop of \<open>addLine\<close> has one.
\<close>

definition maxTranscriptLines :: nat where [bound_simps]: "maxTranscriptLines = 4096"
definition maxTranscriptBytes :: nat where [bound_simps]: "maxTranscriptBytes = 128 * 1024"
definition maxControlBytes :: nat where [bound_simps]: "maxControlBytes = 4096"

datatype ansiScanState =
    ansiScanText | ansiScanEscape | ansiScanCSI | ansiScanOSC | ansiScanOSCEscape

record ansiTranscript =
  at_lines :: "string list"
  at_totalBytes :: int
  at_pending :: string
  at_pendingStart :: bool
  at_pendingDrop :: bool
  at_savedPending :: string
  at_savedPendingStart :: bool
  at_savedPendingDrop :: bool
  at_state :: ansiScanState
  at_control :: string
  at_style :: ansi_style
  at_savedStyle :: ansi_style
  at_altScreen :: bool

definition new_transcript :: ansiTranscript where
  "new_transcript = \<lparr>at_lines = [], at_totalBytes = 0, at_pending = [], at_pendingStart = False,
     at_pendingDrop = False, at_savedPending = [], at_savedPendingStart = False,
     at_savedPendingDrop = False, at_state = ansiScanText, at_control = [], at_style = default_style,
     at_savedStyle = default_style, at_altScreen = False\<rparr>"

definition style_reset :: string where
  "style_reset = chr_esc # ''[0m''"

definition resetPending :: "ansiTranscript \<Rightarrow> ansiTranscript" where
  "resetPending t = t\<lparr>at_pending := [], at_pendingStart := False, at_pendingDrop := False\<rparr>"

text \<open>
  \<open>appendPending\<close> and \<open>ensurePendingStart\<close> call each other; \<open>pendingStart\<close> is set before the inner
  call, so the recursion is one level deep and \<open>push_pending\<close> is the body behind it.
\<close>

definition push_pending :: "ansiTranscript \<Rightarrow> string \<Rightarrow> ansiTranscript" where
  "push_pending t data =
     (if maxTranscriptBytes < length (at_pending t) + length data
      then t\<lparr>at_pending := [], at_pendingDrop := True\<rparr>
      else t\<lparr>at_pending := at_pending t @ data\<rparr>)"

definition ensurePendingStart :: "ansiTranscript \<Rightarrow> ansiTranscript" where
  "ensurePendingStart t =
     (if at_pendingStart t \<or> at_pendingDrop t then t
      else (let t' = t\<lparr>at_pendingStart := True\<rparr>; pre = sequence (at_style t') in
        if pre \<noteq> [] then push_pending t' pre else t'))"

definition appendPending :: "ansiTranscript \<Rightarrow> string \<Rightarrow> ansiTranscript" where
  "appendPending t data =
     (if at_pendingDrop t \<or> data = [] then t
      else push_pending (if \<not> at_pendingStart t then ensurePendingStart t else t) data)"

text \<open>The eviction loop; \<open>t.lines[0]\<close> with no line left would panic.\<close>

function evict :: "string list \<Rightarrow> int \<Rightarrow> (string list \<times> int) option" where
  "evict ls tot =
     (if maxTranscriptLines < length ls \<or> int maxTranscriptBytes < tot
      then (case ls of [] \<Rightarrow> None | l # ls' \<Rightarrow> evict ls' (tot - int (length l)))
      else Some (ls, tot))"
  by pat_completeness auto
termination by (relation "measure (length \<circ> fst)") auto

declare evict.simps [simp del]

definition addLine :: "ansiTranscript \<Rightarrow> string \<Rightarrow> ansiTranscript option" where
  "addLine t line =
     (if isInternalMarkerLine (CleanTerminalString line) \<or> maxTranscriptBytes < length line
      then Some t
      else map_option (\<lambda>(ls, tot). t\<lparr>at_lines := ls, at_totalBytes := tot\<rparr>)
             (evict (at_lines t @ [line]) (at_totalBytes t + int (length line))))"

definition trim_cr :: "string \<Rightarrow> string" where
  "trim_cr s = (if s \<noteq> [] \<and> last s = chr_cr then butlast s else s)"

definition commitLine :: "ansiTranscript \<Rightarrow> ansiTranscript option" where
  "commitLine t =
     (if at_pendingDrop t then Some (resetPending t)
      else (let line = trim_cr (at_pending t);
                line' = (if line \<noteq> [] \<and> \<not> isDefault (at_style t) then line @ style_reset else line)
            in map_option resetPending (addLine t line')))"

definition appendControlByte :: "ansiTranscript \<Rightarrow> char \<Rightarrow> ansiTranscript" where
  "appendControlByte t b =
     (if length (at_control t) < maxControlBytes then t\<lparr>at_control := at_control t @ [b]\<rparr> else t)"

definition finishControl :: "ansiTranscript \<Rightarrow> ansiTranscript" where
  "finishControl t = t\<lparr>at_control := [], at_state := ansiScanText\<rparr>"

definition hasCSIParameter :: "string \<Rightarrow> int \<Rightarrow> bool" where
  "hasCSIParameter params want \<longleftrightarrow> list_ex (\<lambda>raw. atoi raw = Some want) (split_on CHR '';'' params)"

definition hasAlternateScreenMode :: "string \<Rightarrow> bool" where
  "hasAlternateScreenMode params \<longleftrightarrow>
     hasCSIParameter params 47 \<or> hasCSIParameter params 1047 \<or> hasCSIParameter params 1049"

definition enter_alt :: "ansiTranscript \<Rightarrow> ansiTranscript" where
  "enter_alt t = resetPending (t\<lparr>at_savedStyle := at_style t, at_savedPending := at_pending t,
     at_savedPendingStart := at_pendingStart t, at_savedPendingDrop := at_pendingDrop t,
     at_altScreen := True\<rparr>)"

definition leave_alt :: "ansiTranscript \<Rightarrow> ansiTranscript" where
  "leave_alt t = t\<lparr>at_altScreen := False, at_style := at_savedStyle t,
     at_pending := at_savedPending t, at_pendingStart := at_savedPendingStart t,
     at_pendingDrop := at_savedPendingDrop t, at_savedPending := [],
     at_savedPendingStart := False, at_savedPendingDrop := False\<rparr>"

definition handleCSI :: "ansiTranscript \<Rightarrow> ansiTranscript" where
  "handleCSI t =
     (let control = at_control t in
      if length control < 3 then t
      else (let final = last control; params = drop 2 (butlast control) in
        if (final = CHR ''h'' \<or> final = CHR ''l'') \<and> prefix ''?'' params \<and>
           hasAlternateScreenMode (drop 1 params)
        then (if final = CHR ''h'' \<and> \<not> at_altScreen t then enter_alt t
              else if final = CHR ''l'' \<and> at_altScreen t then leave_alt t
              else t)
        else if final = CHR ''J'' \<and> \<not> at_altScreen t \<and> params = ''3''
        then t\<lparr>at_lines := [], at_totalBytes := 0\<rparr>
        else if final \<noteq> CHR ''m'' \<or> at_altScreen t then t
        else (let t' = appendPending (ensurePendingStart t) control
              in t'\<lparr>at_style := applySGR (at_style t') params\<rparr>)))"

definition writeTextByte :: "ansiTranscript \<Rightarrow> char \<Rightarrow> ansiTranscript option" where
  "writeTextByte t b =
     (if b = chr_esc then Some (t\<lparr>at_state := ansiScanEscape, at_control := [b]\<rparr>)
      else if at_altScreen t then Some t
      else if b = chr_lf then commitLine t
      else if b = chr_cr \<or> b = CHR 0x08 \<or> b = CHR 0x09 then Some (appendPending t [b])
      else if 0x20 \<le> bval b then Some (appendPending t [b])
      else Some t)"

text \<open>One byte through the \<open>switch\<close> of the loop of \<open>Write\<close>.\<close>

definition write_byte :: "ansiTranscript \<Rightarrow> char \<Rightarrow> ansiTranscript option" where
  "write_byte t b =
     (case at_state t of
        ansiScanText \<Rightarrow> writeTextByte t b
      | ansiScanEscape \<Rightarrow>
          (let t' = appendControlByte t b in
           Some (if b = CHR ''['' then t'\<lparr>at_state := ansiScanCSI\<rparr>
                 else if b = CHR '']'' then t'\<lparr>at_state := ansiScanOSC\<rparr>
                 else finishControl t'))
      | ansiScanCSI \<Rightarrow>
          (let t' = appendControlByte t b in
           Some (if 0x40 \<le> bval b \<and> bval b \<le> 0x7E then finishControl (handleCSI t') else t'))
      | ansiScanOSC \<Rightarrow>
          Some (if b = chr_bel then finishControl t
                else if b = chr_esc then t\<lparr>at_state := ansiScanOSCEscape\<rparr>
                else appendControlByte t b)
      | ansiScanOSCEscape \<Rightarrow>
          Some (if b = CHR 0x5C then finishControl t
                else (appendControlByte (appendControlByte t chr_esc) b)\<lparr>at_state := ansiScanOSC\<rparr>))"

abbreviation plain_byte :: "char \<Rightarrow> bool" where
  "plain_byte b \<equiv> 0x20 \<le> bval b"

text \<open>\<open>Write\<close>: runs of plain bytes in text state are appended in one call.\<close>

function transcript_write :: "ansiTranscript \<Rightarrow> string \<Rightarrow> ansiTranscript option" where
  "transcript_write t [] = Some t"
| "transcript_write t (b # bs) =
     (if at_state t = ansiScanText \<and> plain_byte b then
        transcript_write
          (if \<not> at_altScreen t then appendPending t (b # takeWhile plain_byte bs) else t)
          (dropWhile plain_byte bs)
      else Option.bind (write_byte t b) (\<lambda>t'. transcript_write t' bs))"
  by pat_completeness auto
termination
  by (relation "measure (length \<circ> snd)") (auto simp: length_dropWhile_le le_imp_less_Suc)

text \<open>The reference: every byte through the \<open>switch\<close>.\<close>

fun write_bytes :: "ansiTranscript \<Rightarrow> string \<Rightarrow> ansiTranscript option" where
  "write_bytes t [] = Some t"
| "write_bytes t (b # bs) = Option.bind (write_byte t b) (\<lambda>t'. write_bytes t' bs)"

definition transcriptSize :: "string list \<Rightarrow> nat" where
  "transcriptSize ls = sum_list (map length ls) + (length ls - 1)"

fun shrink_lines :: "string list \<Rightarrow> string list" where
  "shrink_lines [] = []"
| "shrink_lines (l # ls) =
     (if maxTranscriptBytes < transcriptSize (l # ls) then shrink_lines ls else l # ls)"

definition pending_line :: "ansiTranscript \<Rightarrow> string list" where
  "pending_line t =
     (if \<not> at_pendingDrop t \<and> 0 < length (at_pending t) then
        (let line = (if \<not> isDefault (at_style t) then at_pending t @ style_reset else at_pending t)
         in if \<not> isInternalMarkerLine (CleanTerminalString line) then [line] else [])
      else [])"

definition RecentLines :: "ansiTranscript \<Rightarrow> int \<Rightarrow> string" where
  "RecentLines t count =
     (if count \<le> 0 then []
      else (let ls = at_lines t @ pending_line t;
                ls' = (if count < int (length ls) then drop (length ls - nat count) ls else ls)
            in join [chr_lf] (shrink_lines ls')))"

subsection \<open>The invariant\<close>

text \<open>
  The byte count is the size of the lines, the limits hold, a dropped or unstarted pending line is
  empty (for the saved line of the main screen too), the styles are well-formed, the control buffer
  is bounded and empty outside control sequences, nothing is pending on the alternate screen, and no
  stored line mentions the completion machinery.
\<close>

definition lines_ok :: "string list \<Rightarrow> int \<Rightarrow> bool" where
  "lines_ok ls tot \<longleftrightarrow> tot = int (sum_list (map length ls)) \<and> tot \<le> int maxTranscriptBytes \<and>
     length ls \<le> maxTranscriptLines \<and> (\<forall>l\<in>set ls. \<not> isInternalMarkerLine (CleanTerminalString l))"

definition pending_ok :: "string \<Rightarrow> bool \<Rightarrow> bool \<Rightarrow> bool" where
  "pending_ok p start drp \<longleftrightarrow> length p \<le> maxTranscriptBytes \<and> (\<not> start \<longrightarrow> p = [] \<and> \<not> drp) \<and>
     (drp \<longrightarrow> p = [])"

definition transcript_inv :: "ansiTranscript \<Rightarrow> bool" where
  "transcript_inv t \<longleftrightarrow>
     lines_ok (at_lines t) (at_totalBytes t) \<and>
     pending_ok (at_pending t) (at_pendingStart t) (at_pendingDrop t) \<and>
     pending_ok (at_savedPending t) (at_savedPendingStart t) (at_savedPendingDrop t) \<and>
     wf_style (at_style t) \<and> wf_style (at_savedStyle t) \<and>
     length (at_control t) \<le> maxControlBytes \<and> (at_state t = ansiScanText \<longrightarrow> at_control t = []) \<and>
     (at_altScreen t \<longrightarrow> at_pending t = [] \<and> \<not> at_pendingStart t \<and> \<not> at_pendingDrop t)"

lemma pending_ok_Nil [simp]: "pending_ok [] False False" "pending_ok [] True d"
  by (simp_all add: pending_ok_def)

lemma inv_init [simp]: "transcript_inv new_transcript"
  by (simp add: transcript_inv_def new_transcript_def lines_ok_def)

lemma evict_ok:
  "tot = int (sum_list (map length ls)) \<Longrightarrow>
     \<exists>ls' tot'. evict ls tot = Some (ls', tot') \<and> suffix ls' ls \<and>
       tot' = int (sum_list (map length ls')) \<and> tot' \<le> int maxTranscriptBytes \<and>
       length ls' \<le> maxTranscriptLines"
proof (induction ls arbitrary: tot)
  case Nil
  then show ?case by (simp add: evict.simps bound_simps)
next
  case (Cons l ls)
  show ?case
  proof (cases "maxTranscriptLines < length (l # ls) \<or> int maxTranscriptBytes < tot")
    case True
    have "tot - int (length l) = int (sum_list (map length ls))" using Cons.prems by simp
    from Cons.IH [OF this] show ?thesis
      using True by (subst evict.simps) (auto intro: suffix_ConsI)
  next
    case False
    then show ?thesis using Cons.prems by (subst evict.simps) auto
  qed
qed

lemma addLine_ok:
  assumes "lines_ok (at_lines t) (at_totalBytes t)"
  shows "\<exists>ls tot. addLine t line = Some (t\<lparr>at_lines := ls, at_totalBytes := tot\<rparr>) \<and> lines_ok ls tot"
proof (cases "isInternalMarkerLine (CleanTerminalString line) \<or> maxTranscriptBytes < length line")
  case True
  then have "addLine t line = Some (t\<lparr>at_lines := at_lines t, at_totalBytes := at_totalBytes t\<rparr>)"
    by (simp add: addLine_def)
  with assms show ?thesis by blast
next
  case False
  have "at_totalBytes t + int (length line) = int (sum_list (map length (at_lines t @ [line])))"
    using assms by (simp add: lines_ok_def)
  from evict_ok [OF this] obtain ls tot where
    e: "evict (at_lines t @ [line]) (at_totalBytes t + int (length line)) = Some (ls, tot)"
      "suffix ls (at_lines t @ [line])" "tot = int (sum_list (map length ls))"
      "tot \<le> int maxTranscriptBytes" "length ls \<le> maxTranscriptLines"
    by blast
  have "set ls \<subseteq> insert line (set (at_lines t))" using set_mono_suffix [OF e(2)] by simp
  then have "lines_ok ls tot" using e False assms by (auto simp: lines_ok_def)
  with e(1) False show ?thesis by (auto simp: addLine_def)
qed

lemma inv_push_pending [preserves]:
  assumes "transcript_inv t" "at_pendingStart t" "\<not> at_altScreen t" "\<not> at_pendingDrop t"
  shows "transcript_inv (push_pending t data) \<and> \<not> at_altScreen (push_pending t data) \<and>
    at_pendingStart (push_pending t data)"
  using assms by (auto simp: transcript_inv_def push_pending_def pending_ok_def)

lemma inv_ensure [preserves]:
  assumes "transcript_inv t" "\<not> at_altScreen t"
  shows "transcript_inv (ensurePendingStart t) \<and> \<not> at_altScreen (ensurePendingStart t) \<and>
    at_pendingStart (ensurePendingStart t) \<and> at_pendingDrop (ensurePendingStart t) = at_pendingDrop t"
proof (cases "at_pendingStart t \<or> at_pendingDrop t")
  case True
  then show ?thesis using assms by (auto simp: ensurePendingStart_def transcript_inv_def pending_ok_def)
next
  case False
  let ?t = "t\<lparr>at_pendingStart := True\<rparr>"
  have "transcript_inv ?t" using assms by (simp add: transcript_inv_def pending_ok_def)
  moreover have "\<not> at_pendingDrop (push_pending ?t (sequence (at_style t)))"
    using False assms length_sequence [of "at_style t"]
    by (simp add: push_pending_def bound_simps transcript_inv_def pending_ok_def)
  ultimately show ?thesis
    using False assms inv_push_pending [of ?t "sequence (at_style t)"]
    by (simp add: ensurePendingStart_def Let_def)
qed

lemma inv_appendPending [preserves]:
  assumes "transcript_inv t" "\<not> at_altScreen t"
  shows "transcript_inv (appendPending t data) \<and> \<not> at_altScreen (appendPending t data)"
  using assms inv_ensure [OF assms] inv_push_pending by (simp add: appendPending_def)

text \<open>The parts of the state an operation leaves alone.\<close>

lemma push_pending_frame [simp]:
  "at_lines (push_pending t d) = at_lines t" "at_totalBytes (push_pending t d) = at_totalBytes t"
  "at_state (push_pending t d) = at_state t" "at_control (push_pending t d) = at_control t"
  "at_style (push_pending t d) = at_style t" "at_altScreen (push_pending t d) = at_altScreen t"
  by (simp_all add: push_pending_def)

lemma ensure_frame [simp]:
  "at_lines (ensurePendingStart t) = at_lines t"
  "at_totalBytes (ensurePendingStart t) = at_totalBytes t"
  "at_state (ensurePendingStart t) = at_state t" "at_control (ensurePendingStart t) = at_control t"
  "at_style (ensurePendingStart t) = at_style t"
  "at_altScreen (ensurePendingStart t) = at_altScreen t"
  by (simp_all add: ensurePendingStart_def Let_def)

lemma appendPending_frame [simp]:
  "at_lines (appendPending t d) = at_lines t" "at_totalBytes (appendPending t d) = at_totalBytes t"
  "at_state (appendPending t d) = at_state t" "at_control (appendPending t d) = at_control t"
  "at_style (appendPending t d) = at_style t" "at_altScreen (appendPending t d) = at_altScreen t"
  by (simp_all add: appendPending_def)

lemma inv_resetPending: "transcript_inv t \<Longrightarrow> transcript_inv (resetPending t)"
  by (simp add: transcript_inv_def resetPending_def)

lemma inv_lines:
  "transcript_inv t \<Longrightarrow> lines_ok ls tot \<Longrightarrow> transcript_inv (t\<lparr>at_lines := ls, at_totalBytes := tot\<rparr>)"
  by (simp add: transcript_inv_def)

lemma commitLine_ok [preserves]:
  assumes "transcript_inv t"
  shows "\<exists>t'. commitLine t = Some t' \<and> transcript_inv t'"
proof -
  have "lines_ok (at_lines t) (at_totalBytes t)" using assms by (simp add: transcript_inv_def)
  from addLine_ok [OF this] show ?thesis
    using assms inv_lines [OF assms] inv_resetPending
    by (fastforce simp: commitLine_def Let_def)
qed

lemma inv_appendControl:
  "transcript_inv t \<Longrightarrow> at_state t \<noteq> ansiScanText \<Longrightarrow> transcript_inv (appendControlByte t b)"
  by (simp add: transcript_inv_def appendControlByte_def)

lemma appendControl_frame [simp]:
  "at_state (appendControlByte t b) = at_state t"
  "at_altScreen (appendControlByte t b) = at_altScreen t"
  by (simp_all add: appendControlByte_def)

lemma inv_finishControl: "transcript_inv t \<Longrightarrow> transcript_inv (finishControl t)"
  by (simp add: transcript_inv_def finishControl_def)

lemma inv_state:
  "transcript_inv t \<Longrightarrow> s \<noteq> ansiScanText \<Longrightarrow> transcript_inv (t\<lparr>at_state := s\<rparr>)"
  by (simp add: transcript_inv_def)

lemma inv_enter_alt: "transcript_inv t \<Longrightarrow> transcript_inv (enter_alt t)"
  by (simp add: transcript_inv_def enter_alt_def resetPending_def)

lemma inv_leave_alt: "transcript_inv t \<Longrightarrow> transcript_inv (leave_alt t)"
  by (simp add: transcript_inv_def leave_alt_def)

lemma inv_sgr:
  assumes "transcript_inv t" "\<not> at_altScreen t" "wf_style s"
  shows "transcript_inv ((appendPending (ensurePendingStart t) c)\<lparr>at_style := applySGR s p\<rparr>)"
proof -
  have "transcript_inv (appendPending (ensurePendingStart t) c)"
    using inv_ensure [OF assms(1,2)] inv_appendPending by blast
  then show ?thesis using wf_applySGR [OF assms(3)] by (simp add: transcript_inv_def)
qed

lemma inv_handleCSI: "transcript_inv t \<Longrightarrow> transcript_inv (handleCSI t)"
  using inv_sgr [of t "at_style t"] inv_enter_alt [of t] inv_leave_alt [of t] inv_lines [of t "[]" 0]
  by (simp add: handleCSI_def Let_def lines_ok_def transcript_inv_def)

lemma writeTextByte_ok:
  assumes "transcript_inv t"
  shows "\<exists>t'. writeTextByte t b = Some t' \<and> transcript_inv t'"
proof -
  have "transcript_inv (t\<lparr>at_state := ansiScanEscape, at_control := [b]\<rparr>)"
    using assms by (simp add: transcript_inv_def bound_simps)
  then show ?thesis
    using assms commitLine_ok [OF assms] inv_appendPending [OF assms]
    by (auto simp: writeTextByte_def)
qed

lemma write_byte_ok [preserves]:
  "transcript_inv t \<Longrightarrow> \<exists>t'. write_byte t b = Some t' \<and> transcript_inv t'"
  using writeTextByte_ok [of t b]
  by (cases "at_state t")
    (auto simp: write_byte_def Let_def inv_appendControl inv_finishControl inv_state inv_handleCSI)

lemma write_bytes_ok: "transcript_inv t \<Longrightarrow> \<exists>t'. write_bytes t bs = Some t' \<and> transcript_inv t'"
proof (induction bs arbitrary: t)
  case (Cons b bs)
  from write_byte_ok [OF Cons.prems] obtain u where "write_byte t b = Some u" "transcript_inv u" by blast
  with Cons.IH [of u] show ?case by simp
qed simp

lemma write_bytes_append:
  "write_bytes t (xs @ ys) = (case write_bytes t xs of None \<Rightarrow> None | Some u \<Rightarrow> write_bytes u ys)"
proof (induction xs arbitrary: t)
  case (Cons x xs)
  then show ?case by (cases "write_byte t x") auto
qed simp

subsection \<open>The fast path\<close>

lemma appendPending_Nil [simp]: "appendPending t [] = t"
  by (simp add: appendPending_def)

lemma appendPending_append:
  assumes "transcript_inv t" "\<not> at_altScreen t"
  shows "appendPending t (xs @ ys) = appendPending (appendPending t xs) ys"
proof (cases "at_pendingDrop t \<or> xs = [] \<or> ys = []")
  case True
  then show ?thesis by (auto simp: appendPending_def)
next
  case False
  define s where "s = (if \<not> at_pendingStart t then ensurePendingStart t else t)"
  have s: "at_pendingStart s" "\<not> at_pendingDrop s"
    using inv_ensure [OF assms] False by (auto simp: s_def)
  have a: "appendPending t d = push_pending s d" if "d \<noteq> []" for d
    using False that by (simp add: appendPending_def s_def)
  have "push_pending s (xs @ ys) = appendPending (push_pending s xs) ys"
    using s False by (auto simp: push_pending_def appendPending_def)
  with False a show ?thesis by simp
qed

lemma write_byte_plain:
  assumes "at_state t = ansiScanText" "plain_byte b"
  shows "write_byte t b = Some (if at_altScreen t then t else appendPending t [b])"
proof -
  have "b \<noteq> chr_esc" "b \<noteq> chr_lf" using assms(2) by auto
  with assms show ?thesis by (simp add: write_byte_def writeTextByte_def)
qed

lemma write_bytes_plain:
  assumes "transcript_inv t" "at_state t = ansiScanText" "\<forall>b\<in>set run. plain_byte b"
  shows "write_bytes t run = Some (if at_altScreen t then t else appendPending t run)"
  using assms
proof (induction run arbitrary: t)
  case (Cons b bs)
  have w: "write_byte t b = Some (if at_altScreen t then t else appendPending t [b])"
    using Cons.prems by (intro write_byte_plain) auto
  show ?case
  proof (cases "at_altScreen t")
    case True
    with w Cons show ?thesis by simp
  next
    case False
    from inv_appendPending [OF Cons.prems(1) False, of "[b]"]
    have "transcript_inv (appendPending t [b])" "\<not> at_altScreen (appendPending t [b])" by simp_all
    with w False Cons.prems Cons.IH [of "appendPending t [b]"] show ?thesis
      by (simp add: appendPending_append [of t "[b]" bs, simplified])
  qed
qed simp

lemma transcript_write_bytes: "transcript_inv t \<Longrightarrow> transcript_write t data = write_bytes t data"
proof (induction t data rule: transcript_write.induct)
  case (2 t b bs)
  show ?case
  proof (cases "at_state t = ansiScanText \<and> plain_byte b")
    case True
    let ?run = "b # takeWhile plain_byte bs" and ?rest = "dropWhile plain_byte bs"
    let ?t = "if \<not> at_altScreen t then appendPending t ?run else t"
    have "\<forall>c\<in>set ?run. plain_byte c" using True by (auto dest: set_takeWhileD)
    with write_bytes_plain [of t ?run] True 2(3) have r: "write_bytes t ?run = Some ?t" by auto
    have "transcript_inv ?t" using 2(3) inv_appendPending by simp
    then have "transcript_write ?t ?rest = write_bytes ?t ?rest" using 2(1) True by blast
    moreover have "write_bytes t (b # bs) = write_bytes ?t ?rest"
      using write_bytes_append [of t ?run ?rest] r by simp
    ultimately show ?thesis using True by simp
  next
    case False
    from write_byte_ok [OF 2(3)] obtain u where "write_byte t b = Some u" "transcript_inv u" by blast
    with False 2(2) [OF False] show ?thesis by auto
  qed
qed simp

interpretation transcript_stream: stream_consumer transcript_write transcript_inv
proof
  fix s :: ansiTranscript and xs ys :: string
  assume inv: "transcript_inv s"
  from write_bytes_ok [OF inv] obtain u where u: "write_bytes s xs = Some u" "transcript_inv u" by blast
  then show "\<exists>s'. transcript_write s xs = Some s' \<and> transcript_inv s'"
    by (simp add: transcript_write_bytes inv)
  show "transcript_write s (xs @ ys) =
      (case transcript_write s xs of None \<Rightarrow> None | Some t \<Rightarrow> transcript_write t ys)"
    using u by (simp add: transcript_write_bytes inv write_bytes_append)
qed simp

subsection \<open>The alternate screen\<close>

text \<open>What survives on the main screen while another program owns the alternate one.\<close>

definition main_screen :: "ansiTranscript \<Rightarrow> string list \<times> int \<times> string \<times> bool \<times> bool \<times> ansi_style" where
  "main_screen t =
     (if at_altScreen t
      then (at_lines t, at_totalBytes t, at_savedPending t, at_savedPendingStart t,
        at_savedPendingDrop t, at_savedStyle t)
      else (at_lines t, at_totalBytes t, at_pending t, at_pendingStart t, at_pendingDrop t,
        at_style t))"

lemma main_screen_upd [simp]:
  "main_screen (t\<lparr>at_state := s\<rparr>) = main_screen t" "main_screen (t\<lparr>at_control := c\<rparr>) = main_screen t"
  by (simp_all add: main_screen_def)

lemma main_screen_control [simp]:
  "main_screen (appendControlByte t b) = main_screen t" "main_screen (finishControl t) = main_screen t"
  by (simp_all add: appendControlByte_def finishControl_def)

lemma main_screen_enter: "\<not> at_altScreen t \<Longrightarrow> main_screen (enter_alt t) = main_screen t"
  and main_screen_leave: "at_altScreen t \<Longrightarrow> main_screen (leave_alt t) = main_screen t"
  by (simp_all add: main_screen_def enter_alt_def leave_alt_def resetPending_def)

lemma main_screen_CSI: "at_altScreen t \<Longrightarrow> main_screen (handleCSI t) = main_screen t"
  by (simp add: handleCSI_def Let_def main_screen_leave)

text \<open>No byte written while the alternate screen is shown changes the main screen.\<close>

lemma main_screen_write_byte:
  assumes "at_altScreen t" "write_byte t b = Some u"
  shows "main_screen u = main_screen t"
  using assms main_screen_CSI [of "appendControlByte t b"]
  by (cases "at_state t") (auto simp: write_byte_def writeTextByte_def Let_def split: if_splits)

fun all_alt :: "ansiTranscript \<Rightarrow> string \<Rightarrow> bool" where
  "all_alt t [] = True"
| "all_alt t (b # bs) =
     (at_altScreen t \<and> (case write_byte t b of None \<Rightarrow> False | Some u \<Rightarrow> all_alt u bs))"

lemma main_screen_write_bytes:
  "all_alt t bs \<Longrightarrow> write_bytes t bs = Some u \<Longrightarrow> main_screen u = main_screen t"
  by (induction t bs rule: all_alt.induct)
    (auto split: option.splits dest: main_screen_write_byte)

subsection \<open>Scanning one control sequence\<close>

lemma write_bytes_parameters:
  assumes "at_state t = ansiScanCSI" "\<forall>b\<in>set raw. bval b < 0x40"
    "length (at_control t) + length raw \<le> maxControlBytes"
  shows "write_bytes t raw = Some (t\<lparr>at_control := at_control t @ raw\<rparr>)"
  using assms
proof (induction raw arbitrary: t)
  case (Cons b raw)
  have "write_byte t b = Some (t\<lparr>at_control := at_control t @ [b]\<rparr>)"
    using Cons.prems by (simp add: write_byte_def appendControlByte_def Let_def)
  with Cons show ?case by simp
qed simp

lemma control_state_swap:
  "t\<lparr>at_control := c, at_state := s\<rparr> = t\<lparr>at_state := s, at_control := c\<rparr>"
  by simp

lemma write_bytes_CSI:
  assumes "transcript_inv t" "at_state t = ansiScanText"
    and "\<forall>b\<in>set raw. bval b < 0x40" "length raw \<le> 4000" "0x40 \<le> bval f" "bval f \<le> 0x7E"
  shows "write_bytes t (chr_esc # CHR ''['' # raw @ [f]) =
    Some (finishControl (handleCSI
      (t\<lparr>at_state := ansiScanCSI, at_control := chr_esc # CHR ''['' # raw @ [f]\<rparr>)))"
proof -
  let ?c = "t\<lparr>at_state := ansiScanCSI, at_control := [chr_esc, CHR ''['']\<rparr>"
  have "write_bytes ?c raw = Some (?c\<lparr>at_control := chr_esc # CHR ''['' # raw\<rparr>)"
    using assms(3,4) by (subst write_bytes_parameters) (simp_all add: bound_simps)
  moreover have "write_bytes t (chr_esc # CHR ''['' # raw @ [f]) = write_bytes ?c (raw @ [f])"
    using assms(2)
    by (simp add: write_byte_def writeTextByte_def appendControlByte_def Let_def bound_simps
        control_state_swap)
  ultimately show ?thesis
    using assms(4-6) by (simp add: write_bytes_append write_byte_def appendControlByte_def Let_def bound_simps)
qed

definition alt_params :: string where "alt_params = ''?1049''"

lemma alt_params_mode: "hasAlternateScreenMode (drop 1 alt_params)" "prefix ''?'' alt_params"
  by (simp_all add: alt_params_def hasAlternateScreenMode_def hasCSIParameter_def atoi_def
      digits_value_def is_digit_def Let_def)

lemma alt_params_bytes: "\<forall>b\<in>set alt_params. bval b < 0x40" "length alt_params \<le> 4000"
  by (simp_all add: alt_params_def)

lemma enter_sequence:
  assumes "transcript_inv t" "at_state t = ansiScanText" "\<not> at_altScreen t"
  shows "\<exists>u. write_bytes t (chr_esc # CHR ''['' # alt_params @ ''h'') = Some u \<and> at_altScreen u \<and>
    at_state u = ansiScanText \<and> main_screen u = main_screen t"
proof -
  let ?c = "t\<lparr>at_state := ansiScanCSI, at_control := chr_esc # CHR ''['' # alt_params @ ''h''\<rparr>"
  have "handleCSI ?c = enter_alt ?c"
    using alt_params_mode assms(3) by (simp add: handleCSI_def Let_def alt_params_def butlast_append)
  then have "write_bytes t (chr_esc # CHR ''['' # alt_params @ ''h'') = Some (finishControl (enter_alt ?c))"
    using write_bytes_CSI [OF assms(1,2) alt_params_bytes, of "CHR ''h''"] by simp
  moreover have "main_screen (finishControl (enter_alt ?c)) = main_screen t"
    using assms(3) main_screen_enter [of ?c] by simp
  moreover have "at_altScreen (finishControl (enter_alt ?c))"
    "at_state (finishControl (enter_alt ?c)) = ansiScanText"
    by (simp_all add: finishControl_def enter_alt_def resetPending_def)
  ultimately show ?thesis by blast
qed

lemma leave_sequence:
  assumes "transcript_inv t" "at_state t = ansiScanText" "at_altScreen t"
  shows "\<exists>u. write_bytes t (chr_esc # CHR ''['' # alt_params @ ''l'') = Some u \<and> \<not> at_altScreen u \<and>
    at_state u = ansiScanText \<and> main_screen u = main_screen t"
proof -
  let ?c = "t\<lparr>at_state := ansiScanCSI, at_control := chr_esc # CHR ''['' # alt_params @ ''l''\<rparr>"
  have "handleCSI ?c = leave_alt ?c"
    using alt_params_mode assms(3) by (simp add: handleCSI_def Let_def alt_params_def butlast_append)
  then have "write_bytes t (chr_esc # CHR ''['' # alt_params @ ''l'') = Some (finishControl (leave_alt ?c))"
    using write_bytes_CSI [OF assms(1,2) alt_params_bytes, of "CHR ''l''"] by simp
  moreover have "main_screen (finishControl (leave_alt ?c)) = main_screen t"
    using assms(3) main_screen_leave [of ?c] by simp
  moreover have "\<not> at_altScreen (finishControl (leave_alt ?c))"
    "at_state (finishControl (leave_alt ?c)) = ansiScanText"
    by (simp_all add: finishControl_def leave_alt_def)
  ultimately show ?thesis by blast
qed

lemma RecentLines_main_screen:
  "\<not> at_altScreen t \<Longrightarrow> \<not> at_altScreen u \<Longrightarrow> main_screen t = main_screen u \<Longrightarrow>
     RecentLines t n = RecentLines u n"
  by (simp add: main_screen_def RecentLines_def pending_line_def)

subsection \<open>Recent lines\<close>

lemma shrink_lines_suffix: "suffix (shrink_lines ls) ls"
  by (induction ls) (auto intro: suffix_ConsI)

lemma shrink_lines_size: "transcriptSize (shrink_lines ls) \<le> maxTranscriptBytes"
  by (induction ls) (auto simp: transcriptSize_def)

lemma pending_line_clean: "l \<in> set (pending_line t) \<Longrightarrow> \<not> isInternalMarkerLine (CleanTerminalString l)"
  by (auto simp: pending_line_def Let_def split: if_splits)

lemma sgr_sequence:
  assumes "transcript_inv t" "at_state t = ansiScanText" "\<not> at_altScreen t"
    "\<forall>b\<in>set raw. bval b < 0x40" "\<not> prefix ''?'' raw" "length raw \<le> 4000"
  shows "\<exists>u. write_bytes t (chr_esc # CHR ''['' # raw @ ''m'') = Some u \<and>
    at_style u = applySGR (at_style t) raw \<and> at_state u = ansiScanText"
proof -
  let ?c = "t\<lparr>at_state := ansiScanCSI, at_control := chr_esc # CHR ''['' # raw @ ''m''\<rparr>"
  have "at_style (handleCSI ?c) = applySGR (at_style t) raw"
    using assms(3) by (simp add: handleCSI_def Let_def butlast_append)
  then have "at_style (finishControl (handleCSI ?c)) = applySGR (at_style t) raw"
    "at_state (finishControl (handleCSI ?c)) = ansiScanText"
    by (simp_all add: finishControl_def)
  with write_bytes_CSI [OF assms(1,2,4,6), of "CHR ''m''"] show ?thesis by simp
qed

subsection \<open>Properties\<close>

text \<open>C25: However the PTY's output is cut into writes, the transcript never panics, ends in the state
one write of the whole output gives, and keeps its limits: at most 4096 lines of at most 131072 bytes
in total (the byte count is exact), a pending line within the same limit, a control buffer of at most
4096 bytes, and no stored line that mentions the completion machinery.\<close>

lemma transcript_bounded_and_chunk_independent:
  "\<exists>t. feed_all transcript_write new_transcript writes = Some t \<and>
     transcript_write new_transcript (concat writes) = Some t \<and>
     length (at_lines t) \<le> 4096 \<and> at_totalBytes t = int (sum_list (map length (at_lines t))) \<and>
     at_totalBytes t \<le> 131072 \<and> length (at_pending t) \<le> 131072 \<and> length (at_control t) \<le> 4096 \<and>
     list_all (\<lambda>l. \<not> isInternalMarkerLine (CleanTerminalString l)) (at_lines t)"
proof -
  obtain t where t: "feed_all transcript_write new_transcript writes = Some t" "transcript_inv t"
    using transcript_stream.feed_all_ok [OF inv_init] by blast
  then have "transcript_write new_transcript (concat writes) = Some t"
    by (simp add: transcript_stream.feed_all_concat)
  with t show ?thesis
    by (auto simp: transcript_inv_def lines_ok_def pending_ok_def bound_simps list_all_iff)
qed

text \<open>The fast path of \<open>Write\<close>, which appends a run of plain bytes at once, is equivalent to
passing every byte through the state machine, in every state the invariant allows.\<close>

lemma transcript_fast_path:
  assumes "transcript_inv t"
  shows "transcript_write t data = write_bytes t data"
  using transcript_write_bytes [OF assms] .

lemma transcript_fast_path_witness:
  "transcript_write new_transcript (''ls'' @ [chr_cr, chr_lf] @ ''done'') =
     write_bytes new_transcript (''ls'' @ [chr_cr, chr_lf] @ ''done'')"
  by (rule transcript_fast_path) simp

text \<open>C26: What a program draws on the alternate screen leaves no trace: after the sequence that
enters it, any output that does not leave it and ends outside a control sequence, and the sequence
that leaves it, the transcript shows what it showed before: the same recent lines, pending line and
style.\<close>

lemma alternate_screen_isolated:
  assumes "transcript_inv t" "at_state t = ansiScanText" "\<not> at_altScreen t"
    and "transcript_write t (chr_esc # ''[?1049h'') = Some u"
    and "all_alt u body" "transcript_write u body = Some v" "at_state v = ansiScanText" "at_altScreen v"
  shows "\<exists>w. transcript_write v (chr_esc # ''[?1049l'') = Some w \<and> RecentLines w n = RecentLines t n \<and>
    at_pending w = at_pending t \<and> at_style w = at_style t \<and> \<not> at_altScreen w"
proof -
  have s: "transcript_write t (chr_esc # CHR ''['' # alt_params @ ''h'') = Some u"
    using assms(4) by (simp only: alt_params_def append.simps)
  then have u: "transcript_inv u" "main_screen u = main_screen t"
    using transcript_stream.feed_total [OF assms(1)] enter_sequence [OF assms(1-3)]
    by (metis option.inject, metis option.inject transcript_write_bytes [OF assms(1)])
  have v: "transcript_inv v" using transcript_stream.feed_total [OF u(1)] assms(6) by (metis option.inject)
  have m: "main_screen v = main_screen t"
    using main_screen_write_bytes [OF assms(5)] assms(6) u by (simp add: transcript_write_bytes)
  from leave_sequence [OF v assms(7,8)] obtain w where w:
    "write_bytes v (chr_esc # CHR ''['' # alt_params @ ''l'') = Some w" "\<not> at_altScreen w"
    "main_screen w = main_screen v" by blast
  have "transcript_write v (chr_esc # ''[?1049l'') = Some w"
    using w(1) by (simp only: transcript_write_bytes [OF v] alt_params_def append.simps)
  moreover have "main_screen w = main_screen t" using w m by simp
  ultimately show ?thesis
    using w(2) assms(3) RecentLines_main_screen [of w t n] by (auto simp: main_screen_def)
qed

lemma alternate_screen_isolated_witness:
  "\<exists>u v w. transcript_write new_transcript (chr_esc # ''[?1049h'') = Some u \<and>
     transcript_write u ''vi'' = Some v \<and> transcript_write v (chr_esc # ''[?1049l'') = Some w \<and>
     RecentLines w 5 = RecentLines new_transcript 5"
proof -
  have 3: "at_state new_transcript = ansiScanText" "\<not> at_altScreen new_transcript"
    by (simp_all add: new_transcript_def)
  obtain u where u: "write_bytes new_transcript (chr_esc # CHR ''['' # alt_params @ ''h'') = Some u"
    "at_altScreen u" "at_state u = ansiScanText"
    using enter_sequence [OF inv_init 3] by blast
  have 1: "transcript_write new_transcript (chr_esc # ''[?1049h'') = Some u"
    using u(1) by (simp only: transcript_write_bytes [OF inv_init] alt_params_def append.simps)
  have 2: "all_alt u ''vi''" "transcript_write u ''vi'' = Some u"
    using u(2,3) by (simp_all add: write_byte_def writeTextByte_def)
  from alternate_screen_isolated [OF inv_init 3 1 2 u(3,2), of 5] 1 2(2) show ?thesis by blast
qed

text \<open>\<open>RecentLines\<close> returns at most 131072 bytes, namely the last lines (the pending one
included) joined with line feeds: never more than asked for, and none that mentions the completion
machinery.\<close>

lemma recent_lines_bounded:
  assumes "transcript_inv t"
  shows "length (RecentLines t count) \<le> 131072 \<and>
    (\<exists>ls. RecentLines t count = join [chr_lf] ls \<and> suffix ls (at_lines t @ pending_line t) \<and>
       int (length ls) \<le> max 0 count \<and> (\<forall>l\<in>set ls. \<not> isInternalMarkerLine (CleanTerminalString l)))"
proof (cases "count \<le> 0")
  case True
  then show ?thesis by (auto simp: RecentLines_def intro: exI [of _ "[]"])
next
  case False
  define all where "all = at_lines t @ pending_line t"
  define cutl where "cutl = (if count < int (length all) then drop (length all - nat count) all else all)"
  define ls where "ls = shrink_lines cutl"
  have r: "RecentLines t count = join [chr_lf] ls"
    using False by (simp add: RecentLines_def Let_def ls_def cutl_def all_def)
  have s: "suffix ls cutl" "suffix cutl all" "length cutl \<le> nat count"
    using False by (auto simp: ls_def cutl_def shrink_lines_suffix suffix_drop)
  have "\<forall>l\<in>set all. \<not> isInternalMarkerLine (CleanTerminalString l)"
    using assms pending_line_clean by (auto simp: all_def transcript_inv_def lines_ok_def)
  then have "\<forall>l\<in>set ls. \<not> isInternalMarkerLine (CleanTerminalString l)"
    using s set_mono_suffix by blast
  moreover have "length ls \<le> nat count" using s suffix_length_le [of ls cutl] by simp
  moreover have "length (join [chr_lf] ls) \<le> 131072"
    using shrink_lines_size [of cutl] by (simp add: length_join ls_def transcriptSize_def bound_simps)
  moreover have "suffix ls all" using s suffix_order.trans by blast
  ultimately show ?thesis using False r by (auto simp: all_def)
qed

lemma recent_lines_bounded_witness:
  "transcript_inv new_transcript \<and> length (RecentLines new_transcript 3) \<le> 131072"
  using recent_lines_bounded [of new_transcript 3] by simp

text \<open>The scanner recovers a style from the sequence written for it: a transcript in the default
style that reads \<open>sequence s\<close> is in style \<open>s\<close>, for every well-formed style \<open>s\<close>.\<close>

lemma style_restored_by_scanner:
  assumes "transcript_inv t" "at_state t = ansiScanText" "\<not> at_altScreen t"
    and "at_style t = default_style" "wf_style s"
  shows "\<exists>u. transcript_write t (sequence s) = Some u \<and> at_style u = s \<and> at_state u = ansiScanText"
  using sequence_cases [OF assms(5)]
proof (elim disjE exE conjE)
  fix raw
  assume raw: "sequence s = chr_esc # CHR ''['' # raw @ ''m''" "applySGR default_style raw = s"
    "\<forall>c\<in>set raw. is_digit c \<or> c = CHR '';''" "length raw \<le> 197"
  then have "\<forall>c\<in>set raw. bval c < 0x40" by (fastforce simp: is_digit_def)
  moreover have "\<not> prefix ''?'' raw" using raw(3) by (cases raw) (auto simp: is_digit_def)
  ultimately show ?thesis
    using sgr_sequence [OF assms(1-3), of raw] raw(2,4) assms(4)
    unfolding transcript_write_bytes [OF assms(1)] raw(1) by simp
qed (use assms in simp)

lemma style_restored_by_scanner_witness:
  "\<exists>u. transcript_write new_transcript (sequence example_style) = Some u \<and> at_style u = example_style"
proof -
  have "wf_style example_style"
    by (simp add: wf_style_def example_style_def default_style_def wf_color_def rgbColor_def indexedColor_def)
  moreover have "at_state new_transcript = ansiScanText" "\<not> at_altScreen new_transcript"
    "at_style new_transcript = default_style"
    by (simp_all add: new_transcript_def)
  ultimately show ?thesis using style_restored_by_scanner [OF inv_init] by blast
qed

text \<open>One recent line is not always one line of text: a line feed inside a control sequence, which
a terminal executes, is kept in the transcript's line, so asking for one recent line after
\<open>ESC [ LF m X\<close> returns two.\<close>

lemma recent_line_with_line_feed:
  "\<exists>t. transcript_write new_transcript [chr_esc, CHR ''['', chr_lf, CHR ''m'', CHR ''X''] = Some t \<and>
     RecentLines t 1 = [chr_esc, CHR ''['', chr_lf, CHR ''m'', CHR ''X''] \<and>
     length (split_on chr_lf (RecentLines t 1)) = 2"
proof -
  let ?l = "[chr_esc, CHR ''['', chr_lf, CHR ''m'', CHR ''X'']"
  let ?t = "new_transcript\<lparr>at_pendingStart := True, at_pending := ?l\<rparr>"
  have s: "applySGR default_style [chr_lf] = default_style" "sequence default_style = []"
    by (simp_all add: applySGR_def parseSGRParameters_def atoi_def is_digit_def default_style_def
        sequence_def style_params_def style_flags_def appendColor_def no_color_def Let_def)
  have w: "write_bytes new_transcript ?l = Some ?t"
    by (simp add: new_transcript_def write_byte_def writeTextByte_def appendControlByte_def Let_def
        bound_simps handleCSI_def ensurePendingStart_def appendPending_def push_pending_def
        finishControl_def s)
  have "runes ?l = [0x1B, 91, 10, 109, 88]"
    by (subst runes_ascii) simp_all
  then have "CleanTerminalString ?l = ''X''"
    by (simp add: CleanTerminalString_def WriteString_def NewTerminalCleaner_def clean_rune_def
        clean_normal_def applyPendingCR_def writeRune_def isAllowedTextRune_def Flush_def flushLine_def
        encode_rune_ascii Let_def trim_right_def)
  moreover have "\<not> isInternalMarkerLine ''X''"
    by (simp add: isInternalMarkerLine_def internal_markers_def contains_def sublist_Cons_right)
  ultimately have "pending_line ?t = [?l]"
    by (simp add: pending_line_def new_transcript_def isDefault_def)
  then have "RecentLines ?t 1 = ?l"
    by (simp add: RecentLines_def new_transcript_def transcriptSize_def bound_simps Let_def)
  moreover have "transcript_write new_transcript ?l = Some ?t"
    using w by (simp only: transcript_write_bytes [OF inv_init])
  moreover have "length (split_on chr_lf ?l) = 2" by simp
  ultimately show ?thesis by metis
qed

end
