(* ===== verification/Local_Stream.thy ===== *)
theory Local_Stream
  imports Go_Library "HOL-Library.Word"
begin

section \<open>Framed local streams (internal/server/local_stream.go)\<close>

text \<open>
  A streaming request answers with frames: a magic, a version, a type byte, a 32-bit big-endian
  length and the payload. A reader is the bytes it still has to give; a writer is a function from
  its state and the data to its new state, the number of bytes it took and an error.
\<close>

definition LocalStreamVersion :: nat where "LocalStreamVersion = 1"
definition LocalStreamMagic :: string where "LocalStreamMagic = ''PTMX''"
definition MaxLocalStreamDataBytes :: nat where [bound_simps]: "MaxLocalStreamDataBytes = 64 * 1024"
definition MaxLocalStreamErrorBytes :: nat where [bound_simps]: "MaxLocalStreamErrorBytes = 4 * 1024"
definition localStreamHeaderBytes :: nat where
  "localStreamHeaderBytes = length LocalStreamMagic + 1 + 1 + 4"

type_synonym frame_type = "8 word"

definition LocalStreamFrameStarted :: frame_type where "LocalStreamFrameStarted = 1"
definition LocalStreamFrameData :: frame_type where "LocalStreamFrameData = 2"
definition LocalStreamFrameError :: frame_type where "LocalStreamFrameError = 3"
definition LocalStreamFrameEnd :: frame_type where "LocalStreamFrameEnd = 4"

lemmas frame_types = LocalStreamFrameStarted_def LocalStreamFrameData_def LocalStreamFrameError_def
  LocalStreamFrameEnd_def

text \<open>The errors of this file; \<open>Writer_error\<close> is an error of the writer below, and \<open>Panic\<close> the
slice \<open>data[n:]\<close> out of range, when a writer reports more bytes than it was given.\<close>

datatype 'e stream_error =
    Unknown_frame_type
  | Control_frame_not_empty
  | Frame_too_long nat
  | Short_write
  | Read_EOF
  | Read_unexpected_EOF
  | Bad_magic
  | Bad_version
  | Writer_error 'e
  | Panic

definition localStreamFrameRules :: "frame_type \<Rightarrow> 'e stream_error + nat \<times> bool" where
  "localStreamFrameRules t =
     (if t = LocalStreamFrameStarted \<or> t = LocalStreamFrameEnd then Inr (0, True)
      else if t = LocalStreamFrameData then Inr (MaxLocalStreamDataBytes, False)
      else if t = LocalStreamFrameError then Inr (MaxLocalStreamErrorBytes, False)
      else Inl Unknown_frame_type)"

text \<open>\<open>binary.BigEndian.PutUint32\<close> and \<open>Uint32\<close>.\<close>

definition put_uint32 :: "nat \<Rightarrow> string" where
  "put_uint32 n = [char_of (n div 16777216 mod 256), char_of (n div 65536 mod 256),
     char_of (n div 256 mod 256), char_of (n mod 256)]"

definition get_uint32 :: "string \<Rightarrow> nat" where
  "get_uint32 s = foldl (\<lambda>n c. n * 256 + bval c) 0 s"

definition frame_header :: "frame_type \<Rightarrow> nat \<Rightarrow> string" where
  "frame_header t len =
     LocalStreamMagic @ [char_of LocalStreamVersion, char_of (unat t)] @ put_uint32 len"

subsection \<open>Writing\<close>

type_synonym ('s, 'e) writer = "'s \<Rightarrow> string \<Rightarrow> 's \<times> int \<times> 'e option"

function writeAll :: "('s, 'e) writer \<Rightarrow> 's \<Rightarrow> string \<Rightarrow> 's \<times> 'e stream_error option" where
  "writeAll write s [] = (s, None)"
| "writeAll write s (c # cs) =
     (let (s', n, err) = write s (c # cs) in
      case err of
        Some e \<Rightarrow> (s', Some (Writer_error e))
      | None \<Rightarrow>
          (if n \<le> 0 then (s', Some Short_write)
           else if int (length (c # cs)) < n then (s', Some Panic)
           else writeAll write s' (drop (nat n) (c # cs))))"
  by pat_completeness auto
termination
  by (relation "measure (\<lambda>(_, _, d). length d)") auto

definition WriteLocalStreamFrame ::
  "('s, 'e) writer \<Rightarrow> 's \<Rightarrow> frame_type \<Rightarrow> string \<Rightarrow> 's \<times> 'e stream_error option" where
  "WriteLocalStreamFrame write s t payload =
     (case localStreamFrameRules t of
        Inl e \<Rightarrow> (s, Some e)
      | Inr (maxPayload, control) \<Rightarrow>
          (if control \<and> length payload \<noteq> 0 then (s, Some Control_frame_not_empty)
           else if 0 < maxPayload \<and> maxPayload < length payload then (s, Some (Frame_too_long maxPayload))
           else (case writeAll write s (frame_header t (length payload)) of
               (s', Some e) \<Rightarrow> (s', Some e)
             | (s', None) \<Rightarrow> writeAll write s' payload)))"

text \<open>\<open>LocalStreamWriter.Write\<close>: the bytes written so far are counted in \<open>written\<close>.\<close>

function write_frames ::
  "('s, 'e) writer \<Rightarrow> 's \<Rightarrow> int \<Rightarrow> string \<Rightarrow> 's \<times> int \<times> 'e stream_error option" where
  "write_frames write s written [] = (s, written, None)"
| "write_frames write s written (c # cs) =
     (let size = min (length (c # cs)) MaxLocalStreamDataBytes in
      case WriteLocalStreamFrame write s LocalStreamFrameData (take size (c # cs)) of
        (s', Some e) \<Rightarrow> (s', written, Some e)
      | (s', None) \<Rightarrow> write_frames write s' (written + int size) (drop size (c # cs)))"
  by pat_completeness auto
termination
  by (relation "measure (\<lambda>(_, _, _, d). length d)") (auto simp: bound_simps)

definition LocalStreamWriter_Write :: "('s, 'e) writer \<Rightarrow> ('s, 'e stream_error) writer" where
  "LocalStreamWriter_Write write s data = write_frames write s 0 data"

subsection \<open>Reading\<close>

text \<open>\<open>io.ReadFull\<close> of \<open>n\<close> bytes.\<close>

definition read_full :: "nat \<Rightarrow> string \<Rightarrow> 'e stream_error + string \<times> string" where
  "read_full n s =
     (if n \<le> length s then Inr (take n s, drop n s)
      else if s = [] then Inl Read_EOF else Inl Read_unexpected_EOF)"

definition ReadLocalStreamFrame ::
  "string \<Rightarrow> 'e stream_error + frame_type \<times> string \<times> string" where
  "ReadLocalStreamFrame reader =
     bind_err (read_full localStreamHeaderBytes reader) (\<lambda>(header, reader).
       if take (length LocalStreamMagic) header \<noteq> LocalStreamMagic then Inl Bad_magic
       else if bval (header ! length LocalStreamMagic) \<noteq> LocalStreamVersion then Inl Bad_version
       else (let t = of_nat (bval (header ! (length LocalStreamMagic + 1)));
                 len = get_uint32 (drop (length LocalStreamMagic + 2) header) in
         bind_err (localStreamFrameRules t) (\<lambda>(maxPayload, control).
           if control \<and> len \<noteq> 0 then Inl Control_frame_not_empty
           else if 0 < maxPayload \<and> maxPayload < len then Inl (Frame_too_long maxPayload)
           else bind_err (read_full len reader) (\<lambda>(payload, reader). Inr (t, payload, reader)))))"

subsection \<open>Frames on the wire\<close>

text \<open>The specification: which frames may be sent and the bytes of one.\<close>

definition frame_ok :: "frame_type \<Rightarrow> string \<Rightarrow> bool" where
  "frame_ok t payload \<longleftrightarrow>
     ((t = LocalStreamFrameStarted \<or> t = LocalStreamFrameEnd) \<and> payload = []) \<or>
     (t = LocalStreamFrameData \<and> length payload \<le> 65536) \<or>
     (t = LocalStreamFrameError \<and> length payload \<le> 4096)"

definition frame_bytes :: "frame_type \<Rightarrow> string \<Rightarrow> string" where
  "frame_bytes t payload = frame_header t (length payload) @ payload"

lemma get_put_uint32:
  assumes "n < 2 ^ 32"
  shows "get_uint32 (put_uint32 n) = n"
proof -
  have a: "n div 16777216 mod 256 = n div 16777216"
    using assms by (simp add: less_mult_imp_div_less)
  have d: "n div 16777216 = n div 65536 div 256" "n div 65536 = n div 256 div 256"
    using div_mult2_eq [of n 65536 256] div_mult2_eq [of n 256 256] by simp_all
  have e: "((n div 16777216 mod 256 * 256 + n div 65536 mod 256) * 256 + n div 256 mod 256) * 256 + n mod 256 = n"
    unfolding a unfolding d(1) div_mult_mod_eq unfolding d(2) div_mult_mod_eq ..
  have v: "bval (char_of (k mod 256)) = k mod 256" for k :: nat by simp
  show ?thesis
    unfolding get_uint32_def put_uint32_def foldl_Cons foldl_Nil v mult_0 add_0 by (rule e)
qed

lemma length_frame_header [simp]: "length (frame_header t n) = localStreamHeaderBytes"
  by (simp add: frame_header_def put_uint32_def localStreamHeaderBytes_def)

lemma frame_type_neq [simp]:
  "LocalStreamFrameData \<noteq> LocalStreamFrameStarted" "LocalStreamFrameData \<noteq> LocalStreamFrameEnd"
  "LocalStreamFrameError \<noteq> LocalStreamFrameStarted" "LocalStreamFrameError \<noteq> LocalStreamFrameEnd"
  "LocalStreamFrameError \<noteq> LocalStreamFrameData" "LocalStreamFrameEnd \<noteq> LocalStreamFrameStarted"
  by (simp_all add: frame_types)

lemmas frame_type_neq_sym [simp] = frame_type_neq [symmetric]

lemma frame_rules_ok:
  assumes "frame_ok t p"
  shows "\<exists>m c. localStreamFrameRules t = Inr (m, c) \<and> \<not> (c \<and> length p \<noteq> 0) \<and> \<not> (0 < m \<and> m < length p)"
  using assms unfolding frame_ok_def
  by (elim disjE conjE) (auto simp: localStreamFrameRules_def bound_simps)

lemma frame_rules_ok_iff:
  "localStreamFrameRules t = Inr (m, c) \<Longrightarrow> \<not> (c \<and> length p \<noteq> 0) \<Longrightarrow> \<not> (0 < m \<and> m < length p) \<Longrightarrow>
     frame_ok t p"
  by (simp add: frame_ok_def localStreamFrameRules_def bound_simps not_less split: if_splits)

lemma frame_ok_length: "frame_ok t p \<Longrightarrow> length p < 2 ^ 32"
  by (auto simp: frame_ok_def)

lemma header_fields:
  fixes t :: frame_type
  shows "take (length LocalStreamMagic) (frame_header t n) = LocalStreamMagic"
    "bval (frame_header t n ! length LocalStreamMagic) = LocalStreamVersion"
    "of_nat (bval (frame_header t n ! (length LocalStreamMagic + 1))) = t"
    "drop (length LocalStreamMagic + 2) (frame_header t n) = put_uint32 n"
proof -
  have "unat t < 256" using unsigned_less [of t] by simp
  then show "of_nat (bval (frame_header t n ! (length LocalStreamMagic + 1))) = t"
    by (simp add: frame_header_def LocalStreamMagic_def)
qed (simp_all add: frame_header_def LocalStreamMagic_def LocalStreamVersion_def)

lemma read_frame_bytes:
  assumes "frame_ok t p"
  shows "(ReadLocalStreamFrame (frame_bytes t p @ rest) :: 'e stream_error + _) = Inr (t, p, rest)"
proof -
  obtain m c where r: "(localStreamFrameRules t :: 'e stream_error + _) = Inr (m, c)" "\<not> (c \<and> length p \<noteq> 0)"
    "\<not> (0 < m \<and> m < length p)" using frame_rules_ok [OF assms] by blast
  have h: "(read_full localStreamHeaderBytes (frame_bytes t p @ rest) :: 'e stream_error + _) =
    Inr (frame_header t (length p), p @ rest)"
    by (simp add: read_full_def frame_bytes_def)
  have p: "(read_full (length p) (p @ rest) :: 'e stream_error + _) = Inr (p, rest)" by (simp add: read_full_def)
  have l: "get_uint32 (put_uint32 (length p)) = length p"
    using frame_ok_length [OF assms] by (rule get_put_uint32)
  show ?thesis
    unfolding ReadLocalStreamFrame_def h bind_err_simps Let_def prod.case header_fields l r(1)
    using r(2,3) p by simp
qed

lemma put_get_uint32: "length s = 4 \<Longrightarrow> put_uint32 (get_uint32 s) = s"
proof -
  assume "length s = 4"
  then obtain a b c d where s: "s = [a, b, c, d]"
    by (auto simp: length_Suc_conv numeral_eq_Suc)
  let ?a = "bval a" and ?b = "bval b" and ?c = "bval c" and ?d = "bval d"
  let ?n = "((?a * 256 + ?b) * 256 + ?c) * 256 + ?d"
  have dm: "(q * 256 + r) div 256 = q" "(q * 256 + r) mod 256 = r" if "r < 256" for q r :: nat
    using that by simp_all
  have b: "?a < 256" "?b < 256" "?c < 256" "?d < 256" by simp_all
  have e1: "?n div 256 = (?a * 256 + ?b) * 256 + ?c" "?n mod 256 = ?d"
    by (rule dm(1) [OF b(4)], rule dm(2) [OF b(4)])
  have d2: "?n div 65536 = ?n div 256 div 256" using div_mult2_eq [of ?n 256 256] by simp
  have e2: "?n div 65536 = ?a * 256 + ?b" "?n div 256 mod 256 = ?c"
    unfolding d2 e1 by (rule dm(1) [OF b(3)], rule dm(2) [OF b(3)])
  have d3: "?n div 16777216 = ?n div 65536 div 256" using div_mult2_eq [of ?n 65536 256] by simp
  have e3: "?n div 16777216 = ?a" "?n div 65536 mod 256 = ?b"
    unfolding d3 e2 by (rule dm(1) [OF b(2)], rule dm(2) [OF b(2)])
  have a: "?a mod 256 = ?a" by simp
  have "get_uint32 s = ?n" unfolding s get_uint32_def foldl_Cons foldl_Nil mult_0 add_0 ..
  then show ?thesis
    unfolding put_uint32_def by (simp only: e1 e2(1) e3(1) dm(2) [OF b(2)] dm(2) [OF b(3)] a s char_of_bval [OF refl])
qed

text \<open>A frame that was read is a frame that may be sent, and its bytes are those read.\<close>

lemma read_full_Inr: "read_full n s = Inr (a, b) \<Longrightarrow> s = a @ b \<and> length a = n"
  by (auto simp: read_full_def split: if_splits)

lemma read_frame_inv:
  assumes "(ReadLocalStreamFrame s :: 'e stream_error + _) = Inr (t, p, rest)"
  shows "frame_ok t p \<and> s = frame_bytes t p @ rest"
proof -
  let ?h = "take localStreamHeaderBytes s" and ?r = "drop localStreamHeaderBytes s"
  let ?len = "get_uint32 (drop (length LocalStreamMagic + 2) ?h)"
  have l: "localStreamHeaderBytes \<le> length s"
    using assms by (auto simp: ReadLocalStreamFrame_def bind_err_Inr_iff read_full_def split: if_splits)
  then have h: "(read_full localStreamHeaderBytes s :: 'e stream_error + _) = Inr (?h, ?r)"
    by (simp add: read_full_def)
  obtain m c where e: "take (length LocalStreamMagic) ?h = LocalStreamMagic"
    "bval (?h ! length LocalStreamMagic) = LocalStreamVersion"
    "t = of_nat (bval (?h ! (length LocalStreamMagic + 1)))"
    "(localStreamFrameRules t :: 'e stream_error + _) = Inr (m, c)"
    "\<not> (c \<and> ?len \<noteq> 0)" "\<not> (0 < m \<and> m < ?len)"
    "(read_full ?len ?r :: 'e stream_error + _) = Inr (p, rest)"
    using assms unfolding ReadLocalStreamFrame_def h bind_err_simps prod.case Let_def
    by (auto simp: bind_err_Inr_iff split: if_splits)
  have p: "length p = ?len" "?r = p @ rest"
    using read_full_Inr [OF e(7)] by simp_all
  obtain a b x y z1 z2 z3 z4 z5 z6 where hs: "?h = [a, b, x, y, z1, z2, z3, z4, z5, z6]"
    using l by (auto simp: localStreamHeaderBytes_def LocalStreamMagic_def numeral_eq_Suc take_Suc_conv_app_nth
        Suc_le_length_iff)
  have z2: "z2 = char_of (unat t)"
    using e(3) hs take_bit_nat_eq_self [of "bval z2" 8] by (simp add: LocalStreamMagic_def unsigned_of_nat)
  have z1: "z1 = char_of LocalStreamVersion"
    using e(2) hs by (intro char_of_bval [symmetric]) (simp add: LocalStreamMagic_def)
  have "length (drop (length LocalStreamMagic + 2) ?h) = 4" unfolding hs by (simp add: LocalStreamMagic_def)
  from put_get_uint32 [OF this] p(1) have "put_uint32 (length p) = drop (length LocalStreamMagic + 2) ?h"
    by simp
  then have "?h = frame_header t (length p)"
    using e(1) z1 z2 unfolding hs frame_header_def by (simp add: LocalStreamMagic_def)
  then have "s = frame_bytes t p @ rest"
    using p(2) by (metis append_assoc append_take_drop_id frame_bytes_def)
  moreover have "frame_ok t p"
    using frame_rules_ok_iff [OF e(4), of p] e(5,6) p(1) by simp
  ultimately show ?thesis by simp
qed

lemma read_frame_shorter:
  "ReadLocalStreamFrame s = Inr (t, p, rest) \<Longrightarrow> length rest < length s"
  by (drule read_frame_inv) (auto simp: frame_bytes_def localStreamHeaderBytes_def)

subsection \<open>The contract of a writer\<close>

text \<open>
  \<open>io.Writer\<close>: the count lies between none and all of the bytes, and fewer than all of them come
  with an error. \<open>taken\<close> is what a writer has taken so far: the counted bytes, in order.
\<close>

locale counting_writer =
  fixes wr :: "('s, 'e) writer"
  assumes wr_count: "wr s d = (s', n, err) \<Longrightarrow> 0 \<le> n \<and> n \<le> int (length d)"
    and wr_short: "wr s d = (s', n, None) \<Longrightarrow> n = int (length d)"
begin

lemma writeAll_errors:
  "writeAll wr s d = (s', Some e) \<Longrightarrow> \<exists>e'. e = Writer_error e'"
proof (cases d)
  case (Cons c cs)
  assume w: "writeAll wr s d = (s', Some e)"
  obtain s1 n err where 1: "wr s d = (s1, n, err)" by (metis prod_cases3)
  with w Cons wr_count [OF 1] wr_short [of s d s1 n] show ?thesis by (cases err) auto
qed simp

text \<open>\<open>LocalStreamWriter\<close> is a writer of the same contract.\<close>

lemma write_frames_count:
  "write_frames wr s w d = (s', n, err) \<Longrightarrow>
     w \<le> n \<and> n \<le> w + int (length d) \<and> (err = None \<longrightarrow> n = w + int (length d))"
proof (induction wr s w d rule: write_frames.induct)
  case (2 wr s w c cs)
  let ?k = "min (length (c # cs)) MaxLocalStreamDataBytes"
  obtain s1 r where 1: "WriteLocalStreamFrame wr s LocalStreamFrameData (take ?k (c # cs)) = (s1, r)"
    by fastforce
  show ?case
  proof (cases r)
    case None
    then have "write_frames wr s1 (w + int ?k) (drop ?k (c # cs)) = (s', n, err)"
      using 2(2) 1 by (simp add: Let_def)
    from 2(1) [OF refl 1 [symmetric] None this] show ?thesis by auto
  next
    case (Some e)
    then show ?thesis using 2(2) 1 by auto
  qed
qed simp

end

locale go_writer = counting_writer wr for wr :: "('s, 'e) writer" +
  fixes taken :: "'s \<Rightarrow> string"
  assumes wr_taken: "wr s d = (s', n, err) \<Longrightarrow> taken s' = taken s @ take (nat n) d"
begin

lemma writeAll_result:
  "writeAll wr s d = (s', r) \<Longrightarrow>
     (r = None \<and> taken s' = taken s @ d) \<or>
     (\<exists>e k. r = Some (Writer_error e) \<and> k \<le> length d \<and> taken s' = taken s @ take k d)"
proof (cases d)
  case (Cons c cs)
  assume w: "writeAll wr s d = (s', r)"
  obtain s1 n err where 1: "wr s d = (s1, n, err)" by (metis prod_cases3)
  note f = wr_count [OF 1] wr_taken [OF 1]
  show ?thesis
  proof (cases err)
    case None
    then have "n = int (length d)" using wr_short 1 by blast
    with w 1 None f Cons show ?thesis by simp
  next
    case (Some e)
    with w 1 f Cons show ?thesis by (auto intro!: exI [of _ "nat n"])
  qed
qed simp

lemma writeAll_ok: "writeAll wr s d = (s', None) \<Longrightarrow> taken s' = taken s @ d"
  using writeAll_result by fastforce

lemma frame_written:
  assumes "WriteLocalStreamFrame wr s t p = (s', None)"
  shows "frame_ok t p \<and> taken s' = taken s @ frame_bytes t p"
proof -
  obtain m c s1 where e: "(localStreamFrameRules t :: 'e stream_error + _) = Inr (m, c)"
    "\<not> (c \<and> length p \<noteq> 0)" "\<not> (0 < m \<and> m < length p)"
    "writeAll wr s (frame_header t (length p)) = (s1, None)" "writeAll wr s1 p = (s', None)"
    using assms unfolding WriteLocalStreamFrame_def
    by (auto split: sum.splits prod.splits option.splits if_splits)
  from frame_rules_ok_iff [OF e(1-3)] writeAll_ok [OF e(4)] writeAll_ok [OF e(5)]
  show ?thesis by (simp add: frame_bytes_def)
qed

text \<open>A frame that may be sent is either sent or the writer below failed: no other error arises.\<close>

lemma frame_errors:
  assumes "WriteLocalStreamFrame wr s t p = (s', Some e)" "frame_ok t p"
  shows "\<exists>e' k. e = Writer_error e' \<and> taken s' = taken s @ take k (frame_bytes t p)"
proof -
  obtain m c where r: "(localStreamFrameRules t :: 'e stream_error + _) = Inr (m, c)"
    "\<not> (c \<and> length p \<noteq> 0)" "\<not> (0 < m \<and> m < length p)" using frame_rules_ok [OF assms(2)] by blast
  let ?h = "frame_header t (length p)"
  obtain s1 r1 where 1: "writeAll wr s ?h = (s1, r1)" by fastforce
  show ?thesis
  proof (cases r1)
    case None
    then have w: "writeAll wr s1 p = (s', Some e)" using assms(1) r 1 by (auto simp: WriteLocalStreamFrame_def)
    have "taken s1 = taken s @ ?h" using writeAll_ok 1 None by blast
    moreover obtain e' k where "e = Writer_error e'" "k \<le> length p" "taken s' = taken s1 @ take k p"
      using writeAll_result [OF w] by auto
    ultimately show ?thesis
      by (auto simp: frame_bytes_def intro!: exI [of _ "localStreamHeaderBytes + k"])
  next
    case (Some x)
    then have x: "x = e" "s1 = s'" using assms(1) r 1 by (auto simp: WriteLocalStreamFrame_def)
    then obtain e' k where "e = Writer_error e'" "k \<le> length ?h" "taken s' = taken s @ take k ?h"
      using writeAll_result [OF 1] Some by auto
    then show ?thesis by (auto simp: frame_bytes_def intro!: exI [of _ k])
  qed
qed

text \<open>So a frame writer fails only when the writer below does, and never takes bytes back.\<close>

lemma frame_prefix:
  assumes "WriteLocalStreamFrame wr s LocalStreamFrameData p = (s', r)" "length p \<le> 65536"
  shows "prefix (taken s) (taken s') \<and> (\<forall>e. r = Some e \<longrightarrow> (\<exists>e'. e = Writer_error e'))"
proof (cases r)
  case None
  then show ?thesis using frame_written assms(1) by auto
next
  case (Some e)
  have "frame_ok LocalStreamFrameData p" using assms(2) by (simp add: frame_ok_def)
  from frame_errors [OF assms(1) [unfolded Some] this] Some show ?thesis by auto
qed

lemma write_frames_fails:
  "write_frames wr s w d = (s', n, err) \<Longrightarrow>
     prefix (taken s) (taken s') \<and> (\<forall>e. err = Some e \<longrightarrow> (\<exists>e'. e = Writer_error e'))"
proof (induction "length d" arbitrary: s w d rule: less_induct)
  case less
  show ?case
  proof (cases d)
    case (Cons c cs)
    let ?k = "min (length d) MaxLocalStreamDataBytes"
    obtain s1 r where 1: "WriteLocalStreamFrame wr s LocalStreamFrameData (take ?k d) = (s1, r)"
      by fastforce
    have "length (take ?k d) \<le> 65536" by (simp add: bound_simps)
    from frame_prefix [OF 1 this] have p: "prefix (taken s) (taken s1)"
      "\<forall>e. r = Some e \<longrightarrow> (\<exists>e'. e = Writer_error e')" by simp_all
    show ?thesis
    proof (cases r)
      case None
      then have "write_frames wr s1 (w + int ?k) (drop ?k d) = (s', n, err)"
        using less.prems 1 Cons by (simp add: Let_def)
      moreover have "length (drop ?k d) < length d" using Cons by (simp add: bound_simps)
      ultimately show ?thesis using less.hyps p(1) by fastforce
    next
      case (Some e)
      then show ?thesis using less.prems 1 p Cons by (auto simp: Let_def)
    qed
  qed (use less.prems in simp)
qed

end

sublocale go_writer \<subseteq> framed: counting_writer "LocalStreamWriter_Write wr"
  by unfold_locales (auto simp: LocalStreamWriter_Write_def dest: write_frames_count)

text \<open>The data frames of a byte string: pieces of at most 64 KiB.\<close>

function data_pieces :: "string \<Rightarrow> string list" where
  "data_pieces [] = []"
| "data_pieces (c # cs) =
     take MaxLocalStreamDataBytes (c # cs) # data_pieces (drop MaxLocalStreamDataBytes (c # cs))"
  by pat_completeness auto
termination by (relation "measure length") (auto simp: bound_simps)

definition data_bytes :: "string \<Rightarrow> string" where
  "data_bytes d = concat (map (frame_bytes LocalStreamFrameData) (data_pieces d))"

lemma concat_data_pieces: "concat (data_pieces d) = d"
  by (induction d rule: data_pieces.induct) (simp_all del: take_Suc_Cons drop_Suc_Cons)

lemma data_pieces_length: "p \<in> set (data_pieces d) \<Longrightarrow> 0 < length p \<and> length p \<le> 65536"
  by (induction d rule: data_pieces.induct) (auto simp: bound_simps)

lemma data_pieces_ok: "p \<in> set (data_pieces d) \<Longrightarrow> frame_ok LocalStreamFrameData p"
  using data_pieces_length by (auto simp: frame_ok_def)

end
