(* ===== verification/Stream_Session.thy ===== *)
theory Stream_Session
  imports Local_Stream Server_Protocol Utf8_Prefix
begin

section \<open>A framed stream from the daemon to the client\<close>

text \<open>
  The two ends of a local stream: \<open>handleFramedStream\<close> and \<open>deadlineWriter\<close> of
  internal/server/daemon.go, and the frame loop of \<open>streamSendContext\<close> in
  internal/app/client.go. What the session's PTY prints reaches the daemon's writer as a list of
  chunks (\<open>stream_chunks\<close>, the loop of \<open>writeRawSubscription\<close>).
\<close>

subsection \<open>Connections\<close>

text \<open>
  What the code uses of \<open>net.Conn\<close> and of \<open>bytes.Buffer\<close>: a connection remembers the bytes sent, is
  open or closed, and takes only \<open>cn_room\<close> more bytes before its write deadline passes; how many it
  takes before the next deadlines is up to the peer (\<open>cn_quota\<close>, by the number of deadlines set). A
  short write reports the bytes taken together with an error.
\<close>

datatype conn_error = Conn_closed | Deadline_exceeded

record net_conn =
  cn_sent :: string
  cn_room :: nat
  cn_quota :: "nat \<Rightarrow> nat"
  cn_deadlines :: nat
  cn_closed :: bool

definition conn_write :: "(net_conn, conn_error) writer" where
  "conn_write c d =
     (if cn_closed c then (c, 0, Some Conn_closed)
      else (let k = min (length d) (cn_room c) in
        (c\<lparr>cn_sent := cn_sent c @ take k d, cn_room := cn_room c - k\<rparr>, int k,
         if k < length d then Some Deadline_exceeded else None)))"

definition conn_set_deadline :: "net_conn \<Rightarrow> net_conn \<times> conn_error option" where
  "conn_set_deadline c =
     (if cn_closed c then (c, Some Conn_closed)
      else (c\<lparr>cn_room := cn_quota c (cn_deadlines c), cn_deadlines := Suc (cn_deadlines c)\<rparr>, None))"

definition buffer_write :: "(string, unit) writer" where
  "buffer_write s d = (s @ d, int (length d), None)"

text \<open>\<open>deadlineWriter.Write\<close>.\<close>

definition deadlineWriter_Write ::
  "('s \<Rightarrow> 's \<times> 'e option) \<Rightarrow> ('s, 'e) writer \<Rightarrow> ('s, 'e) writer" where
  "deadlineWriter_Write setDeadline write s d =
     (case setDeadline s of (s', Some e) \<Rightarrow> (s', 0, Some e) | (s', None) \<Rightarrow> write s' d)"

text \<open>A connection with a deadline keeps the contract of a writer.\<close>

locale deadline_conn = go_writer wr taken for wr :: "('s, 'e) writer" and taken +
  fixes setDeadline :: "'s \<Rightarrow> 's \<times> 'e option"
  assumes setDeadline_taken: "setDeadline s = (s', err) \<Longrightarrow> taken s' = taken s"

sublocale deadline_conn \<subseteq> deadline: go_writer "deadlineWriter_Write setDeadline wr" taken
proof
  fix s d s' n err
  assume "deadlineWriter_Write setDeadline wr s d = (s', n, err)"
  then consider "n = 0" "err \<noteq> None" "taken s' = taken s"
    | s1 where "setDeadline s = (s1, None)" "wr s1 d = (s', n, err)"
    by (auto simp: deadlineWriter_Write_def split: prod.splits option.splits dest: setDeadline_taken)
  note c = this
  from c show "0 \<le> n \<and> n \<le> int (length d)" by cases (auto dest: wr_count)
  from c show "taken s' = taken s @ take (nat n) d"
  proof cases
    case 2
    then show ?thesis using wr_taken [OF 2(2)] setDeadline_taken [OF 2(1)] by simp
  qed simp
next
  fix s d s' n
  assume "deadlineWriter_Write setDeadline wr s d = (s', n, None)"
  then show "n = int (length d)"
    by (auto simp: deadlineWriter_Write_def split: prod.splits option.splits dest: wr_short)
qed

interpretation buffer: go_writer buffer_write "\<lambda>s. s"
  by unfold_locales (auto simp: buffer_write_def)

interpretation conn: deadline_conn conn_write cn_sent conn_set_deadline
  by unfold_locales
    (auto simp: conn_write_def conn_set_deadline_def Let_def split: if_splits)

abbreviation daemon_write :: "(net_conn, conn_error) writer" where
  "daemon_write \<equiv> deadlineWriter_Write conn_set_deadline conn_write"

subsection \<open>The daemon's end\<close>

fun stream_chunks ::
  "('e \<Rightarrow> string) \<Rightarrow> string list \<Rightarrow> string option \<Rightarrow> ('s, 'e) writer \<Rightarrow> 's \<Rightarrow> 's \<times> string option" where
  "stream_chunks msg [] result write s = (s, result)"
| "stream_chunks msg (c # cs) result write s =
     (case write s c of
        (s', n, Some e) \<Rightarrow> (s', Some (msg e))
      | (s', n, None) \<Rightarrow> stream_chunks msg cs result write s')"

definition stream_request :: "request \<Rightarrow> request" where
  "stream_request envelope = envelope\<lparr>req_action := req_stream_action envelope,
     req_stream_action := [], req_stream_version := 0, req_follow := True\<rparr>"

definition error_payload :: "string \<Rightarrow> string" where
  "error_payload payload =
     (if MaxLocalStreamErrorBytes < length payload
      then take (completeUTF8Prefix (take MaxLocalStreamErrorBytes payload)) payload else payload)"

definition handleFramedStream ::
  "('s, 'e) writer \<Rightarrow> (request \<Rightarrow> ('s, 'e stream_error) writer \<Rightarrow> 's \<Rightarrow> 's \<times> string option) \<Rightarrow>
     's \<Rightarrow> request \<Rightarrow> 's" where
  "handleFramedStream write stream s envelope =
     (case WriteLocalStreamFrame write s LocalStreamFrameStarted [] of
        (s, Some e) \<Rightarrow> s
      | (s, None) \<Rightarrow>
          (let req = stream_request envelope;
               (s, streamErr) =
                 (if req_stream_version envelope \<noteq> int LocalStreamVersion \<or> \<not> IsStreamRequest req
                  then (s, Some ''unsupported local stream request'')
                  else stream req (LocalStreamWriter_Write write) s)
           in (case streamErr of
                 None \<Rightarrow> fst (WriteLocalStreamFrame write s LocalStreamFrameEnd [])
               | Some message \<Rightarrow>
                   (case WriteLocalStreamFrame write s LocalStreamFrameError (error_payload message) of
                      (s, Some e) \<Rightarrow> s
                    | (s, None) \<Rightarrow> fst (WriteLocalStreamFrame write s LocalStreamFrameEnd [])))))"

subsection \<open>The client's end\<close>

datatype ('e, 'f) client_end =
    Stream_ended
  | Remote_error string
  | Duplicate_acknowledgement
  | Data_before_acknowledgement
  | Error_before_acknowledgement
  | End_before_acknowledgement
  | Frame_error "'e stream_error"
  | Output_error 'f
  | Output_short_write

text \<open>The loop reads frames until one of them, or an error, ends it; \<open>started\<close> is its flag.\<close>

function client_frames ::
  "('s, 'f) writer \<Rightarrow> bool \<Rightarrow> 's \<Rightarrow> string \<Rightarrow> 's \<times> ('e, 'f) client_end" where
  "client_frames output started s reader =
     (case ReadLocalStreamFrame reader of
        Inl e \<Rightarrow> (s, Frame_error e)
      | Inr (t, payload, rest) \<Rightarrow>
          (if t = LocalStreamFrameStarted then
             (if started then (s, Duplicate_acknowledgement) else client_frames output True s rest)
           else if t = LocalStreamFrameData then
             (if \<not> started then (s, Data_before_acknowledgement)
              else (case output s payload of
                  (s', n, Some e) \<Rightarrow> (s', Output_error e)
                | (s', n, None) \<Rightarrow>
                    (if n \<noteq> int (length payload) then (s', Output_short_write)
                     else client_frames output started s' rest)))
           else if t = LocalStreamFrameError then
             (if \<not> started then (s, Error_before_acknowledgement) else (s, Remote_error payload))
           else (if \<not> started then (s, End_before_acknowledgement) else (s, Stream_ended))))"
  by pat_completeness auto
termination
  by (relation "measure (\<lambda>(_, _, _, r). length r)") (auto dest: read_frame_shorter)

declare client_frames.simps [simp del]

subsection \<open>The wire\<close>

text \<open>What a session with the given chunks and result is on the wire.\<close>

definition wire_end :: "string option \<Rightarrow> string" where
  "wire_end result =
     (case result of None \<Rightarrow> frame_bytes LocalStreamFrameEnd []
      | Some m \<Rightarrow> frame_bytes LocalStreamFrameError (error_payload m) @ frame_bytes LocalStreamFrameEnd [])"

definition wire :: "string list \<Rightarrow> string option \<Rightarrow> string" where
  "wire chunks result =
     frame_bytes LocalStreamFrameStarted [] @ concat (map data_bytes chunks) @ wire_end result"

lemma error_payload_length: "length (error_payload m) \<le> 4096"
  using completeUTF8Prefix_le [of "take MaxLocalStreamErrorBytes m"]
  by (auto simp: error_payload_def bound_simps)

lemma error_payload_prefix: "prefix (error_payload m) m"
  by (simp add: error_payload_def take_is_prefix)

lemma error_payload_valid: "valid_utf8 m \<Longrightarrow> valid_utf8 (error_payload m)"
proof (cases "MaxLocalStreamErrorBytes < length m")
  case True
  let ?a = "take MaxLocalStreamErrorBytes m"
  assume "valid_utf8 m"
  then have "valid_utf8 (?a @ drop MaxLocalStreamErrorBytes m)" by simp
  from completeUTF8Prefix_cut [OF this] have "valid_utf8 (take (completeUTF8Prefix ?a) ?a)" .
  moreover have "take (completeUTF8Prefix ?a) ?a = take (completeUTF8Prefix ?a) m"
    using completeUTF8Prefix_le [of ?a] by (simp add: min_absorb1)
  ultimately show ?thesis using True by (simp add: error_payload_def)
qed (simp add: error_payload_def)

lemma frames_ok [simp]:
  "frame_ok LocalStreamFrameStarted []" "frame_ok LocalStreamFrameEnd []"
  "frame_ok LocalStreamFrameError (error_payload m)"
  using error_payload_length by (simp_all add: frame_ok_def)

text \<open>A connection whose peer takes every write before its deadline.\<close>

definition keeps_up :: "net_conn \<Rightarrow> bool" where
  "keeps_up c \<longleftrightarrow> \<not> cn_closed c \<and> (\<forall>i. 65536 \<le> cn_quota c i)"

definition sends :: "net_conn \<Rightarrow> string \<Rightarrow> net_conn \<Rightarrow> bool" where
  "sends c d c' \<longleftrightarrow> keeps_up c' \<and> cn_sent c' = cn_sent c @ d"

lemma sends_trans: "sends c a c1 \<Longrightarrow> sends c1 b c2 \<Longrightarrow> sends c (a @ b) c2"
  by (simp add: sends_def)

lemma sends_Nil: "keeps_up c \<Longrightarrow> sends c [] c"
  by (simp add: sends_def)

lemma sends_keeps: "sends c d c' \<Longrightarrow> keeps_up c'"
  by (simp add: sends_def)

lemma daemon_write_sends:
  assumes "keeps_up c" "length d \<le> 65536"
  shows "\<exists>c'. daemon_write c d = (c', int (length d), None) \<and> sends c d c'"
proof -
  have "length d \<le> cn_quota c (cn_deadlines c)" using assms by (meson keeps_up_def order_trans)
  with assms show ?thesis
    by (simp add: deadlineWriter_Write_def conn_set_deadline_def conn_write_def Let_def sends_def keeps_up_def)
qed

lemma writeAll_sends:
  assumes "keeps_up c" "length d \<le> 65536"
  shows "\<exists>c'. writeAll daemon_write c d = (c', None) \<and> sends c d c'"
proof (cases d)
  case (Cons x xs)
  with daemon_write_sends [OF assms] show ?thesis by auto
qed (use assms sends_Nil in simp)

lemma frame_sends:
  assumes "keeps_up c" "frame_ok t p"
  shows "\<exists>c'. WriteLocalStreamFrame daemon_write c t p = (c', None) \<and> sends c (frame_bytes t p) c'"
proof -
  obtain m k where r: "(localStreamFrameRules t :: conn_error stream_error + _) = Inr (m, k)"
    "\<not> (k \<and> length p \<noteq> 0)" "\<not> (0 < m \<and> m < length p)" using frame_rules_ok [OF assms(2)] by blast
  obtain c1 where c1: "writeAll daemon_write c (frame_header t (length p)) = (c1, None)"
    "sends c (frame_header t (length p)) c1"
    using writeAll_sends [OF assms(1), of "frame_header t (length p)"]
    by (auto simp: localStreamHeaderBytes_def LocalStreamMagic_def)
  have "length p \<le> 65536" using assms(2) by (auto simp: frame_ok_def)
  from writeAll_sends [OF sends_keeps [OF c1(2)] this] obtain c2 where
    c2: "writeAll daemon_write c1 p = (c2, None)" "sends c1 p c2" by blast
  have "WriteLocalStreamFrame daemon_write c t p = (c2, None)"
    unfolding WriteLocalStreamFrame_def r(1) using r(2,3) c1(1) c2(1) by auto
  with sends_trans [OF c1(2) c2(2)] show ?thesis by (auto simp: frame_bytes_def)
qed

lemma write_frames_sends:
  "keeps_up c \<Longrightarrow> \<exists>c'. write_frames daemon_write c w d = (c', w + int (length d), None) \<and>
     sends c (data_bytes d) c'"
proof (induction d arbitrary: c w rule: data_pieces.induct)
  case 1
  then show ?case by (simp add: data_bytes_def sends_Nil)
next
  case (2 x xs)
  let ?k = "min (length (x # xs)) MaxLocalStreamDataBytes" and ?p = "take MaxLocalStreamDataBytes (x # xs)"
  have p: "take ?k (x # xs) = ?p" "drop ?k (x # xs) = drop MaxLocalStreamDataBytes (x # xs)"
    by (auto simp: min_def)
  have "frame_ok LocalStreamFrameData ?p" by (simp add: frame_ok_def bound_simps)
  from frame_sends [OF 2(2) this] obtain c1 where
    c1: "WriteLocalStreamFrame daemon_write c LocalStreamFrameData ?p = (c1, None)"
      "sends c (frame_bytes LocalStreamFrameData ?p) c1" by blast
  from 2(1) [OF sends_keeps [OF c1(2)], of "w + int ?k"] obtain c2 where
    c2: "write_frames daemon_write c1 (w + int ?k) (drop MaxLocalStreamDataBytes (x # xs)) =
      (c2, w + int ?k + int (length (drop MaxLocalStreamDataBytes (x # xs))), None)"
      "sends c1 (data_bytes (drop MaxLocalStreamDataBytes (x # xs))) c2" by blast
  have "int ?k + int (length (drop MaxLocalStreamDataBytes (x # xs))) = int (length (x # xs))"
    unfolding p(2) [symmetric] by simp
  with c1(1) c2(1) have "write_frames daemon_write c w (x # xs) = (c2, w + int (length (x # xs)), None)"
    by (subst write_frames.simps) (simp only: Let_def p, simp add: algebra_simps)
  moreover have "data_bytes (x # xs) =
      frame_bytes LocalStreamFrameData ?p @ data_bytes (drop MaxLocalStreamDataBytes (x # xs))"
    by (simp add: data_bytes_def del: take_Suc_Cons drop_Suc_Cons)
  ultimately show ?case using sends_trans [OF c1(2) c2(2)] by auto
qed

lemma stream_chunks_sends:
  "keeps_up c \<Longrightarrow> \<exists>c'. stream_chunks msg cs r (LocalStreamWriter_Write daemon_write) c = (c', r) \<and>
     sends c (concat (map data_bytes cs)) c'"
proof (induction cs arbitrary: c)
  case (Cons d cs)
  from write_frames_sends [OF Cons.prems, of 0 d] obtain c1 where
    c1: "LocalStreamWriter_Write daemon_write c d = (c1, int (length d), None)" "sends c (data_bytes d) c1"
    by (auto simp: LocalStreamWriter_Write_def)
  from Cons.IH [OF sends_keeps [OF c1(2)]] obtain c2 where
    "stream_chunks msg cs r (LocalStreamWriter_Write daemon_write) c1 = (c2, r)"
    "sends c1 (concat (map data_bytes cs)) c2" by blast
  with c1 sends_trans [OF c1(2)] show ?case by auto
qed (simp add: sends_Nil)

lemma handleFramedStream_sends:
  assumes "keeps_up c" "req_stream_version env = 1" "IsStreamRequest (stream_request env)"
  shows "sends c (wire cs r)
    (handleFramedStream daemon_write (\<lambda>_. stream_chunks msg cs r) c env)"
proof -
  obtain c1 where c1: "WriteLocalStreamFrame daemon_write c LocalStreamFrameStarted [] = (c1, None)"
    "sends c (frame_bytes LocalStreamFrameStarted []) c1"
    using frame_sends [OF assms(1)] frames_ok by blast
  obtain c2 where c2: "stream_chunks msg cs r (LocalStreamWriter_Write daemon_write) c1 = (c2, r)"
    "sends c1 (concat (map data_bytes cs)) c2"
    using stream_chunks_sends [OF sends_keeps [OF c1(2)]] by blast
  have e: "\<exists>c'. WriteLocalStreamFrame daemon_write d LocalStreamFrameEnd [] = (c', None) \<and>
      sends d (frame_bytes LocalStreamFrameEnd []) c'" if "keeps_up d" for d
    using frame_sends [OF that] frames_ok by blast
  have "\<exists>c3. handleFramedStream daemon_write (\<lambda>_. stream_chunks msg cs r) c env = c3 \<and>
      sends c2 (wire_end r) c3"
  proof (cases r)
    case None
    from e [OF sends_keeps [OF c2(2)]] show ?thesis
      using c1(1) c2(1) assms(2,3) None
      by (auto simp: handleFramedStream_def LocalStreamVersion_def wire_end_def)
  next
    case (Some m)
    obtain c3 where c3: "WriteLocalStreamFrame daemon_write c2 LocalStreamFrameError (error_payload m) = (c3, None)"
      "sends c2 (frame_bytes LocalStreamFrameError (error_payload m)) c3"
      using frame_sends [OF sends_keeps [OF c2(2)]] frames_ok by blast
    from e [OF sends_keeps [OF c3(2)]] obtain c4 where
      c4: "WriteLocalStreamFrame daemon_write c3 LocalStreamFrameEnd [] = (c4, None)"
        "sends c3 (frame_bytes LocalStreamFrameEnd []) c4" by blast
    show ?thesis
      using c1(1) c2(1) c3(1) c4(1) assms(2,3) Some sends_trans [OF c3(2) c4(2)]
      by (auto simp: handleFramedStream_def LocalStreamVersion_def wire_end_def)
  qed
  then show ?thesis
    using sends_trans [OF sends_trans [OF c1(2) c2(2)]] by (auto simp: wire_def)
qed

subsection \<open>Reading the wire\<close>

lemma client_step:
  assumes "(ReadLocalStreamFrame reader :: 'e stream_error + _) = Inr (t, p, rest)"
  shows "(client_frames buffer_write started s reader :: _ \<times> ('e, unit) client_end) =
    (if t = LocalStreamFrameStarted then
       (if started then (s, Duplicate_acknowledgement) else client_frames buffer_write True s rest)
     else if t = LocalStreamFrameData then
       (if \<not> started then (s, Data_before_acknowledgement)
        else client_frames buffer_write started (s @ p) rest)
     else if t = LocalStreamFrameError then
       (if \<not> started then (s, Error_before_acknowledgement) else (s, Remote_error p))
     else (if \<not> started then (s, End_before_acknowledgement) else (s, Stream_ended)))"
  by (subst client_frames.simps) (simp add: assms buffer_write_def)

lemma client_started:
  "client_frames output False s (frame_bytes LocalStreamFrameStarted [] @ rest) =
     client_frames output True s rest"
  by (subst client_frames.simps) (simp add: read_frame_bytes)

lemma client_data:
  "frame_ok LocalStreamFrameData p \<Longrightarrow>
     client_frames buffer_write True s (frame_bytes LocalStreamFrameData p @ rest) =
     client_frames buffer_write True (s @ p) rest"
  by (subst client_frames.simps) (simp add: read_frame_bytes buffer_write_def)

lemma client_pieces:
  "list_all (frame_ok LocalStreamFrameData) ps \<Longrightarrow>
     client_frames buffer_write True s (concat (map (frame_bytes LocalStreamFrameData) ps) @ rest) =
     client_frames buffer_write True (s @ concat ps) rest"
  by (induction ps arbitrary: s) (simp_all add: client_data)

lemma client_chunks:
  "client_frames buffer_write True s (concat (map data_bytes cs) @ rest) =
     client_frames buffer_write True (s @ concat cs) rest"
proof (induction cs arbitrary: s)
  case (Cons d cs)
  have "list_all (frame_ok LocalStreamFrameData) (data_pieces d)"
    using data_pieces_ok by (auto simp: list_all_iff)
  with Cons show ?case by (simp add: data_bytes_def client_pieces concat_data_pieces)
qed simp

lemma client_end:
  "client_frames buffer_write True s (wire_end r @ rest) =
     (s, case r of None \<Rightarrow> Stream_ended | Some m \<Rightarrow> Remote_error (error_payload m))"
proof (cases r)
  case None
  then show ?thesis by (subst client_frames.simps) (simp add: wire_end_def read_frame_bytes)
next
  case (Some m)
  then show ?thesis
    by (subst client_frames.simps) (simp add: wire_end_def read_frame_bytes)
qed

lemma client_wire:
  "client_frames buffer_write False s (wire cs r @ rest) =
     (s @ concat cs, case r of None \<Rightarrow> Stream_ended | Some m \<Rightarrow> Remote_error (error_payload m))"
  by (simp add: wire_def client_started client_chunks client_end)

text \<open>A client that ends without an error has read a whole session.\<close>

lemma client_ended_started:
  "client_frames buffer_write True s reader = (s', Stream_ended :: ('e, unit) client_end) \<Longrightarrow>
     \<exists>ps rest. reader = concat (map (frame_bytes LocalStreamFrameData) ps) @
       frame_bytes LocalStreamFrameEnd [] @ rest \<and> s' = s @ concat ps"
proof (induction "length reader" arbitrary: s reader rule: less_induct)
  case less
  show ?case
  proof (cases "ReadLocalStreamFrame reader :: 'e stream_error + _")
    case (Inl e)
    with less.prems show ?thesis by (subst (asm) client_frames.simps) simp
  next
    case (Inr x)
    obtain t p rest where x: "x = (t, p, rest)" by (cases x)
    note f = read_frame_inv [OF Inr [unfolded x]]
    note step = client_step [OF Inr [unfolded x], of True s, unfolded less.prems]
    have c: "t = LocalStreamFrameData \<or> t = LocalStreamFrameEnd"
      using step f by (auto simp: frame_ok_def split: if_splits)
    have d: "t = LocalStreamFrameData \<Longrightarrow>
        client_frames buffer_write True (s @ p) rest = (s', Stream_ended :: ('e, unit) client_end)"
      using step by simp
    have e: "t = LocalStreamFrameEnd \<Longrightarrow> s' = s" using step by simp
    from c show ?thesis
    proof
      assume t: "t = LocalStreamFrameData"
      have "length rest < length reader" using read_frame_shorter [OF Inr [unfolded x]] .
      from less.hyps [OF this d [OF t]] obtain ps r where
        "rest = concat (map (frame_bytes LocalStreamFrameData) ps) @ frame_bytes LocalStreamFrameEnd [] @ r"
        "s' = (s @ p) @ concat ps" by blast
      then show ?thesis using f t by (intro exI [of _ "p # ps"] exI [of _ r]) simp
    next
      assume t: "t = LocalStreamFrameEnd"
      then have "p = []" using f by (auto simp: frame_ok_def)
      then show ?thesis using f t e by (intro exI [of _ "[]"] exI [of _ rest]) simp
    qed
  qed
qed

lemma client_ended:
  assumes "client_frames buffer_write False s reader = (s', Stream_ended :: ('e, unit) client_end)"
  shows "\<exists>ps rest. reader = frame_bytes LocalStreamFrameStarted [] @
      concat (map (frame_bytes LocalStreamFrameData) ps) @ frame_bytes LocalStreamFrameEnd [] @ rest \<and>
    s' = s @ concat ps"
proof (cases "ReadLocalStreamFrame reader :: 'e stream_error + _")
  case (Inl e)
  with assms show ?thesis by (subst (asm) client_frames.simps) simp
next
  case (Inr x)
  obtain t p rest where x: "x = (t, p, rest)" by (cases x)
  note f = read_frame_inv [OF Inr [unfolded x]]
  note step = client_step [OF Inr [unfolded x], of False s, unfolded assms]
  have t: "t = LocalStreamFrameStarted"
    and c: "client_frames buffer_write True s rest = (s', Stream_ended :: ('e, unit) client_end)"
    using step by (auto split: if_splits)
  have "p = []" using f t by (auto simp: frame_ok_def)
  with client_ended_started [OF c] f t show ?thesis by auto
qed

lemma writeAll_buffer: "writeAll buffer_write s d = (s @ d, None)"
  by (cases d) (simp_all add: buffer_write_def)

lemma frame_buffer:
  "WriteLocalStreamFrame buffer_write s t p = (s', None) \<longleftrightarrow> frame_ok t p \<and> s' = s @ frame_bytes t p"
proof
  assume "WriteLocalStreamFrame buffer_write s t p = (s', None)"
  then show "frame_ok t p \<and> s' = s @ frame_bytes t p" by (rule buffer.frame_written)
next
  assume a: "frame_ok t p \<and> s' = s @ frame_bytes t p"
  then obtain m k where "(localStreamFrameRules t :: unit stream_error + _) = Inr (m, k)"
    "\<not> (k \<and> length p \<noteq> 0)" "\<not> (0 < m \<and> m < length p)" using frame_rules_ok by blast
  with a show "WriteLocalStreamFrame buffer_write s t p = (s', None)"
    by (auto simp: WriteLocalStreamFrame_def writeAll_buffer frame_bytes_def)
qed

definition follow_envelope :: request where
  "follow_envelope = \<lparr>req_action = ''stream'', req_session = ''s'', req_pane = ''p'', req_tab = ''t'',
     req_command = [], req_follow = True, req_wait_millis = 0, req_read_count = 0,
     req_stream_version = 1, req_stream_action = ''follow''\<rparr>"

lemma follow_envelope_stream:
  "req_stream_version follow_envelope = 1" "IsStreamRequest (stream_request follow_envelope)"
  by (simp_all add: follow_envelope_def IsStreamRequest_def stream_request_def)

definition fresh_conn :: "(nat \<Rightarrow> nat) \<Rightarrow> net_conn" where
  "fresh_conn quota = \<lparr>cn_sent = [], cn_room = 0, cn_quota = quota, cn_deadlines = 0, cn_closed = False\<rparr>"

subsection \<open>Properties\<close>

text \<open>C22: A frame is read back exactly as it was written, with the rest of the input left over, and
nothing else is read: \<open>ReadLocalStreamFrame\<close> accepts an input with type, payload and rest if and only
if \<open>WriteLocalStreamFrame\<close> accepts that type and payload and writes the bytes before the rest.\<close>

lemma frame_roundtrip:
  "(ReadLocalStreamFrame s :: unit stream_error + _) = Inr (t, p, rest) \<longleftrightarrow>
     (\<exists>w. WriteLocalStreamFrame buffer_write [] t p = (w, None) \<and> s = w @ rest)"
  using read_frame_inv [of s t p rest] read_frame_bytes [of t p rest] by (auto simp: frame_buffer)

text \<open>On any connection, \<open>LocalStreamWriter\<close> keeps the contract of a writer: it counts whole
frames only, reports an error when it did not write everything, never panics and never reports a
short write; and a connection only ever gets more bytes, never other bytes.\<close>

lemma framed_writer_contract:
  assumes "LocalStreamWriter_Write daemon_write c data = (c', n, err)"
  shows "0 \<le> n \<and> n \<le> int (length data) \<and> prefix (cn_sent c) (cn_sent c') \<and>
    ((err = None \<and> n = int (length data)) \<or> (\<exists>e. err = Some (Writer_error e)))"
  using conn.deadline.framed.wr_count [OF assms] conn.deadline.framed.wr_short [of c data c' n]
    conn.deadline.write_frames_fails [of c 0 data c' n err] assms
  by (cases err) (auto simp: LocalStreamWriter_Write_def)

lemma framed_writer_contract_witness:
  "\<exists>c' n err. LocalStreamWriter_Write daemon_write
      (fresh_conn (\<lambda>_. 3)) ''abc'' = (c', n, err) \<and> 0 \<le> n \<and> n \<le> 3"
proof -
  obtain c' n err where w: "LocalStreamWriter_Write daemon_write (fresh_conn (\<lambda>_. 3)) ''abc'' = (c', n, err)"
    by (metis prod_cases3)
  from framed_writer_contract [OF w] w show ?thesis by auto
qed

text \<open>C11: What the client prints is what the session printed: with a peer that takes the daemon's
writes in time, the client's frame loop reads exactly the chunks the stream wrote, in order and
without loss or extra bytes, and then ends normally or with the stream's error message, cut to 4096
bytes at a rune boundary.\<close>

lemma stream_end_to_end:
  assumes "keeps_up c" "cn_sent c = []" "req_stream_version env = 1"
    and "IsStreamRequest (stream_request env)"
  shows "client_frames buffer_write False out
      (cn_sent (handleFramedStream daemon_write (\<lambda>_. stream_chunks msg chunks result) c env)) =
    (out @ concat chunks,
     case result of None \<Rightarrow> Stream_ended | Some m \<Rightarrow> Remote_error (error_payload m))"
  using handleFramedStream_sends [OF assms(1,3,4), of chunks result msg] assms(2)
    client_wire [of out chunks result "[]"]
  by (simp add: sends_def)

lemma stream_end_to_end_witness:
  "client_frames buffer_write False []
      (cn_sent (handleFramedStream daemon_write (\<lambda>_. stream_chunks (\<lambda>_. ''x'') [''ab'', ''c''] None)
        (fresh_conn (\<lambda>_. 65536)) follow_envelope)) = (''abc'', Stream_ended)"
  using stream_end_to_end [of "fresh_conn (\<lambda>_. 65536)" follow_envelope "[]" "\<lambda>_. ''x''" "[''ab'', ''c'']" None]
    follow_envelope_stream by (simp add: keeps_up_def fresh_conn_def)

text \<open>C23: The client reports success only for a complete session: when its frame loop ends without an
error, what it read is an acknowledgement, data frames and an end frame, and what it printed is the
data frames' payloads.\<close>

lemma client_success_complete:
  assumes "client_frames buffer_write False out reader = (out', Stream_ended :: (unit, unit) client_end)"
  shows "\<exists>ps rest. reader = frame_bytes LocalStreamFrameStarted [] @
      concat (map (frame_bytes LocalStreamFrameData) ps) @ frame_bytes LocalStreamFrameEnd [] @ rest \<and>
    out' = out @ concat ps"
  using assms by (rule client_ended)

lemma client_success_complete_witness:
  "\<exists>ps rest. wire [''ab''] None = frame_bytes LocalStreamFrameStarted [] @
      concat (map (frame_bytes LocalStreamFrameData) ps) @ frame_bytes LocalStreamFrameEnd [] @ rest \<and>
    ''ab'' = [] @ concat ps"
  using client_success_complete [of "[]" "wire [''ab''] None" "''ab''"]
    client_wire [of "[]" "[''ab'']" None "[]"] by simp

text \<open>A peer that reads slowly gets protocol bytes as data: when a write deadline passes inside a
data frame, the daemon still sends an error frame on the same connection, and the client takes its
first bytes for the rest of the data. Here the client prints \<open>AAPT\<close> although the session printed
\<open>AAAA\<close>, and then fails on the frame's magic instead of reporting the error.\<close>

lemma partial_frame_corrupts:
  "client_frames buffer_write False []
      (cn_sent (handleFramedStream daemon_write (\<lambda>_. stream_chunks (\<lambda>_. ''x'') [''AAAA''] None)
        (fresh_conn (\<lambda>i. if i = 2 then 2 else 65536)) follow_envelope)) =
     (''AAPT'', Frame_error Bad_magic :: (unit, unit) client_end)"
proof -
  have b: "char_of (Suc 0) = CHR 0x01" by (simp add: char_of_eq_less)
  have h: "frame_header LocalStreamFrameStarted 0 = ''PTMX'' @ [CHR 0x01, CHR 0x01, CHR 0x00, CHR 0x00, CHR 0x00, CHR 0x00]"
    "frame_header LocalStreamFrameData (Suc (Suc (Suc (Suc 0)))) = ''PTMX'' @ [CHR 0x01, CHR 0x02, CHR 0x00, CHR 0x00, CHR 0x00, CHR 0x04]"
    "frame_header LocalStreamFrameError (Suc 0) = ''PTMX'' @ [CHR 0x01, CHR 0x03, CHR 0x00, CHR 0x00, CHR 0x00, CHR 0x01]"
    "frame_header LocalStreamFrameEnd 0 = ''PTMX'' @ [CHR 0x01, CHR 0x04, CHR 0x00, CHR 0x00, CHR 0x00, CHR 0x00]"
    by (simp_all add: frame_header_def LocalStreamMagic_def LocalStreamVersion_def frame_types put_uint32_def b
        char_of_eq_less)
  have r: "(localStreamFrameRules LocalStreamFrameStarted :: 'e stream_error + _) = Inr (0, True)"
    "(localStreamFrameRules LocalStreamFrameEnd :: 'e stream_error + _) = Inr (0, True)"
    "(localStreamFrameRules LocalStreamFrameData :: 'e stream_error + _) = Inr (65536, False)"
    "(localStreamFrameRules LocalStreamFrameError :: 'e stream_error + _) = Inr (4096, False)"
    by (simp_all add: localStreamFrameRules_def bound_simps)
  let ?q = "\<lambda>i::nat. if i = 2 then 2 else 65536 :: nat"
  have w: "daemon_write \<lparr>cn_sent = s, cn_room = k, cn_quota = ?q, cn_deadlines = i, cn_closed = False\<rparr> d =
    (\<lparr>cn_sent = s @ take (?q i) d, cn_room = ?q i - min (length d) (?q i), cn_quota = ?q,
       cn_deadlines = Suc i, cn_closed = False\<rparr>,
     int (min (length d) (?q i)), if ?q i < length d then Some Deadline_exceeded else None)" for s k i d
    by (auto simp: deadlineWriter_Write_def conn_set_deadline_def conn_write_def Let_def min_def)
  have sent: "cn_sent (handleFramedStream daemon_write (\<lambda>_. stream_chunks (\<lambda>_. ''x'') [''AAAA''] None)
      (fresh_conn ?q) follow_envelope) =
    frame_header LocalStreamFrameStarted 0 @ frame_header LocalStreamFrameData (Suc (Suc (Suc (Suc 0)))) @ ''AA'' @
    frame_header LocalStreamFrameError (Suc 0) @ ''x'' @ frame_header LocalStreamFrameEnd 0"
    using follow_envelope_stream
    by (simp add: handleFramedStream_def fresh_conn_def WriteLocalStreamFrame_def LocalStreamWriter_Write_def
        r h w bound_simps LocalStreamVersion_def error_payload_def)
  let ?rest = "''MX'' @ [CHR 0x01, CHR 0x03, CHR 0x00, CHR 0x00, CHR 0x00, CHR 0x01] @ ''x'' @
    frame_header LocalStreamFrameEnd 0"
  have e: "cn_sent (handleFramedStream daemon_write (\<lambda>_. stream_chunks (\<lambda>_. ''x'') [''AAAA''] None)
      (fresh_conn ?q) follow_envelope) =
    frame_bytes LocalStreamFrameStarted [] @ frame_bytes LocalStreamFrameData ''AAPT'' @ ?rest"
    unfolding sent frame_bytes_def by (simp add: h)
  have bad: "(ReadLocalStreamFrame ?rest :: unit stream_error + _) = Inl Bad_magic"
    unfolding h by (simp add: ReadLocalStreamFrame_def read_full_def localStreamHeaderBytes_def LocalStreamMagic_def)
  have "frame_ok LocalStreamFrameData ''AAPT''" by (simp add: frame_ok_def)
  then show ?thesis
    unfolding e client_started client_data [OF \<open>frame_ok LocalStreamFrameData ''AAPT''\<close>]
    by (subst client_frames.simps) (simp only: bad sum.case append_Nil)
qed

end
