(* ===== verification/Target_Store.thy ===== *)
theory Target_Store
  imports Server_Protocol "HOL-Library.AList" "HOL-Library.Multiset" "HOL-Library.Product_Lexorder"
begin

section \<open>The store of targets (internal/server/store.go)\<close>

text \<open>
  The store keeps the tabs by session, pane and tab name, and the targets whose runner is being
  started. A Go map is an association list with distinct keys, whose order stands for the unspecified
  iteration order. \<open>*Tab\<close> and \<open>*startingTarget\<close> pointers are compared and outlive their map entries,
  so both kinds of object live in a heap (a list that only grows) and the maps hold their addresses.
  Every operation here is what one call does while it holds \<open>Store.mu\<close>; how calls interleave is the
  subject of the next theory. Errors are numbers, runners are addresses.
\<close>

type_synonym runner_id = nat
type_synonym tab_id = nat
type_synonym start_id = nat
type_synonym go_err = nat
type_synonym time = int

datatype target_key = Target_key (tk_session: string) (tk_pane: string) (tk_tab: string)

instantiation target_key :: linorder
begin

definition less_eq_target_key :: "target_key \<Rightarrow> target_key \<Rightarrow> bool" where
  "less_eq_target_key a b \<longleftrightarrow>
     (tk_session a, tk_pane a, tk_tab a) \<le> (tk_session b, tk_pane b, tk_tab b)"

definition less_target_key :: "target_key \<Rightarrow> target_key \<Rightarrow> bool" where
  "less_target_key a b \<longleftrightarrow>
     (tk_session a, tk_pane a, tk_tab a) < (tk_session b, tk_pane b, tk_tab b)"

instance
  by standard
    (auto simp: less_eq_target_key_def less_target_key_def target_key.expand less_le_not_le
      intro: order_trans)

end

record starting =
  sg_done :: bool
  sg_canceled :: bool
  sg_startErr :: "go_err option"
  sg_closeErr :: "go_err option"

text \<open>
  A runner is an interface value: \<open>nil\<close>, a nil \<open>*PTYRunner\<close> inside a non-nil interface, which
  \<open>runner != nil\<close> does not detect, or a live runner.
\<close>

datatype runner_value = Nil_interface | Nil_pointer | Runner runner_id

text \<open>A zero \<open>time.Time\<close> is \<open>None\<close>.\<close>

record tab =
  tb_name :: string
  tb_runner :: runner_value
  tb_lastUsed :: "time option"
  tb_active :: int

record pane =
  pn_name :: string
  pn_tabs :: "(string \<times> tab_id) list"

record session =
  ss_name :: string
  ss_panes :: "(string \<times> pane) list"

record store =
  st_sessions :: "(string \<times> session) list"
  st_starting :: "(target_key \<times> start_id) list"
  st_tabs :: "tab list"
  st_starts :: "starting list"

definition NewStore :: store where
  "NewStore = \<lparr>st_sessions = [], st_starting = [], st_tabs = [], st_starts = []\<rparr>"

subsection \<open>The session tree\<close>

definition find_in :: "(string \<times> session) list \<Rightarrow> target_key \<Rightarrow> tab_id option" where
  "find_in sessions k =
     (case map_of sessions (tk_session k) of None \<Rightarrow> None
      | Some session \<Rightarrow> (case map_of (ss_panes session) (tk_pane k) of None \<Rightarrow> None
        | Some pane \<Rightarrow> map_of (pn_tabs pane) (tk_tab k)))"

definition findTabLocked :: "store \<Rightarrow> target_key \<Rightarrow> tab_id option" where
  "findTabLocked s k = find_in (st_sessions s) k"

definition install_in :: "(string \<times> session) list \<Rightarrow> target_key \<Rightarrow> tab_id \<Rightarrow> (string \<times> session) list" where
  "install_in sessions k tab =
     (let session = (case map_of sessions (tk_session k) of
            None \<Rightarrow> \<lparr>ss_name = tk_session k, ss_panes = []\<rparr> | Some session \<Rightarrow> session);
          pane = (case map_of (ss_panes session) (tk_pane k) of
            None \<Rightarrow> \<lparr>pn_name = tk_pane k, pn_tabs = []\<rparr> | Some pane \<Rightarrow> pane);
          pane' = pane\<lparr>pn_tabs := AList.update (tk_tab k) tab (pn_tabs pane)\<rparr>;
          session' = session\<lparr>ss_panes := AList.update (tk_pane k) pane' (ss_panes session)\<rparr>
      in AList.update (tk_session k) session' sessions)"

definition installTabLocked :: "store \<Rightarrow> target_key \<Rightarrow> tab_id \<Rightarrow> store" where
  "installTabLocked s k tab = s\<lparr>st_sessions := install_in (st_sessions s) k tab\<rparr>"

definition remove_in :: "(string \<times> session) list \<Rightarrow> target_key \<Rightarrow> (string \<times> session) list" where
  "remove_in sessions k =
     (case map_of sessions (tk_session k) of None \<Rightarrow> sessions
      | Some session \<Rightarrow> (case map_of (ss_panes session) (tk_pane k) of None \<Rightarrow> sessions
        | Some pane \<Rightarrow>
            (let tabs = AList.delete (tk_tab k) (pn_tabs pane);
                 panes = (if tabs = [] then AList.delete (tk_pane k) (ss_panes session)
                          else AList.update (tk_pane k) (pane\<lparr>pn_tabs := tabs\<rparr>) (ss_panes session))
             in if panes = [] then AList.delete (tk_session k) sessions
                else AList.update (tk_session k) (session\<lparr>ss_panes := panes\<rparr>) sessions)))"

definition removeTabLocked :: "store \<Rightarrow> target_key \<Rightarrow> store" where
  "removeTabLocked s k = s\<lparr>st_sessions := remove_in (st_sessions s) k\<rparr>"

text \<open>All tabs with their targets, in iteration order.\<close>

definition all_tabs :: "(string \<times> session) list \<Rightarrow> (target_key \<times> tab_id) list" where
  "all_tabs sessions =
     concat (map (\<lambda>(sn, session). concat (map (\<lambda>(pn, pane).
       map (\<lambda>(tn, tab). (Target_key sn pn tn, tab)) (pn_tabs pane)) (ss_panes session))) sessions)"

text \<open>Access to the heap of tabs.\<close>

definition upd_tab :: "(tab \<Rightarrow> tab) \<Rightarrow> tab_id \<Rightarrow> store \<Rightarrow> store" where
  "upd_tab f i s = s\<lparr>st_tabs := (st_tabs s)[i := f (st_tabs s ! i)]\<rparr>"

definition upd_start :: "(starting \<Rightarrow> starting) \<Rightarrow> start_id \<Rightarrow> store \<Rightarrow> store" where
  "upd_start f i s = s\<lparr>st_starts := (st_starts s)[i := f (st_starts s ! i)]\<rparr>"

subsection \<open>Using tabs\<close>

definition BeginExistingUse :: "target_key \<Rightarrow> time \<Rightarrow> store \<Rightarrow> store \<times> tab_id option" where
  "BeginExistingUse k now s =
     (case findTabLocked s k of None \<Rightarrow> (s, None)
      | Some i \<Rightarrow> (upd_tab (\<lambda>t. t\<lparr>tb_active := tb_active t + 1, tb_lastUsed := Some now\<rparr>) i s, Some i))"

definition finishUse :: "tab_id \<Rightarrow> time \<Rightarrow> store \<Rightarrow> store" where
  "finishUse i now s =
     upd_tab (\<lambda>t. (if 0 < tb_active t then t\<lparr>tb_active := tb_active t - 1\<rparr> else t)
                    \<lparr>tb_lastUsed := Some now\<rparr>) i s"

definition TouchTarget :: "target_key \<Rightarrow> time \<Rightarrow> store \<Rightarrow> store" where
  "TouchTarget k now s =
     (case findTabLocked s k of None \<Rightarrow> s
      | Some i \<Rightarrow> upd_tab (\<lambda>t. t\<lparr>tb_lastUsed := Some now\<rparr>) i s)"

definition Empty :: "store \<Rightarrow> bool" where
  "Empty s \<longleftrightarrow> length (st_sessions s) = 0"

definition targetExists :: "store \<Rightarrow> target_key \<Rightarrow> bool" where
  "targetExists s k \<longleftrightarrow> findTabLocked s k \<noteq> None"

definition targetCount :: "store \<Rightarrow> nat" where
  "targetCount s =
     (\<Sum>(sn, session) \<leftarrow> st_sessions s. \<Sum>(pn, pane) \<leftarrow> ss_panes session. length (pn_tabs pane))"

subsection \<open>Creating\<close>

text \<open>The first critical section of \<open>getOrCreate\<close>: an installed tab, one to wait for, or a new start.\<close>

datatype lookup = Found tab_id | Wait start_id | Start start_id

definition get_or_start :: "target_key \<Rightarrow> bool \<Rightarrow> time \<Rightarrow> store \<Rightarrow> store \<times> lookup" where
  "get_or_start k active now s =
     (case findTabLocked s k of
        Some i \<Rightarrow>
          (upd_tab (\<lambda>t. (if active then t\<lparr>tb_active := tb_active t + 1\<rparr> else t)
                          \<lparr>tb_lastUsed := Some now\<rparr>) i s, Found i)
      | None \<Rightarrow>
          (case map_of (st_starting s) k of
             Some j \<Rightarrow> (s, Wait j)
           | None \<Rightarrow>
               (let j = length (st_starts s);
                    starting = \<lparr>sg_done = False, sg_canceled = False, sg_startErr = None, sg_closeErr = None\<rparr>
                in (s\<lparr>st_starts := st_starts s @ [starting],
                      st_starting := AList.update k j (st_starting s)\<rparr>, Start j))))"

text \<open>The second one, after \<open>newRunner\<close>.\<close>

datatype start_result =
    Canceled runner_value
  | Failed go_err
  | Installed tab_id

definition end_start :: "target_key \<Rightarrow> start_id \<Rightarrow> store \<Rightarrow> store" where
  "end_start k j s =
     upd_start (\<lambda>x. x\<lparr>sg_done := True\<rparr>) j (s\<lparr>st_starting := AList.delete k (st_starting s)\<rparr>)"

definition finish_start ::
  "target_key \<Rightarrow> bool \<Rightarrow> start_id \<Rightarrow> runner_value \<Rightarrow> go_err option \<Rightarrow> time \<Rightarrow> store \<Rightarrow>
     store \<times> start_result" where
  "finish_start k active j runner startErr now s =
     (if sg_canceled (st_starts s ! j) then (s, Canceled runner)
      else (case startErr of
        Some e \<Rightarrow> (end_start k j (upd_start (\<lambda>x. x\<lparr>sg_startErr := Some e\<rparr>) j s), Failed e)
      | None \<Rightarrow>
          (let i = length (st_tabs s);
               tab = \<lparr>tb_name = tk_tab k, tb_runner = runner, tb_lastUsed = Some now,
                      tb_active = (if active then 1 else 0)\<rparr>;
               s1 = installTabLocked (s\<lparr>st_tabs := st_tabs s @ [tab]\<rparr>) k i
           in (end_start k j s1, Installed i))))"

text \<open>
  Closing the runner of a canceled start: \<open>Close\<close> on a nil pointer dereferences it and panics
  (\<open>None\<close>). \<open>close_runner\<close> is what \<open>Runner.Close\<close> returns.
\<close>

definition close_canceled ::
  "(runner_value \<Rightarrow> go_err option) \<Rightarrow> runner_value \<Rightarrow> go_err option option" where
  "close_canceled close_runner runner =
     (case runner of Nil_interface \<Rightarrow> Some None | Nil_pointer \<Rightarrow> None
      | Runner r \<Rightarrow> Some (close_runner runner))"

text \<open>The third critical section, of a canceled start.\<close>

definition finish_canceled :: "target_key \<Rightarrow> start_id \<Rightarrow> go_err option \<Rightarrow> store \<Rightarrow> store" where
  "finish_canceled k j closeErr s =
     end_start k j (upd_start (\<lambda>x. x\<lparr>sg_closeErr := closeErr\<rparr>) j s)"

text \<open>What a caller that waited for a start does next: give up, fail, or look again.\<close>

datatype after_wait = Give_up | Give_error go_err | Retry

definition after_start :: "starting \<Rightarrow> after_wait" where
  "after_start x =
     (if sg_canceled x then Give_up
      else (case sg_startErr x of Some e \<Rightarrow> Give_error e | None \<Rightarrow> Retry))"

subsection \<open>Removing\<close>

definition removeWhenDone :: "target_key \<Rightarrow> tab_id \<Rightarrow> store \<Rightarrow> store \<times> runner_value list" where
  "removeWhenDone k i s =
     (if findTabLocked s k \<noteq> Some i then (s, [])
      else (removeTabLocked s k, [tb_runner (st_tabs s ! i)]))"

text \<open>\<open>time.Time.Sub\<close> saturates.\<close>

definition time_sub :: "time \<Rightarrow> time \<Rightarrow> int" where
  "time_sub a b = max (- (2 ^ 63)) (min (2 ^ 63 - 1) (a - b))"

definition idle_tab :: "time \<Rightarrow> int \<Rightarrow> tab \<Rightarrow> bool" where
  "idle_tab now idleFor t \<longleftrightarrow>
     \<not> (0 < tb_active t \<or> tb_lastUsed t = None \<or> time_sub now (the (tb_lastUsed t)) < idleFor)"

definition CloseIdleTargets :: "time \<Rightarrow> int \<Rightarrow> store \<Rightarrow> store \<times> runner_value list" where
  "CloseIdleTargets now idleFor s =
     (if idleFor \<le> 0 then (s, [])
      else (let idle = filter (\<lambda>(k, i). idle_tab now idleFor (st_tabs s ! i)) (all_tabs (st_sessions s))
            in (foldl removeTabLocked s (map fst idle), map (\<lambda>(k, i). tb_runner (st_tabs s ! i)) idle)))"

definition CloseAll :: "store \<Rightarrow> store \<times> runner_value list \<times> start_id list" where
  "CloseAll s =
     (let tabs = map (\<lambda>(k, i). tb_runner (st_tabs s ! i)) (all_tabs (st_sessions s));
          starting = map snd (st_starting s)
      in (foldl (\<lambda>s j. upd_start (\<lambda>x. x\<lparr>sg_canceled := True\<rparr>) j s) (s\<lparr>st_sessions := []\<rparr>) starting,
          tabs, starting))"

definition closeTarget ::
  "target_key \<Rightarrow> bool \<Rightarrow> store \<Rightarrow> store \<times> bool \<times> runner_value list \<times> start_id list" where
  "closeTarget k cancelStarting s =
     (let tab = findTabLocked s k;
          s1 = (if tab \<noteq> None then removeTabLocked s k else s);
          starting = map_of (st_starting s) k;
          s2 = (if starting \<noteq> None \<and> cancelStarting
                then upd_start (\<lambda>x. x\<lparr>sg_canceled := True\<rparr>) (the starting) s1 else s1)
      in if tab = None \<and> (\<not> cancelStarting \<or> starting = None) then (s2, False, [], [])
         else (s2, True, (case tab of None \<Rightarrow> [] | Some i \<Rightarrow> [tb_runner (st_tabs s ! i)]),
               (if starting \<noteq> None \<and> cancelStarting then [the starting] else [])))"

text \<open>\<open>closeTabs\<close>: every runner is closed, the first error is kept.\<close>

fun closeTabs :: "(runner_value \<Rightarrow> go_err option) \<Rightarrow> runner_value list \<Rightarrow> go_err option \<Rightarrow> go_err option" where
  "closeTabs close_runner [] firstErr = firstErr"
| "closeTabs close_runner (r # rs) firstErr =
     closeTabs close_runner rs (if close_runner r \<noteq> None \<and> firstErr = None then close_runner r else firstErr)"

subsection \<open>Snapshots\<close>

record tab_snapshot =
  ts_name :: string

record pane_snapshot =
  ps_name :: string
  ps_tabs :: "tab_snapshot list"

record session_snapshot =
  ns_name :: string
  ns_panes :: "pane_snapshot list"

record snapshot =
  sn_sessions :: "session_snapshot list"

definition tab_snapshots :: "(string \<times> tab_id) list \<Rightarrow> tab_snapshot list" where
  "tab_snapshots tabs = map (\<lambda>n. \<lparr>ts_name = n\<rparr>) (sort (map fst tabs))"

definition pane_snapshots :: "(string \<times> pane) list \<Rightarrow> pane_snapshot list" where
  "pane_snapshots panes =
     map (\<lambda>n. let pane = the (map_of panes n)
              in \<lparr>ps_name = pn_name pane, ps_tabs = tab_snapshots (pn_tabs pane)\<rparr>)
         (sort (map fst panes))"

definition snapshotLocked :: "store \<Rightarrow> snapshot" where
  "snapshotLocked s =
     \<lparr>sn_sessions =
        map (\<lambda>n. let session = the (map_of (st_sessions s) n)
                 in \<lparr>ns_name = ss_name session, ns_panes = pane_snapshots (ss_panes session)\<rparr>)
            (sort (map fst (st_sessions s)))\<rparr>"

definition SnapshotTarget :: "store \<Rightarrow> target_key \<Rightarrow> snapshot" where
  "SnapshotTarget s k =
     (if tk_session k = [] then snapshotLocked s
      else (case map_of (st_sessions s) (tk_session k) of
        None \<Rightarrow> \<lparr>sn_sessions = []\<rparr>
      | Some session \<Rightarrow>
          (if tk_pane k = [] then
             \<lparr>sn_sessions = [\<lparr>ns_name = ss_name session,
                ns_panes = map (\<lambda>n. \<lparr>ps_name = n, ps_tabs = []\<rparr>) (sort (map fst (ss_panes session)))\<rparr>]\<rparr>
           else (case map_of (ss_panes session) (tk_pane k) of
             None \<Rightarrow> \<lparr>sn_sessions = []\<rparr>
           | Some pane \<Rightarrow>
               \<lparr>sn_sessions = [\<lparr>ns_name = ss_name session,
                  ns_panes = [\<lparr>ps_name = pn_name pane,
                    ps_tabs = (if tk_tab k = [] then tab_snapshots (pn_tabs pane)
                      else if map_of (pn_tabs pane) (tk_tab k) \<noteq> None then [\<lparr>ts_name = tk_tab k\<rparr>]
                      else [])\<rparr>]\<rparr>]\<rparr>))))"

subsection \<open>The flat view\<close>

text \<open>
  The tree is a finite map from targets to tabs, \<open>find_in\<close>: installing updates it at one target,
  removing clears it at one target, and \<open>all_tabs\<close> enumerates it.
\<close>

lemma find_install: "find_in (install_in ss k t) k' = (if k' = k then Some t else find_in ss k')"
  by (cases k; cases k')
    (auto simp: find_in_def install_in_def Let_def update_conv' split: option.splits)

lemma map_of_Nil_iff: "map_of xs = Map.empty \<longleftrightarrow> xs = []"
  by (metis map_of_eq_empty_iff)

lemma delete_Nil_map_of: "AList.delete k xs = [] \<Longrightarrow> k' \<noteq> k \<Longrightarrow> map_of xs k' = None"
  by (metis delete_conv fun_upd_apply map_of.simps(1))

lemma find_remove: "find_in (remove_in ss k) k' = (if k' = k then None else find_in ss k')"
proof (cases k; cases k')
  fix s p t s' p' t' assume k: "k = Target_key s p t" "k' = Target_key s' p' t'"
  show ?thesis
  proof (cases "map_of ss s")
    case None
    then show ?thesis by (auto simp: k find_in_def remove_in_def)
  next
    case (Some x)
    show ?thesis
    proof (cases "map_of (ss_panes x) p")
      case None
      with Some show ?thesis by (auto simp: k find_in_def remove_in_def)
    next
      case (Some y)
      with \<open>map_of ss s = Some x\<close> show ?thesis
        using delete_Nil_map_of [of t "pn_tabs y"] delete_Nil_map_of [of p "ss_panes x"]
        by (auto simp: k find_in_def remove_in_def Let_def update_conv' delete_conv'
            update_nonempty split: option.splits)
    qed
  qed
qed

definition wf_panes :: "(string \<times> pane) list \<Rightarrow> bool" where
  "wf_panes ps \<longleftrightarrow> distinct (map fst ps) \<and>
     (\<forall>(n, p) \<in> set ps. pn_name p = n \<and> pn_tabs p \<noteq> [] \<and> distinct (map fst (pn_tabs p)))"

definition wf_sessions :: "(string \<times> session) list \<Rightarrow> bool" where
  "wf_sessions ss \<longleftrightarrow> distinct (map fst ss) \<and>
     (\<forall>(n, x) \<in> set ss. ss_name x = n \<and> ss_panes x \<noteq> [] \<and> wf_panes (ss_panes x))"

lemma set_update_cases: "(a, b) \<in> set (AList.update k v xs) \<Longrightarrow> (a, b) = (k, v) \<or> (a, b) \<in> set xs"
  by (induction xs) (auto split: if_splits)

lemma set_delete_iff: "(a, b) \<in> set (AList.delete k xs) \<longleftrightarrow> a \<noteq> k \<and> (a, b) \<in> set xs"
  by (auto simp: AList.delete_eq)

lemma set_delete_sub: "(a, b) \<in> set (AList.delete k xs) \<Longrightarrow> (a, b) \<in> set xs"
  by (simp add: set_delete_iff)

lemma wf_panes_upd:
  "wf_panes ps \<Longrightarrow> pn_name p = n \<Longrightarrow> pn_tabs p \<noteq> [] \<Longrightarrow> distinct (map fst (pn_tabs p)) \<Longrightarrow>
     wf_panes (AList.update n p ps)"
  unfolding wf_panes_def by (auto simp: distinct_update dest!: set_update_cases)

lemma wf_panes_del: "wf_panes ps \<Longrightarrow> wf_panes (AList.delete n ps)"
  unfolding wf_panes_def by (auto simp: distinct_delete dest!: set_delete_sub)

lemma wf_sessions_upd:
  "wf_sessions ss \<Longrightarrow> ss_name x = n \<Longrightarrow> ss_panes x \<noteq> [] \<Longrightarrow> wf_panes (ss_panes x) \<Longrightarrow>
     wf_sessions (AList.update n x ss)"
  unfolding wf_sessions_def by (auto simp: distinct_update dest!: set_update_cases)

lemma wf_sessions_del: "wf_sessions ss \<Longrightarrow> wf_sessions (AList.delete n ss)"
  unfolding wf_sessions_def by (auto simp: distinct_delete dest!: set_delete_sub)

lemma wf_session_of: "wf_sessions ss \<Longrightarrow> map_of ss n = Some x \<Longrightarrow>
    ss_name x = n \<and> ss_panes x \<noteq> [] \<and> wf_panes (ss_panes x)"
  unfolding wf_sessions_def by (fastforce dest: map_of_SomeD)

lemma wf_pane_of: "wf_panes ps \<Longrightarrow> map_of ps n = Some p \<Longrightarrow>
    pn_name p = n \<and> pn_tabs p \<noteq> [] \<and> distinct (map fst (pn_tabs p))"
  unfolding wf_panes_def by (fastforce dest: map_of_SomeD)

lemma wf_install [preserves]: "wf_sessions ss \<Longrightarrow> wf_sessions (install_in ss k t)"
proof -
  assume wf: "wf_sessions ss"
  define x where "x = (case map_of ss (tk_session k) of
      None \<Rightarrow> \<lparr>ss_name = tk_session k, ss_panes = []\<rparr> | Some x \<Rightarrow> x)"
  define y where "y = (case map_of (ss_panes x) (tk_pane k) of
      None \<Rightarrow> \<lparr>pn_name = tk_pane k, pn_tabs = []\<rparr> | Some y \<Rightarrow> y)"
  have x: "ss_name x = tk_session k" "wf_panes (ss_panes x)"
    using wf_session_of [OF wf] by (auto simp: x_def wf_panes_def split: option.splits)
  have y: "pn_name y = tk_pane k" "distinct (map fst (pn_tabs y))"
    using wf_pane_of [OF x(2)] by (auto simp: y_def split: option.splits)
  have "wf_panes (AList.update (tk_pane k) (y\<lparr>pn_tabs := AList.update (tk_tab k) t (pn_tabs y)\<rparr>) (ss_panes x))"
    using x y by (intro wf_panes_upd) (simp_all add: update_nonempty distinct_update)
  then show ?thesis
    unfolding install_in_def Let_def x_def [symmetric] y_def [symmetric]
    using wf x by (intro wf_sessions_upd) (simp_all add: update_nonempty)
qed

lemma wf_remove [preserves]: "wf_sessions ss \<Longrightarrow> wf_sessions (remove_in ss k)"
proof -
  assume wf: "wf_sessions ss"
  show "wf_sessions (remove_in ss k)"
  proof (cases "map_of ss (tk_session k)")
    case (Some x)
    note x = wf_session_of [OF wf Some]
    show ?thesis
    proof (cases "map_of (ss_panes x) (tk_pane k)")
      case p: (Some p)
      note y = wf_pane_of [OF conjunct2 [OF conjunct2 [OF x]] p]
      let ?t = "AList.delete (tk_tab k) (pn_tabs p)"
      have "wf_panes (AList.delete (tk_pane k) (ss_panes x))"
        "?t \<noteq> [] \<Longrightarrow> wf_panes (AList.update (tk_pane k) (p\<lparr>pn_tabs := ?t\<rparr>) (ss_panes x))"
        using x y by (auto intro!: wf_panes_del wf_panes_upd simp: distinct_delete)
      then show ?thesis
        using Some p x wf by (auto simp: remove_in_def Let_def intro!: wf_sessions_del wf_sessions_upd)
    qed (use wf Some in \<open>simp add: remove_in_def\<close>)
  qed (use wf in \<open>simp add: remove_in_def\<close>)
qed

text \<open>\<open>all_tabs\<close> enumerates the flat map, each target once.\<close>

lemma distinct_concat_keys:
  assumes "distinct (map fst xs)" "\<And>n x. (n, x) \<in> set xs \<Longrightarrow> distinct (map fst (f n x))"
    and "\<And>n x a. (n, x) \<in> set xs \<Longrightarrow> a \<in> fst ` set (f n x) \<Longrightarrow> g a = n"
  shows "distinct (map fst (concat (map (\<lambda>(n, x). f n x) xs)))"
  using assms
proof (induction xs)
  case (Cons p xs)
  obtain n x where p: "p = (n, x)" by (cases p)
  have "fst ` set (f n x) \<inter> (\<Union>(m, y) \<in> set xs. fst ` set (f m y)) = {}"
  proof (rule ccontr)
    assume "fst ` set (f n x) \<inter> (\<Union>(m, y) \<in> set xs. fst ` set (f m y)) \<noteq> {}"
    then obtain a m y where "a \<in> fst ` set (f n x)" "(m, y) \<in> set xs" "a \<in> fst ` set (f m y)" by blast
    then have "g a = n" "g a = m" using Cons.prems(3) p by (metis list.set_intros)+
    with \<open>(m, y) \<in> set xs\<close> Cons.prems(1) p show False by force
  qed
  moreover have "distinct (map fst (concat (map (\<lambda>(n, x). f n x) xs)))"
  proof (rule Cons.IH)
    show "distinct (map fst xs)" using Cons.prems(1) by simp
  qed (use Cons.prems(2,3) in \<open>meson list.set_intros(2)\<close>)+
  moreover have "distinct (map fst (f n x))" using Cons.prems(2) p by simp
  ultimately show ?case using p by (auto simp: image_image split_def) 
qed simp

lemma all_tabs_distinct: "wf_sessions ss \<Longrightarrow> distinct (map fst (all_tabs ss))"
  unfolding all_tabs_def
proof (rule distinct_concat_keys [where g = tk_session])
  assume wf: "wf_sessions ss"
  then show "distinct (map fst ss)" by (simp add: wf_sessions_def)
  fix n x assume x: "(n, x) \<in> set ss"
  then have p: "wf_panes (ss_panes x)" using wf by (auto simp: wf_sessions_def)
  show "distinct (map fst (concat (map (\<lambda>(pn, pane).
      map (\<lambda>(tn, tab). (Target_key n pn tn, tab)) (pn_tabs pane)) (ss_panes x))))"
  proof (rule distinct_concat_keys [where g = tk_pane])
    show "distinct (map fst (ss_panes x))" using p by (simp add: wf_panes_def)
    fix m y assume "(m, y) \<in> set (ss_panes x)"
    then have "distinct (map fst (pn_tabs y))" using p by (auto simp: wf_panes_def)
    then have "distinct (map (\<lambda>(tn, tab). Target_key n m tn) (pn_tabs y))"
      by (auto simp: distinct_map inj_on_def) (metis fst_conv prod.inject)
    then show "distinct (map fst (map (\<lambda>(tn, tab). (Target_key n m tn, tab)) (pn_tabs y)))"
      by (simp add: comp_def split_def)
  qed auto
qed auto

lemma all_tabs_find: "wf_sessions ss \<Longrightarrow> (k, t) \<in> set (all_tabs ss) \<longleftrightarrow> find_in ss k = Some t"
proof -
  assume wf: "wf_sessions ss"
  have s: "(n, x) \<in> set ss \<longleftrightarrow> map_of ss n = Some x" for n x
    using wf by (auto simp: wf_sessions_def)
  have p: "(m, y) \<in> set (ss_panes x) \<longleftrightarrow> map_of (ss_panes x) m = Some y" if "(n, x) \<in> set ss" for n x m y
    using wf that by (auto simp: wf_sessions_def wf_panes_def)
  have t: "(l, i) \<in> set (pn_tabs y) \<longleftrightarrow> map_of (pn_tabs y) l = Some i"
    if "(n, x) \<in> set ss" "(m, y) \<in> set (ss_panes x)" for n x m y l i
    using wf that unfolding wf_sessions_def wf_panes_def by fastforce
  have "(k, t) \<in> set (all_tabs ss) \<longleftrightarrow> (\<exists>n x m y l. (n, x) \<in> set ss \<and> (m, y) \<in> set (ss_panes x) \<and>
      (l, t) \<in> set (pn_tabs y) \<and> k = Target_key n m l)"
    unfolding all_tabs_def by fastforce
  also have "\<dots> \<longleftrightarrow> find_in ss k = Some t"
    using s p t by (cases k) (fastforce simp: find_in_def split: option.splits)
  finally show ?thesis .
qed

lemma map_of_all_tabs: "wf_sessions ss \<Longrightarrow> map_of (all_tabs ss) = find_in ss"
proof
  fix k assume wf: "wf_sessions ss"
  show "map_of (all_tabs ss) k = find_in ss k"
    using all_tabs_find [OF wf] all_tabs_distinct [OF wf]
    by (metis map_of_SomeD not_None_eq weak_map_of_SomeI)
qed

lemma targetCount_all_tabs: "targetCount s = length (all_tabs (st_sessions s))"
  by (simp add: targetCount_def all_tabs_def length_concat comp_def split_def)

lemma all_tabs_Nil_iff: "wf_sessions ss \<Longrightarrow> all_tabs ss = [] \<longleftrightarrow> ss = []"
  by (cases ss) (auto simp: all_tabs_def wf_sessions_def wf_panes_def neq_Nil_conv)

lemma find_remove_list:
  "find_in (st_sessions (foldl removeTabLocked s ks)) k = (if k \<in> set ks then None else find_in (st_sessions s) k)"
  by (induction ks arbitrary: s) (auto simp: removeTabLocked_def find_remove)

lemma wf_remove_list: "wf_sessions (st_sessions s) \<Longrightarrow> wf_sessions (st_sessions (foldl removeTabLocked s ks))"
  by (induction ks arbitrary: s) (auto simp: removeTabLocked_def wf_remove)

lemma remove_list_frame:
  "st_starting (foldl removeTabLocked s ks) = st_starting s"
  "st_tabs (foldl removeTabLocked s ks) = st_tabs s"
  "st_starts (foldl removeTabLocked s ks) = st_starts s"
  by (induction ks arbitrary: s) (simp_all add: removeTabLocked_def)

subsection \<open>The invariant\<close>

text \<open>
  The tree is well-formed (distinct names, each node named by its key, no empty node), every
  installed tab exists, has its target's name and is installed once; every starting target exists,
  is not done, is started once and is not installed.
\<close>

definition store_inv :: "store \<Rightarrow> bool" where
  "store_inv s \<longleftrightarrow>
     wf_sessions (st_sessions s) \<and> distinct (map fst (st_starting s)) \<and>
     distinct (map snd (st_starting s)) \<and>
     (\<forall>k i. findTabLocked s k = Some i \<longrightarrow>
        i < length (st_tabs s) \<and> tb_name (st_tabs s ! i) = tk_tab k \<and>
        (\<forall>k'. findTabLocked s k' = Some i \<longrightarrow> k' = k)) \<and>
     (\<forall>k j. (k, j) \<in> set (st_starting s) \<longrightarrow>
        j < length (st_starts s) \<and> \<not> sg_done (st_starts s ! j) \<and> findTabLocked s k = None)"

lemma store_inv_New [simp]: "store_inv NewStore"
  by (simp add: store_inv_def NewStore_def wf_sessions_def findTabLocked_def find_in_def)

lemma findTab_upd [simp]:
  "findTabLocked (upd_tab f i s) = findTabLocked s" "findTabLocked (upd_start g j s) = findTabLocked s"
  "findTabLocked (s\<lparr>st_starting := x\<rparr>) = findTabLocked s" "findTabLocked (s\<lparr>st_starts := y\<rparr>) = findTabLocked s"
  "findTabLocked (s\<lparr>st_tabs := z\<rparr>) = findTabLocked s"
  by (simp_all add: fun_eq_iff findTabLocked_def upd_tab_def upd_start_def)

lemma findTab_install: "findTabLocked (installTabLocked s k i) k' = (if k' = k then Some i else findTabLocked s k')"
  and findTab_remove: "findTabLocked (removeTabLocked s k) k' = (if k' = k then None else findTabLocked s k')"
  and findTab_remove_list: "findTabLocked (foldl removeTabLocked s ks) k' = (if k' \<in> set ks then None else findTabLocked s k')"
  by (simp_all add: findTabLocked_def installTabLocked_def removeTabLocked_def find_install find_remove
      find_remove_list)

lemma upd_frame [simp]:
  "st_sessions (upd_tab f i s) = st_sessions s" "st_sessions (upd_start g j s) = st_sessions s"
  "st_starting (upd_tab f i s) = st_starting s" "st_starting (upd_start g j s) = st_starting s"
  "st_tabs (upd_start g j s) = st_tabs s" "st_starts (upd_tab f i s) = st_starts s"
  "length (st_tabs (upd_tab f i s)) = length (st_tabs s)"
  "length (st_starts (upd_start g j s)) = length (st_starts s)"
  by (simp_all add: upd_tab_def upd_start_def)

lemma upd_nth:
  "i < length (st_tabs s) \<Longrightarrow> st_tabs (upd_tab f i s) ! i' = (if i' = i then f (st_tabs s ! i) else st_tabs s ! i')"
  "j < length (st_starts s) \<Longrightarrow>
     st_starts (upd_start g j s) ! j' = (if j' = j then g (st_starts s ! j) else st_starts s ! j')"
  by (auto simp: upd_tab_def upd_start_def nth_list_update)

lemma remove_frame [simp]:
  "st_starting (removeTabLocked s k) = st_starting s" "st_tabs (removeTabLocked s k) = st_tabs s"
  "st_starts (removeTabLocked s k) = st_starts s"
  by (simp_all add: removeTabLocked_def)

text \<open>An update of a tab that keeps its name and runner.\<close>

lemma store_inv_upd_tab [preserves]:
  assumes "store_inv s" "i < length (st_tabs s)" "\<And>t. tb_name (f t) = tb_name t"
  shows "store_inv (upd_tab f i s)"
  using assms by (auto simp: store_inv_def upd_nth)

lemma store_inv_upd_start [preserves]:
  assumes "store_inv s" "j < length (st_starts s)" "\<And>t. sg_done (g t) = sg_done t"
  shows "store_inv (upd_start g j s)"
  using assms by (auto simp: store_inv_def upd_nth)

lemma store_inv_remove [preserves]: "store_inv s \<Longrightarrow> store_inv (removeTabLocked s k)"
proof -
  assume s: "store_inv s"
  then have "wf_sessions (st_sessions (removeTabLocked s k))"
    by (simp add: removeTabLocked_def store_inv_def wf_remove)
  with s show ?thesis by (auto simp: store_inv_def findTab_remove)
qed

lemma store_inv_remove_list [preserves]: "store_inv s \<Longrightarrow> store_inv (foldl removeTabLocked s ks)"
  by (induction ks arbitrary: s) (auto simp: store_inv_remove)

lemma findTab_less: "store_inv s \<Longrightarrow> findTabLocked s k = Some i \<Longrightarrow> i < length (st_tabs s)"
  by (simp add: store_inv_def)

lemma starting_less: "store_inv s \<Longrightarrow> map_of (st_starting s) k = Some j \<Longrightarrow> j < length (st_starts s)"
  by (auto simp: store_inv_def dest: map_of_SomeD)

subsection \<open>The operations on the flat map\<close>

lemma distinct_snd_eq: "distinct (map snd xs) \<Longrightarrow> (a, j) \<in> set xs \<Longrightarrow> (b, j) \<in> set xs \<Longrightarrow> a = b"
  by (induction xs) force+

lemma update_fresh: "k \<notin> fst ` set xs \<Longrightarrow> AList.update k v xs = xs @ [(k, v)]"
  by (induction xs) auto

lemma store_inv_end_start:
  assumes "store_inv s" "map_of (st_starting s) k = Some j"
  shows "store_inv (end_start k j s)"
proof -
  have ds: "distinct (map fst (st_starting s))" "distinct (map snd (st_starting s))"
    using assms(1) by (simp_all add: store_inv_def)
  have "k' = k" if "(k', j) \<in> set (st_starting s)" for k'
    using distinct_snd_eq [OF ds(2) that map_of_SomeD [OF assms(2)]] .
  moreover have "distinct (map snd (AList.delete k (st_starting s)))"
    using ds(2) by (simp add: AList.delete_eq distinct_map_filter)
  ultimately show ?thesis
    using assms(1) starting_less [OF assms] ds
    by (auto simp: store_inv_def end_start_def upd_nth distinct_delete set_delete_iff)
qed

lemma get_or_start_inv [preserves]:
  assumes "store_inv s"
  shows "store_inv (fst (get_or_start k active now s))"
proof (cases "findTabLocked s k")
  case (Some i)
  then show ?thesis
    using assms findTab_less [OF assms Some] by (simp add: get_or_start_def store_inv_upd_tab)
next
  case None
  show ?thesis
  proof (cases "map_of (st_starting s) k")
    case n: None
    let ?j = "length (st_starts s)"
    have f: "k \<notin> fst ` set (st_starting s)" using n by (simp add: map_of_eq_None_iff)
    have u: "AList.update k ?j (st_starting s) = st_starting s @ [(k, ?j)]"
      using f by (rule update_fresh)
    have "?j \<notin> snd ` set (st_starting s)"
      using assms starting_less [OF assms] by (fastforce simp: store_inv_def)
    then show ?thesis
      using assms None n f
      by (auto simp: get_or_start_def Let_def store_inv_def u nth_append findTabLocked_def less_Suc_eq)
  qed (use assms None in \<open>simp add: get_or_start_def\<close>)
qed

lemma BeginExistingUse_inv [preserves]: "store_inv s \<Longrightarrow> store_inv (fst (BeginExistingUse k now s))"
  by (auto simp: BeginExistingUse_def findTab_less intro!: store_inv_upd_tab split: option.splits)

lemma finishUse_inv [preserves]: "store_inv s \<Longrightarrow> i < length (st_tabs s) \<Longrightarrow> store_inv (finishUse i now s)"
  by (simp add: finishUse_def store_inv_upd_tab)

lemma TouchTarget_inv [preserves]: "store_inv s \<Longrightarrow> store_inv (TouchTarget k now s)"
  by (auto simp: TouchTarget_def findTab_less intro!: store_inv_upd_tab split: option.splits)

text \<open>The invariant in two halves: the tabs, and the starting targets.\<close>

definition tabs_ok :: "(string \<times> session) list \<Rightarrow> tab list \<Rightarrow> bool" where
  "tabs_ok ss tabs \<longleftrightarrow> wf_sessions ss \<and>
     (\<forall>k i. find_in ss k = Some i \<longrightarrow> i < length tabs \<and> tb_name (tabs ! i) = tk_tab k \<and>
        (\<forall>k'. find_in ss k' = Some i \<longrightarrow> k' = k))"

definition starts_ok :: "(string \<times> session) list \<Rightarrow> (target_key \<times> start_id) list \<Rightarrow> starting list \<Rightarrow> bool" where
  "starts_ok ss starting starts \<longleftrightarrow> distinct (map fst starting) \<and> distinct (map snd starting) \<and>
     (\<forall>k j. (k, j) \<in> set starting \<longrightarrow> j < length starts \<and> \<not> sg_done (starts ! j) \<and> find_in ss k = None)"

lemma store_inv_split:
  "store_inv s \<longleftrightarrow> tabs_ok (st_sessions s) (st_tabs s) \<and>
     starts_ok (st_sessions s) (st_starting s) (st_starts s)"
  by (auto simp: store_inv_def tabs_ok_def starts_ok_def findTabLocked_def)

lemma tabs_ok_install:
  assumes "tabs_ok ss tabs" "tb_name t = tk_tab k"
  shows "tabs_ok (install_in ss k (length tabs)) (tabs @ [t])"
proof -
  have w: "wf_sessions (install_in ss k (length tabs))" using assms(1) by (simp add: tabs_ok_def wf_install)
  have o: "i < length tabs \<and> tb_name (tabs ! i) = tk_tab k' \<and> (\<forall>k''. find_in ss k'' = Some i \<longrightarrow> k'' = k')"
    if "find_in ss k' = Some i" for k' i
    using assms(1) that by (simp add: tabs_ok_def)
  have "i < length (tabs @ [t]) \<and> tb_name ((tabs @ [t]) ! i) = tk_tab k' \<and>
      (\<forall>k''. find_in (install_in ss k (length tabs)) k'' = Some i \<longrightarrow> k'' = k')"
    if "find_in (install_in ss k (length tabs)) k' = Some i" for k' i
  proof (cases "k' = k")
    case True
    then have "i = length tabs" using that by (simp add: find_install)
    then show ?thesis using True assms(2) o by (auto simp: find_install split: if_splits)
  next
    case False
    then have "find_in ss k' = Some i" using that by (simp add: find_install)
    from o [OF this] show ?thesis by (auto simp: find_install nth_append split: if_splits)
  qed
  with w show ?thesis by (simp add: tabs_ok_def)
qed

lemma starts_ok_end:
  assumes "starts_ok ss starting starts" "(k, j) \<in> set starting"
    and "\<And>k'. k' \<noteq> k \<Longrightarrow> find_in ss' k' = find_in ss k'"
  shows "starts_ok ss' (AList.delete k starting) (starts[j := x])"
proof -
  have d: "distinct (map snd starting)" using assms(1) by (simp add: starts_ok_def)
  have "j' \<noteq> j" if "(k', j') \<in> set starting" "k' \<noteq> k" for k' j'
    using distinct_snd_eq [OF d] assms(2) that by metis
  then show ?thesis
    using assms by (auto simp: starts_ok_def distinct_delete set_delete_iff AList.delete_eq
        distinct_map_filter) (metis nth_list_update_neq)
qed

lemma starts_ok_upd:
  "starts_ok ss starting starts \<Longrightarrow> (\<And>t. sg_done (g t) = sg_done t) \<Longrightarrow> starts_ok ss starting (starts[j := g (starts ! j)])"
  by (cases "j < length starts") (auto simp: starts_ok_def nth_list_update not_less list_update_beyond)

lemma finish_start_inv [preserves]:
  assumes "store_inv s" "map_of (st_starting s) k = Some j"
  shows "store_inv (fst (finish_start k active j runner startErr now s))"
proof -
  have j: "(k, j) \<in> set (st_starting s)" by (rule map_of_SomeD [OF assms(2)])
  have ok: "tabs_ok (st_sessions s) (st_tabs s)" "starts_ok (st_sessions s) (st_starting s) (st_starts s)"
    using assms(1) by (simp_all add: store_inv_split)
  have "store_inv (end_start k j (upd_start (\<lambda>x. x\<lparr>sg_startErr := e\<rparr>) j s))" for e
    using ok(1) starts_ok_end [OF starts_ok_upd [OF ok(2), of "\<lambda>x. x\<lparr>sg_startErr := e\<rparr>" j] j]
    by (simp add: store_inv_split end_start_def upd_start_def)
  moreover have "store_inv (end_start k j
      (installTabLocked (s\<lparr>st_tabs := st_tabs s @ [t]\<rparr>) k (length (st_tabs s))))"
    if "tb_name t = tk_tab k" for t
    using tabs_ok_install [OF ok(1) that]
      starts_ok_end [OF ok(2) j, of "install_in (st_sessions s) k (length (st_tabs s))"]
    by (simp add: store_inv_split end_start_def upd_start_def installTabLocked_def find_install)
  ultimately show ?thesis using assms(1) by (simp add: finish_start_def Let_def split: option.splits)
qed

lemma finish_canceled_inv [preserves]:
  assumes "store_inv s" "map_of (st_starting s) k = Some j"
  shows "store_inv (finish_canceled k j closeErr s)"
proof -
  have ok: "tabs_ok (st_sessions s) (st_tabs s)" "starts_ok (st_sessions s) (st_starting s) (st_starts s)"
    using assms(1) by (simp_all add: store_inv_split)
  show ?thesis
    using ok(1) starts_ok_end [OF starts_ok_upd [OF ok(2), of "\<lambda>x. x\<lparr>sg_closeErr := closeErr\<rparr>" j]
        map_of_SomeD [OF assms(2)]]
    by (simp add: finish_canceled_def store_inv_split end_start_def upd_start_def)
qed

lemma removeWhenDone_inv [preserves]: "store_inv s \<Longrightarrow> store_inv (fst (removeWhenDone k i s))"
  by (simp add: removeWhenDone_def store_inv_remove)

lemma CloseIdleTargets_inv [preserves]: "store_inv s \<Longrightarrow> store_inv (fst (CloseIdleTargets now d s))"
  by (simp add: CloseIdleTargets_def Let_def store_inv_remove_list)

lemma cancel_inv: "store_inv s \<Longrightarrow> store_inv (upd_start (\<lambda>x. x\<lparr>sg_canceled := True\<rparr>) j s)"
  by (simp add: store_inv_split upd_start_def starts_ok_upd)

lemma cancel_list_inv:
  "store_inv s \<Longrightarrow> store_inv (foldl (\<lambda>s j. upd_start (\<lambda>x. x\<lparr>sg_canceled := True\<rparr>) j s) s js)"
  by (induction js arbitrary: s) (simp_all add: cancel_inv)

lemma CloseAll_inv [preserves]: "store_inv s \<Longrightarrow> store_inv (fst (CloseAll s))"
  unfolding CloseAll_def Let_def fst_conv
  by (rule cancel_list_inv)
    (auto simp: store_inv_split tabs_ok_def starts_ok_def wf_sessions_def find_in_def)

lemma closeTarget_inv [preserves]: "store_inv s \<Longrightarrow> store_inv (fst (closeTarget k c s))"
  by (simp add: closeTarget_def Let_def store_inv_remove cancel_inv)

lemmas store_preserves = BeginExistingUse_inv finishUse_inv TouchTarget_inv get_or_start_inv
  finish_start_inv finish_canceled_inv removeWhenDone_inv CloseIdleTargets_inv CloseAll_inv closeTarget_inv

subsection \<open>The flat map after an operation\<close>

lemma flat_get_or_start [simp]: "findTabLocked (fst (get_or_start k a now s)) = findTabLocked s"
  by (simp add: get_or_start_def Let_def split: option.splits)

lemma flat_end_start [simp]: "findTabLocked (end_start k j s) = findTabLocked s"
  by (simp add: end_start_def)

lemma flat_finish_start:
  "finish_start k a j r e now s = (s', Installed i) \<Longrightarrow> findTabLocked s' = (findTabLocked s)(k \<mapsto> i)"
  by (auto simp: finish_start_def Let_def fun_eq_iff findTab_install split: if_splits option.splits)

lemma flat_finish_start_other:
  "finish_start k a j r e now s = (s', x) \<Longrightarrow> (\<And>i. x \<noteq> Installed i) \<Longrightarrow> findTabLocked s' = findTabLocked s"
  by (auto simp: finish_start_def Let_def split: if_splits option.splits)

lemma flat_closeTarget: "findTabLocked (fst (closeTarget k c s)) = (findTabLocked s)(k := None)"
  by (auto simp: closeTarget_def Let_def fun_eq_iff findTab_remove)

lemma flat_removeWhenDone:
  "findTabLocked (fst (removeWhenDone k i s)) =
     (if findTabLocked s k = Some i then (findTabLocked s)(k := None) else findTabLocked s)"
  by (auto simp: removeWhenDone_def fun_eq_iff findTab_remove)

lemma sessions_cancel_list: "st_sessions (foldl (\<lambda>s j. upd_start g j s) s js) = st_sessions s"
  by (induction js arbitrary: s) simp_all

lemma flat_CloseAll: "findTabLocked (fst (CloseAll s)) = Map.empty"
  by (simp add: CloseAll_def Let_def fun_eq_iff findTabLocked_def sessions_cancel_list find_in_def)

lemma flat_CloseIdleTargets:
  assumes "store_inv s" "0 < d"
  shows "findTabLocked (fst (CloseIdleTargets now d s)) k =
    (case findTabLocked s k of None \<Rightarrow> None
     | Some i \<Rightarrow> if idle_tab now d (st_tabs s ! i) then None else Some i)"
proof -
  have wf: "wf_sessions (st_sessions s)" using assms(1) by (simp add: store_inv_def)
  have "k \<in> fst ` set (filter (\<lambda>(k, i). idle_tab now d (st_tabs s ! i)) (all_tabs (st_sessions s))) \<longleftrightarrow>
      (\<exists>i. findTabLocked s k = Some i \<and> idle_tab now d (st_tabs s ! i))"
    using all_tabs_find [OF wf] by (force simp: findTabLocked_def)
  then show ?thesis
    using assms(2) by (auto simp: CloseIdleTargets_def Let_def findTab_remove_list split: option.splits)
qed

subsection \<open>Which runners are installed\<close>

text \<open>
  \<open>installed\<close> is the multiset of the runners of all tabs in the tree. Every operation that takes
  runners out of the tree hands exactly these runners to its caller, to be closed.
\<close>

definition installed :: "store \<Rightarrow> runner_value multiset" where
  "installed s = mset (map (\<lambda>(k, i). tb_runner (st_tabs s ! i)) (all_tabs (st_sessions s)))"

lemma finite_find: "wf_sessions ss \<Longrightarrow> finite {(k, i). find_in ss k = Some i}"
  using all_tabs_find [of ss] finite_set [of "all_tabs ss"] by (auto intro: rev_finite_subset)

lemma mset_all_tabs: "wf_sessions ss \<Longrightarrow> mset (all_tabs ss) = mset_set {(k, i). find_in ss k = Some i}"
proof -
  assume wf: "wf_sessions ss"
  have "distinct (all_tabs ss)" using all_tabs_distinct [OF wf] by (simp add: distinct_map)
  then have "mset (all_tabs ss) = mset_set (set (all_tabs ss))" by (simp add: mset_set_set)
  moreover have "set (all_tabs ss) = {(k, i). find_in ss k = Some i}" using all_tabs_find [OF wf] by auto
  ultimately show ?thesis by simp
qed

lemma all_tabs_install:
  assumes "wf_sessions ss" "find_in ss k = None"
  shows "mset (all_tabs (install_in ss k i)) = add_mset (k, i) (mset (all_tabs ss))"
proof -
  have "{(k', i'). find_in (install_in ss k i) k' = Some i'} = insert (k, i) {(k', i'). find_in ss k' = Some i'}"
    using assms(2) by (auto simp: find_install split: if_splits)
  then show ?thesis
    using assms finite_find [OF assms(1)] by (simp add: mset_all_tabs wf_install)
qed

lemma all_tabs_remove:
  assumes "wf_sessions ss" "find_in ss k = Some i"
  shows "mset (all_tabs ss) = add_mset (k, i) (mset (all_tabs (remove_in ss k)))"
proof -
  have "{(k', i'). find_in ss k' = Some i'} = insert (k, i) {(k', i'). find_in (remove_in ss k) k' = Some i'}"
    using assms(2) by (auto simp: find_remove split: if_splits)
  then show ?thesis
    using assms finite_find [OF wf_remove [OF assms(1)], of k] by (simp add: mset_all_tabs wf_remove find_remove)
qed

lemma installed_eq:
  "st_sessions s' = st_sessions s \<Longrightarrow> (\<And>i. tb_runner (st_tabs s' ! i) = tb_runner (st_tabs s ! i)) \<Longrightarrow>
     installed s' = installed s"
  by (simp add: installed_def)

lemma installed_upd_tab: "(\<And>t. tb_runner (f t) = tb_runner t) \<Longrightarrow> installed (upd_tab f i s) = installed s"
  by (rule installed_eq) (auto simp: upd_tab_def nth_list_update list_update_beyond
      intro: linorder_cases [of i "length (st_tabs s)"])

lemma installed_upd_start [simp]: "installed (upd_start g j s) = installed s"
  by (rule installed_eq) simp_all

lemma installed_end_start [simp]: "installed (end_start k j s) = installed s"
  by (rule installed_eq) (simp_all add: end_start_def)

lemma installed_use:
  "installed (fst (BeginExistingUse k now s)) = installed s" "installed (finishUse i now s) = installed s"
  "installed (TouchTarget k now s) = installed s" "installed (fst (get_or_start k a now s)) = installed s"
  by (auto simp: BeginExistingUse_def finishUse_def TouchTarget_def get_or_start_def Let_def
      intro!: installed_upd_tab intro: installed_eq split: option.splits)

lemma installed_remove:
  assumes "store_inv s" "findTabLocked s k = Some i"
  shows "installed s = add_mset (tb_runner (st_tabs s ! i)) (installed (removeTabLocked s k))"
proof -
  have "mset (all_tabs (st_sessions s)) = add_mset (k, i) (mset (all_tabs (remove_in (st_sessions s) k)))"
    using assms by (intro all_tabs_remove) (simp_all add: store_inv_def findTabLocked_def)
  then show ?thesis by (simp add: installed_def removeTabLocked_def)
qed

lemma installed_finish_start:
  assumes "store_inv s" "map_of (st_starting s) k = Some j"
    and "finish_start k a j r e now s = (s', Installed i)"
  shows "installed s' = add_mset r (installed s)"
proof -
  let ?t = "\<lparr>tb_name = tk_tab k, tb_runner = r, tb_lastUsed = Some now, tb_active = (if a then 1 else 0)\<rparr>"
  let ?i = "length (st_tabs s)"
  have s': "s' = end_start k j (installTabLocked (s\<lparr>st_tabs := st_tabs s @ [?t]\<rparr>) k ?i)"
    using assms(3) by (auto simp: finish_start_def Let_def split: if_splits option.splits)
  have n: "find_in (st_sessions s) k = None" and wf: "wf_sessions (st_sessions s)"
    using assms(1) map_of_SomeD [OF assms(2)] by (auto simp: store_inv_def findTabLocked_def)
  have less: "i < ?i" if "(k', i) \<in> set (all_tabs (st_sessions s))" for k' i
    using that all_tabs_find [OF wf] findTab_less [OF assms(1)] by (auto simp: findTabLocked_def)
  have "image_mset (\<lambda>(k, i). tb_runner ((st_tabs s @ [?t]) ! i)) (mset (all_tabs (st_sessions s))) =
      image_mset (\<lambda>(k, i). tb_runner (st_tabs s ! i)) (mset (all_tabs (st_sessions s)))"
    by (rule image_mset_cong) (use less in \<open>auto simp: nth_append\<close>)
  then show ?thesis
    unfolding s' installed_end_start
    by (simp add: installed_def installTabLocked_def all_tabs_install [OF wf n])
qed

lemma installed_finish_start_other:
  "finish_start k a j r e now s = (s', x) \<Longrightarrow> (\<And>i. x \<noteq> Installed i) \<Longrightarrow> installed s' = installed s"
  by (auto simp: finish_start_def Let_def split: if_splits option.splits)

lemma installed_removeWhenDone:
  "store_inv s \<Longrightarrow> removeWhenDone k i s = (s', rs) \<Longrightarrow> installed s = mset rs + installed s'"
  using installed_remove [of s k i] by (auto simp: removeWhenDone_def split: if_splits)

lemma installed_closeTarget:
  "store_inv s \<Longrightarrow> closeTarget k c s = (s', found, rs, js) \<Longrightarrow> installed s = mset rs + installed s'"
  using installed_remove [of s k]
  by (auto simp: closeTarget_def Let_def split: if_splits option.splits)

lemma installed_CloseAll: "CloseAll s = (s', rs, js) \<Longrightarrow> installed s = mset rs + installed s'"
  by (auto simp: CloseAll_def Let_def installed_def sessions_cancel_list all_tabs_def)

lemma installed_remove_list:
  assumes "store_inv s" "distinct (map fst ks)" "\<forall>(k, i)\<in>set ks. findTabLocked s k = Some i"
  shows "installed s = mset (map (\<lambda>(k, i). tb_runner (st_tabs s ! i)) ks) +
    installed (foldl removeTabLocked s (map fst ks))"
  using assms
proof (induction ks arbitrary: s)
  case (Cons p ks)
  obtain k i where p: "p = (k, i)" by (cases p)
  let ?s = "removeTabLocked s k"
  have "\<forall>(k, i)\<in>set ks. findTabLocked ?s k = Some i"
    using Cons.prems(2,3) p by (force simp: findTab_remove)
  from Cons.IH [OF store_inv_remove [OF Cons.prems(1)] _ this] Cons.prems(2)
  have "installed ?s = mset (map (\<lambda>(k, i). tb_runner (st_tabs s ! i)) ks) +
      installed (foldl removeTabLocked ?s (map fst ks))" by simp
  then show ?case using installed_remove [OF Cons.prems(1), of k i] Cons.prems(3) p by simp
qed simp

lemma installed_CloseIdleTargets:
  assumes "store_inv s" "CloseIdleTargets now d s = (s', rs)"
  shows "installed s = mset rs + installed s'"
proof (cases "d \<le> 0")
  case False
  have wf: "wf_sessions (st_sessions s)" using assms(1) by (simp add: store_inv_def)
  let ?ks = "filter (\<lambda>(k, i). idle_tab now d (st_tabs s ! i)) (all_tabs (st_sessions s))"
  have "distinct (map fst ?ks)" using all_tabs_distinct [OF wf] by (simp add: distinct_map_filter)
  moreover have "\<forall>(k, i)\<in>set ?ks. findTabLocked s k = Some i"
    using all_tabs_find [OF wf] by (auto simp: findTabLocked_def)
  ultimately show ?thesis
    using installed_remove_list [OF assms(1), of ?ks] assms(2) False
    by (auto simp: CloseIdleTargets_def Let_def)
qed (use assms in \<open>auto simp: CloseIdleTargets_def\<close>)

subsection \<open>What a snapshot lists\<close>

definition pane_keys :: "string \<Rightarrow> pane_snapshot \<Rightarrow> target_key list" where
  "pane_keys sn p = map (\<lambda>t. Target_key sn (ps_name p) (ts_name t)) (ps_tabs p)"

definition session_keys :: "session_snapshot \<Rightarrow> target_key list" where
  "session_keys s = concat (map (pane_keys (ns_name s)) (ns_panes s))"

definition snapshot_keys :: "snapshot \<Rightarrow> target_key list" where
  "snapshot_keys sn = concat (map session_keys (sn_sessions sn))"

lemma strict_sorted_concat:
  assumes "sorted_wrt (<) (ns :: 'a::linorder list)" "\<And>n. n \<in> set ns \<Longrightarrow> sorted_wrt (<) (f n)"
    and "\<And>n n' a b. n < n' \<Longrightarrow> n \<in> set ns \<Longrightarrow> n' \<in> set ns \<Longrightarrow> a \<in> set (f n) \<Longrightarrow> b \<in> set (f n') \<Longrightarrow> a < (b :: 'b::linorder)"
  shows "sorted_wrt (<) (concat (map f ns))"
  using assms
proof (induction ns)
  case (Cons n ns)
  then have "sorted_wrt (<) (concat (map f ns))" by simp
  then show ?case using Cons.prems by (auto simp: sorted_wrt_append)
qed simp

lemma strict_sorted_keys: "distinct xs \<Longrightarrow> sorted_wrt (<) (sort xs)"
  by (simp add: strict_sorted_iff)

lemma key_less:
  "s < s' \<Longrightarrow> Target_key s p t < Target_key s' p' t'"
  "p < p' \<Longrightarrow> Target_key s p t < Target_key s p' t'"
  "t < t' \<Longrightarrow> Target_key s p t < Target_key s p t'"
  by (auto simp: less_target_key_def)

lemma session_keys_snapshot:
  assumes "wf_panes ps"
  shows "sorted_wrt (<) (session_keys \<lparr>ns_name = sn, ns_panes = pane_snapshots ps\<rparr>)"
    "k \<in> set (session_keys \<lparr>ns_name = sn, ns_panes = pane_snapshots ps\<rparr>) \<longleftrightarrow>
      (\<exists>p. tk_session k = sn \<and> map_of ps (tk_pane k) = Some p \<and> map_of (pn_tabs p) (tk_tab k) \<noteq> None)"
proof -
  let ?f = "\<lambda>n. map (Target_key sn n) (sort (map fst (pn_tabs (the (map_of ps n)))))"
  have w: "pn_name (the (map_of ps n)) = n \<and> distinct (map fst (pn_tabs (the (map_of ps n))))"
    if "n \<in> fst ` set ps" for n
    using that wf_pane_of [OF assms] by (metis map_of_eq_None_iff not_None_eq option.sel)
  have e: "session_keys \<lparr>ns_name = sn, ns_panes = pane_snapshots ps\<rparr> = concat (map ?f (sort (map fst ps)))"
    using w by (auto simp: session_keys_def pane_snapshots_def pane_keys_def tab_snapshots_def Let_def comp_def
        intro!: arg_cong [of _ _ concat])
  have "sorted_wrt (<) (?f n)" if "n \<in> fst ` set ps" for n
    using strict_sorted_keys [of "map fst (pn_tabs (the (map_of ps n)))"] w [OF that]
    by (simp add: sorted_wrt_map sorted_wrt_mono_rel key_less(3))
      (metis (mono_tags, lifting) key_less(3) sorted_wrt_mono_rel)
  then show "sorted_wrt (<) (session_keys \<lparr>ns_name = sn, ns_panes = pane_snapshots ps\<rparr>)"
    unfolding e using assms
    by (intro strict_sorted_concat strict_sorted_keys) (auto simp: wf_panes_def key_less(2))
  show "k \<in> set (session_keys \<lparr>ns_name = sn, ns_panes = pane_snapshots ps\<rparr>) \<longleftrightarrow>
      (\<exists>p. tk_session k = sn \<and> map_of ps (tk_pane k) = Some p \<and> map_of (pn_tabs p) (tk_tab k) \<noteq> None)"
  proof -
    have "k \<in> set (concat (map ?f (sort (map fst ps)))) \<longleftrightarrow> tk_session k = sn \<and> tk_pane k \<in> fst ` set ps \<and>
        tk_tab k \<in> fst ` set (pn_tabs (the (map_of ps (tk_pane k))))"
      by (cases k) (auto 0 4)
    then show ?thesis
      unfolding e map_of_eq_None_iff
      by (cases "map_of ps (tk_pane k)") (auto simp: map_of_eq_None_iff dest: map_of_SomeD intro: rev_image_eqI)
  qed
qed

lemma snapshot_keys_sorted:
  assumes "wf_sessions (st_sessions s)"
  shows "sorted_wrt (<) (snapshot_keys (snapshotLocked s))"
    "k \<in> set (snapshot_keys (snapshotLocked s)) \<longleftrightarrow> findTabLocked s k \<noteq> None"
proof -
  let ?ss = "st_sessions s"
  let ?f = "\<lambda>n. session_keys \<lparr>ns_name = n, ns_panes = pane_snapshots (ss_panes (the (map_of ?ss n)))\<rparr>"
  have w: "ss_name (the (map_of ?ss n)) = n \<and> wf_panes (ss_panes (the (map_of ?ss n)))" if "n \<in> fst ` set ?ss" for n
    using that wf_session_of [OF assms] by (metis map_of_eq_None_iff not_None_eq option.sel)
  have e: "snapshot_keys (snapshotLocked s) = concat (map ?f (sort (map fst ?ss)))"
    using w by (auto simp: snapshot_keys_def snapshotLocked_def Let_def comp_def intro!: arg_cong [of _ _ concat])
  have m: "k \<in> set (?f n) \<longleftrightarrow> (\<exists>p. tk_session k = n \<and>
      map_of (ss_panes (the (map_of ?ss n))) (tk_pane k) = Some p \<and> map_of (pn_tabs p) (tk_tab k) \<noteq> None)"
    if "n \<in> fst ` set ?ss" for n k
    using session_keys_snapshot(2) w [OF that] by blast
  show "sorted_wrt (<) (snapshot_keys (snapshotLocked s))"
    unfolding e
  proof (rule strict_sorted_concat)
    show "sorted_wrt (<) (sort (map fst ?ss))"
      using assms by (intro strict_sorted_keys) (simp add: wf_sessions_def)
    show "sorted_wrt (<) (?f n)" if "n \<in> set (sort (map fst ?ss))" for n
      using session_keys_snapshot(1) w that by simp
    show "a < b" if "n < n'" "n \<in> set (sort (map fst ?ss))" "n' \<in> set (sort (map fst ?ss))"
      "a \<in> set (?f n)" "b \<in> set (?f n')" for n n' a b
      using that m [of n a] m [of n' b] by (cases a; cases b) (auto simp: key_less(1))
  qed
  show "k \<in> set (snapshot_keys (snapshotLocked s)) \<longleftrightarrow> findTabLocked s k \<noteq> None"
  proof -
    have "k \<in> set (snapshot_keys (snapshotLocked s)) \<longleftrightarrow> (\<exists>n\<in>fst ` set ?ss. k \<in> set (?f n))"
      unfolding e by simp
    also have "\<dots> \<longleftrightarrow> findTabLocked s k \<noteq> None"
      using m by (cases "map_of ?ss (tk_session k)")
        (auto simp: findTabLocked_def find_in_def map_of_eq_None_iff split: option.splits
          dest: map_of_SomeD weak_map_of_SomeI intro: rev_image_eqI)
    finally show ?thesis .
  qed
qed

subsection \<open>Properties\<close>

text \<open>Every operation of the store keeps its invariant: names and nodes of the tree agree, no
session or pane is left empty, a tab is installed under one target only, and a target is never
installed and starting at the same time.\<close>

lemma store_operations_keep_invariant:
  assumes "store_inv s" "i < length (st_tabs s)" "map_of (st_starting s) ks = Some j"
  shows "store_inv (fst (get_or_start k active now s)) \<and>
    store_inv (fst (finish_start ks active j runner startErr now s)) \<and>
    store_inv (finish_canceled ks j closeErr s) \<and>
    store_inv (fst (BeginExistingUse k now s)) \<and> store_inv (finishUse i now s) \<and>
    store_inv (TouchTarget k now s) \<and> store_inv (fst (removeWhenDone k i s)) \<and>
    store_inv (fst (CloseIdleTargets now idleFor s)) \<and> store_inv (fst (CloseAll s)) \<and>
    store_inv (fst (closeTarget k cancelStarting s))"
  using assms by (simp add: store_preserves)

text \<open>A store with one tab and one target that is starting.\<close>

definition example_store :: store where
  "example_store =
     fst (get_or_start (Target_key ''s'' ''p'' ''u'') True 7
       (fst (finish_start (Target_key ''s'' ''p'' ''t'') True 0 (Runner 5) None 3
         (fst (get_or_start (Target_key ''s'' ''p'' ''t'') True 2 NewStore)))))"

lemma example_store_eq:
  "example_store =
     \<lparr>st_sessions = [(''s'', \<lparr>ss_name = ''s'', ss_panes = [(''p'', \<lparr>pn_name = ''p'', pn_tabs = [(''t'', 0)]\<rparr>)]\<rparr>)],
      st_starting = [(Target_key ''s'' ''p'' ''u'', 1)],
      st_tabs = [\<lparr>tb_name = ''t'', tb_runner = Runner 5, tb_lastUsed = Some 3, tb_active = 1\<rparr>],
      st_starts = [\<lparr>sg_done = True, sg_canceled = False, sg_startErr = None, sg_closeErr = None\<rparr>,
        \<lparr>sg_done = False, sg_canceled = False, sg_startErr = None, sg_closeErr = None\<rparr>]\<rparr>"
  by (simp add: example_store_def NewStore_def get_or_start_def finish_start_def findTabLocked_def find_in_def
      installTabLocked_def install_in_def end_start_def upd_start_def Let_def)

lemma example_store_inv: "store_inv example_store"
proof -
  have "store_inv (fst (get_or_start (Target_key ''s'' ''p'' ''t'') True 2 NewStore))"
    by (simp add: get_or_start_inv)
  moreover have "map_of (st_starting (fst (get_or_start (Target_key ''s'' ''p'' ''t'') True 2 NewStore)))
      (Target_key ''s'' ''p'' ''t'') = Some 0"
    by (simp add: NewStore_def get_or_start_def findTabLocked_def find_in_def Let_def)
  ultimately show ?thesis
    unfolding example_store_def by (intro get_or_start_inv [OF finish_start_inv])
qed

lemma store_operations_keep_invariant_witness:
  "store_inv (fst (CloseAll example_store)) \<and>
   store_inv (fst (closeTarget (Target_key ''s'' ''p'' ''t'') True example_store))"
  using store_operations_keep_invariant [OF example_store_inv, of 0 "Target_key ''s'' ''p'' ''u''" 1
      "Target_key ''s'' ''p'' ''t''" True]
  by (simp add: example_store_eq)

text \<open>C1: The store implements a partial map from targets to tabs: a finished start adds exactly its
target, closing or a runner that ended clears exactly its target, closing everything clears the map,
closing idle targets clears exactly the idle ones, and looking up, waiting, failing or canceled starts
leave it alone.\<close>

lemma store_refines_map:
  assumes "store_inv s" "0 < idleFor"
  shows "findTabLocked (fst (get_or_start k active now s)) = findTabLocked s \<and>
    findTabLocked (fst (finish_start k active j runner startErr now s)) =
      (case snd (finish_start k active j runner startErr now s) of
         Installed i \<Rightarrow> (findTabLocked s)(k \<mapsto> i) | _ \<Rightarrow> findTabLocked s) \<and>
    findTabLocked (finish_canceled k j closeErr s) = findTabLocked s \<and>
    findTabLocked (fst (closeTarget k cancelStarting s)) = (findTabLocked s)(k := None) \<and>
    findTabLocked (fst (removeWhenDone k i s)) =
      (if findTabLocked s k = Some i then (findTabLocked s)(k := None) else findTabLocked s) \<and>
    findTabLocked (fst (CloseAll s)) = Map.empty \<and>
    findTabLocked (fst (CloseIdleTargets now idleFor s)) k =
      (case findTabLocked s k of None \<Rightarrow> None
       | Some i \<Rightarrow> if idle_tab now idleFor (st_tabs s ! i) then None else Some i)"
proof (intro conjI)
  obtain s' x where f: "finish_start k active j runner startErr now s = (s', x)" by fastforce
  show "findTabLocked (fst (finish_start k active j runner startErr now s)) =
      (case snd (finish_start k active j runner startErr now s) of
         Installed i \<Rightarrow> (findTabLocked s)(k \<mapsto> i) | _ \<Rightarrow> findTabLocked s)"
    using f flat_finish_start flat_finish_start_other by (cases x) fastforce+
  show "findTabLocked (finish_canceled k j closeErr s) = findTabLocked s"
    by (simp add: finish_canceled_def)
qed (use assms in \<open>simp_all add: flat_closeTarget flat_removeWhenDone flat_CloseAll flat_CloseIdleTargets\<close>)

lemma store_refines_map_witness:
  "store_inv example_store \<and> (0::int) < 10 \<and>
   findTabLocked (fst (closeTarget (Target_key ''s'' ''p'' ''t'') True example_store)) =
     (findTabLocked example_store)(Target_key ''s'' ''p'' ''t'' := None)"
  using store_refines_map [OF example_store_inv, of 10 "Target_key ''s'' ''p'' ''t''"] example_store_inv
  by simp

text \<open>\<open>list\<close> shows the installed targets, each exactly once, in the order of session, pane and tab
name.\<close>

lemma snapshot_lists_targets:
  assumes "store_inv s"
  shows "snapshot_keys (snapshotLocked s) = sorted_list_of_set {k. findTabLocked s k \<noteq> None} \<and>
    length (snapshot_keys (snapshotLocked s)) = targetCount s"
proof -
  have wf: "wf_sessions (st_sessions s)" using assms by (simp add: store_inv_def)
  have st: "sorted (snapshot_keys (snapshotLocked s))" "distinct (snapshot_keys (snapshotLocked s))"
    using snapshot_keys_sorted(1) [OF wf] by (simp_all add: strict_sorted_iff)
  have set: "set (snapshot_keys (snapshotLocked s)) = {k. findTabLocked s k \<noteq> None}"
    using snapshot_keys_sorted(2) [OF wf] by blast
  have "set (map fst (all_tabs (st_sessions s))) = {k. findTabLocked s k \<noteq> None}"
    using all_tabs_find [OF wf] by (force simp: findTabLocked_def)
  then have "targetCount s = card {k. findTabLocked s k \<noteq> None}"
    using distinct_card [OF all_tabs_distinct [OF wf]] by (simp add: targetCount_all_tabs)
  then show ?thesis
    using st set by (metis distinct_card sorted_list_of_set.idem_if_sorted_distinct)
qed

lemma snapshot_lists_targets_witness:
  "snapshot_keys (snapshotLocked example_store) = sorted_list_of_set {k. findTabLocked example_store k \<noteq> None} \<and>
   targetCount example_store = 1"
  using snapshot_lists_targets [OF example_store_inv] by (simp add: targetCount_def example_store_eq)

end
