(* ===== verification/Store_Concurrency.thy ===== *)
theory Store_Concurrency
  imports Target_Store
begin

section \<open>Interleaved calls on the store\<close>

text \<open>
  Calls on the store run concurrently; each is a sequence of critical sections with starting, waiting
  and closing of runners in between. A program counter \<open>pc\<close> says where a call is, a world is the
  store, the calls, the runners closed so far (in order), how many runners were started, and whether
  the process has panicked. \<open>step\<close> runs one section of one call; everything outside the code (whether
  a runner starts, what closing returns, the clock) is a choice. \<open>typed_nil\<close> says whether a runner
  factory that fails returns a nil pointer inside a non-nil interface, as the one of \<open>NewService\<close> does.
\<close>

datatype pc =
    Create target_key bool
  | Waiting target_key bool start_id
  | Starting target_key bool start_id
  | Started target_key bool start_id runner_value "go_err option"
  | Closing_start target_key start_id runner_value
  | Ending_start target_key start_id "go_err option"
  | Created "tab_id option" "go_err option"
  | Close target_key bool
  | Close_all
  | Close_idle time int
  | Runner_done target_key tab_id
  | Closing "runner_value list" "start_id list" "go_err option"
  | Closed "go_err option"

record world =
  w_store :: store
  w_calls :: "pc list"
  w_closed :: "runner_value list"
  w_next :: nat
  w_panic :: bool

definition new_world :: world where
  "new_world = \<lparr>w_store = NewStore, w_calls = [], w_closed = [], w_next = 0, w_panic = False\<rparr>"

fun entry :: "pc \<Rightarrow> bool" where
  "entry (Create k a) = True" | "entry (Close k c) = True" | "entry Close_all = True"
| "entry (Close_idle now d) = True" | "entry (Runner_done k i) = True" | "entry _ = False"

fun finished :: "pc \<Rightarrow> bool" where
  "finished (Created t e) = True" | "finished (Closed e) = True" | "finished _ = False"

definition goto :: "nat \<Rightarrow> pc \<Rightarrow> store \<Rightarrow> world \<Rightarrow> world" where
  "goto n pc s w = w\<lparr>w_store := s, w_calls := (w_calls w)[n := pc]\<rparr>"

fun after_lookup :: "target_key \<Rightarrow> bool \<Rightarrow> lookup \<Rightarrow> pc" where
  "after_lookup k a (Found i) = Created (Some i) None"
| "after_lookup k a (Wait j) = Waiting k a j"
| "after_lookup k a (Start j) = Starting k a j"

fun after_waiting :: "target_key \<Rightarrow> bool \<Rightarrow> after_wait \<Rightarrow> pc" where
  "after_waiting k a Give_up = Created None None"
| "after_waiting k a (Give_error e) = Created None (Some e)"
| "after_waiting k a Retry = Create k a"

fun after_finish :: "target_key \<Rightarrow> start_id \<Rightarrow> start_result \<Rightarrow> pc" where
  "after_finish k j (Canceled r) = Closing_start k j r"
| "after_finish k j (Failed e) = Created None (Some e)"
| "after_finish k j (Installed i) = Created (Some i) None"

definition first_err :: "go_err option \<Rightarrow> go_err option \<Rightarrow> go_err option" where
  "first_err e e' = (if e' \<noteq> None \<and> e = None then e' else e)"

definition live :: "runner_value \<Rightarrow> bool" where
  "live r \<longleftrightarrow> (\<exists>n. r = Runner n)"

lemma live_simps [simp]: "live (Runner n)" "\<not> live Nil_interface" "\<not> live Nil_pointer"
  by (simp_all add: live_def)

text \<open>\<open>at w n pc\<close>: call \<open>n\<close> is at \<open>pc\<close> in a process that has not panicked.\<close>

definition at :: "world \<Rightarrow> nat \<Rightarrow> pc \<Rightarrow> bool" where
  "at w n pc \<longleftrightarrow> \<not> w_panic w \<and> n < length (w_calls w) \<and> w_calls w ! n = pc"

inductive step :: "bool \<Rightarrow> world \<Rightarrow> world \<Rightarrow> bool" for typed_nil :: bool where
  call: "\<not> w_panic w \<Longrightarrow> entry pc \<Longrightarrow> step typed_nil w (w\<lparr>w_calls := w_calls w @ [pc]\<rparr>)"
| use: "\<not> w_panic w \<Longrightarrow> i < length (st_tabs (w_store w)) \<Longrightarrow>
    s' \<in> {fst (BeginExistingUse k now (w_store w)), finishUse i now (w_store w), TouchTarget k now (w_store w)} \<Longrightarrow>
    step typed_nil w (w\<lparr>w_store := s'\<rparr>)"
| lookup: "at w n (Create k a) \<Longrightarrow> get_or_start k a now (w_store w) = (s', r) \<Longrightarrow>
    step typed_nil w (goto n (after_lookup k a r) s' w)"
| wait: "at w n (Waiting k a j) \<Longrightarrow> sg_done (st_starts (w_store w) ! j) \<Longrightarrow>
    step typed_nil w (goto n (after_waiting k a (after_start (st_starts (w_store w) ! j))) (w_store w) w)"
| start: "at w n (Starting k a j) \<Longrightarrow>
    step typed_nil w ((goto n (Started k a j (Runner (w_next w)) None) (w_store w) w)\<lparr>w_next := w_next w + 1\<rparr>)"
| start_fails: "at w n (Starting k a j) \<Longrightarrow> r = (if typed_nil then Nil_pointer else Nil_interface) \<Longrightarrow>
    step typed_nil w (goto n (Started k a j r (Some e)) (w_store w) w)"
| finish: "at w n (Started k a j r e) \<Longrightarrow> finish_start k a j r e now (w_store w) = (s', x) \<Longrightarrow>
    step typed_nil w (goto n (after_finish k j x) s' w)"
| close_start: "at w n (Closing_start k j r) \<Longrightarrow> close_canceled close r = Some e \<Longrightarrow>
    step typed_nil w ((goto n (Ending_start k j e) (w_store w) w)
      \<lparr>w_closed := w_closed w @ (if live r then [r] else [])\<rparr>)"
| close_panics: "at w n (Closing_start k j r) \<Longrightarrow> close_canceled close r = None \<Longrightarrow>
    step typed_nil w (w\<lparr>w_panic := True\<rparr>)"
| end_start: "at w n (Ending_start k j e) \<Longrightarrow>
    step typed_nil w (goto n (Created None None) (finish_canceled k j e (w_store w)) w)"
| close: "at w n (Close k c) \<Longrightarrow> closeTarget k c (w_store w) = (s', found, rs, js) \<Longrightarrow>
    step typed_nil w (goto n (Closing rs js None) s' w)"
| close_all: "at w n Close_all \<Longrightarrow> CloseAll (w_store w) = (s', rs, js) \<Longrightarrow>
    step typed_nil w (goto n (Closing rs js None) s' w)"
| close_idle: "at w n (Close_idle now d) \<Longrightarrow> CloseIdleTargets now d (w_store w) = (s', rs) \<Longrightarrow>
    step typed_nil w (goto n (Closing rs [] None) s' w)"
| runner_done: "at w n (Runner_done k i) \<Longrightarrow> removeWhenDone k i (w_store w) = (s', rs) \<Longrightarrow>
    step typed_nil w (goto n (Closing rs [] None) s' w)"
| close_runner: "at w n (Closing (r # rs) js e) \<Longrightarrow>
    step typed_nil w ((goto n (Closing rs js (first_err e e')) (w_store w) w)\<lparr>w_closed := w_closed w @ [r]\<rparr>)"
| close_wait: "at w n (Closing [] (j # js) e) \<Longrightarrow> sg_done (st_starts (w_store w) ! j) \<Longrightarrow>
    step typed_nil w (goto n (Closing [] js (first_err e (sg_closeErr (st_starts (w_store w) ! j)))) (w_store w) w)"
| close_end: "at w n (Closing [] [] e) \<Longrightarrow> step typed_nil w (goto n (Closed e) (w_store w) w)"

inductive_cases step_cases: "step typed_nil w w'"

definition reachable :: "bool \<Rightarrow> world \<Rightarrow> bool" where
  "reachable typed_nil w \<longleftrightarrow> (step typed_nil)\<^sup>*\<^sup>* new_world w"

subsection \<open>What a call holds\<close>

text \<open>
  The runners a call has in its hands (started but not yet installed, or taken out and not yet
  closed), and the start it is responsible for.
\<close>

definition live_mset :: "runner_value \<Rightarrow> runner_value multiset" where
  "live_mset r = (if live r then {#r#} else {#})"

fun held :: "pc \<Rightarrow> runner_value multiset" where
  "held (Started k a j r e) = live_mset r"
| "held (Closing_start k j r) = live_mset r"
| "held (Closing rs js e) = mset rs"
| "held _ = {#}"

fun starter :: "pc \<Rightarrow> (target_key \<times> start_id) multiset" where
  "starter (Starting k a j) = {#(k, j)#}"
| "starter (Started k a j r e) = {#(k, j)#}"
| "starter (Closing_start k j r) = {#(k, j)#}"
| "starter (Ending_start k j e) = {#(k, j)#}"
| "starter _ = {#}"

fun waits_for :: "pc \<Rightarrow> start_id set" where
  "waits_for (Waiting k a j) = {j}"
| "waits_for (Closing rs js e) = set js"
| "waits_for _ = {}"

fun outcome_ok :: "pc \<Rightarrow> bool" where
  "outcome_ok (Started k a j r e) = (live r = (e = None))"
| "outcome_ok _ = True"

definition total_of :: "(pc \<Rightarrow> 'a::comm_monoid_add) \<Rightarrow> pc list \<Rightarrow> 'a" where
  "total_of f pcs = sum_list (map f pcs)"

lemma total_of_append [simp]: "total_of f (pcs @ [pc]) = total_of f pcs + f pc"
  by (simp add: total_of_def)

lemma total_of_update: "n < length pcs \<Longrightarrow> total_of f (pcs[n := pc]) + f (pcs ! n) = total_of f pcs + f pc"
proof (induction pcs arbitrary: n)
  case (Cons p pcs)
  then show ?case by (cases n) (auto simp: total_of_def ac_simps)
qed simp

lemma total_of_member:
  fixes f :: "pc \<Rightarrow> 'a multiset"
  shows "n < length pcs \<Longrightarrow> f (pcs ! n) \<subseteq># total_of f pcs"
  by (induction pcs arbitrary: n) (auto simp: total_of_def nth_Cons split: nat.splits
      intro: subset_mset.add_increasing subset_mset.add_increasing2)

lemma total_of_elem:
  fixes f :: "pc \<Rightarrow> 'a multiset"
  shows "x \<in># total_of f pcs \<Longrightarrow> \<exists>n<length pcs. x \<in># f (pcs ! n)"
  by (induction pcs) (force simp: total_of_def)+

subsection \<open>The invariant\<close>

definition done_ok :: "store \<Rightarrow> bool" where
  "done_ok s \<longleftrightarrow> (\<forall>j<length (st_starts s). sg_done (st_starts s ! j) \<or> j \<in> snd ` set (st_starting s))"

text \<open>
  Every runner ever started is installed, or in the hands of one call, or closed, and only one of
  these, once; every starting target has exactly one call that will end it; a start that is waited
  for exists and is done or still starting.
\<close>

definition world_inv :: "world \<Rightarrow> bool" where
  "world_inv w \<longleftrightarrow>
     store_inv (w_store w) \<and> done_ok (w_store w) \<and>
     installed (w_store w) + total_of held (w_calls w) + mset (w_closed w) =
       mset (map Runner [0..<w_next w]) \<and>
     total_of starter (w_calls w) = mset (st_starting (w_store w)) \<and>
     (\<forall>pc\<in>set (w_calls w). outcome_ok pc \<and> waits_for pc \<subseteq> {..<length (st_starts (w_store w))})"

lemma world_inv_new [simp]: "world_inv new_world"
  by (simp add: world_inv_def new_world_def done_ok_def NewStore_def installed_def all_tabs_def total_of_def
      store_inv_New [unfolded NewStore_def])

lemma world_inv_move:
  assumes inv: "world_inv w" and at: "at w n pc"
    and w': "w_store w' = s'" "w_calls w' = (w_calls w)[n := pc']" "w_closed w' = w_closed w @ cs"
      "mset (map Runner [0..<w_next w']) = mset (map Runner [0..<w_next w]) + new"
    and s': "store_inv s'" "done_ok s'" "length (st_starts (w_store w)) \<le> length (st_starts s')"
    and run: "installed s' + held pc' + mset cs = installed (w_store w) + held pc + new"
    and st: "mset (st_starting s') + starter pc = mset (st_starting (w_store w)) + starter pc'"
    and pc': "outcome_ok pc'" "waits_for pc' \<subseteq> {..<length (st_starts s')}"
  shows "world_inv w'"
proof -
  have n: "n < length (w_calls w)" "w_calls w ! n = pc" using at by (simp_all add: at_def)
  note u = total_of_update [OF n(1), unfolded n(2)]
  have i: "installed (w_store w) + total_of held (w_calls w) + mset (w_closed w) = mset (map Runner [0..<w_next w])"
    "total_of starter (w_calls w) = mset (st_starting (w_store w))"
    using inv by (simp_all add: world_inv_def)
  have "installed s' + total_of held ((w_calls w)[n := pc']) + mset (w_closed w @ cs) + held pc =
      (installed s' + held pc' + mset cs) + total_of held (w_calls w) + mset (w_closed w)"
    using u [of held pc'] by (simp add: ac_simps)
  also have "\<dots> = mset (map Runner [0..<w_next w]) + new + held pc"
    unfolding run using i(1) by (simp add: ac_simps)
  finally have "installed s' + total_of held ((w_calls w)[n := pc']) + mset (w_closed w @ cs) =
      mset (map Runner [0..<w_next w]) + new" by simp
  moreover have "total_of starter ((w_calls w)[n := pc']) + starter pc = mset (st_starting s') + starter pc"
    using u [of starter pc'] st i(2) by simp
  moreover have "\<forall>p\<in>set ((w_calls w)[n := pc']). outcome_ok p \<and> waits_for p \<subseteq> {..<length (st_starts s')}"
  proof
    fix p assume "p \<in> set ((w_calls w)[n := pc'])"
    then have "p = pc' \<or> p \<in> set (w_calls w)" using set_update_subset_insert by fast
    then show "outcome_ok p \<and> waits_for p \<subseteq> {..<length (st_starts s')}"
      using inv pc' s'(3) unfolding world_inv_def by fastforce
  qed
  ultimately show ?thesis using w' s' by (simp add: world_inv_def)
qed

text \<open>A move that changes neither the runners nor the starts.\<close>

lemma goto_fields [simp]:
  "w_store (goto n pc s w) = s" "w_calls (goto n pc s w) = (w_calls w)[n := pc]"
  "w_closed (goto n pc s w) = w_closed w" "w_next (goto n pc s w) = w_next w"
  "w_panic (goto n pc s w) = w_panic w"
  by (simp_all add: goto_def)

lemma starter_in:
  assumes "world_inv w" "at w n pc" "(k, j) \<in># starter pc"
  shows "map_of (st_starting (w_store w)) k = Some j"
proof -
  have "(k, j) \<in># total_of starter (w_calls w)"
    using assms(2,3) total_of_member [of n "w_calls w" starter] by (auto simp: at_def dest: mset_subset_eqD)
  then have "(k, j) \<in> set (st_starting (w_store w))" using assms(1) by (simp add: world_inv_def)
  then show ?thesis using assms(1) by (auto simp: world_inv_def store_inv_def intro: map_of_is_SomeI)
qed

lemma mset_delete: "distinct (map fst xs) \<Longrightarrow> map_of xs k = Some j \<Longrightarrow>
    mset xs = add_mset (k, j) (mset (AList.delete k xs))"
proof (induction xs)
  case (Cons p xs)
  then show ?case by (cases p) (auto simp: AList.delete_id split: if_splits)
qed simp

lemma end_start_effect:
  assumes "store_inv s" "done_ok s" "map_of (st_starting s) k = Some j"
  shows "done_ok (end_start k j s)" "mset (st_starting (end_start k j s)) + {#(k, j)#} = mset (st_starting s)"
    "length (st_starts (end_start k j s)) = length (st_starts s)"
proof -
  have d: "distinct (map fst (st_starting s))" using assms(1) by (simp add: store_inv_def)
  show "mset (st_starting (end_start k j s)) + {#(k, j)#} = mset (st_starting s)"
    using mset_delete [OF d assms(3)] by (simp add: end_start_def)
  show "length (st_starts (end_start k j s)) = length (st_starts s)" by (simp add: end_start_def)
  have j: "j < length (st_starts s)" by (rule starting_less [OF assms(1,3)])
  have "sg_done (st_starts (end_start k j s) ! i) \<or> i \<in> snd ` set (st_starting (end_start k j s))"
    if "i < length (st_starts s)" for i
  proof (cases "i = j")
    case True
    then show ?thesis using j by (simp add: end_start_def upd_nth)
  next
    case False
    then show ?thesis
      using assms(2) that j map_of_is_SomeI [OF d, of k i] assms(3)
      by (fastforce simp: done_ok_def end_start_def upd_nth set_delete_iff)
  qed
  then show "done_ok (end_start k j s)" by (simp add: done_ok_def end_start_def)
qed

lemma done_ok_upd [simp]:
  "done_ok (upd_tab f i s) = done_ok s" "done_ok (removeTabLocked s k) = done_ok s"
  "done_ok (foldl removeTabLocked s ks) = done_ok s" "done_ok (s\<lparr>st_sessions := ss\<rparr>) = done_ok s"
  by (simp_all add: done_ok_def remove_list_frame)

lemma done_ok_upd_start:
  "(\<And>x. sg_done (g x) = sg_done x) \<Longrightarrow> done_ok s \<Longrightarrow> done_ok (upd_start g j s)"
  by (cases "j < length (st_starts s)") (auto simp: done_ok_def upd_start_def nth_list_update not_less list_update_beyond)

lemma cancel_list_effect:
  "done_ok s \<Longrightarrow> done_ok (foldl (\<lambda>s j. upd_start (\<lambda>x. x\<lparr>sg_canceled := True\<rparr>) j s) s js) \<and>
     st_starting (foldl (\<lambda>s j. upd_start (\<lambda>x. x\<lparr>sg_canceled := True\<rparr>) j s) s js) = st_starting s \<and>
     length (st_starts (foldl (\<lambda>s j. upd_start (\<lambda>x. x\<lparr>sg_canceled := True\<rparr>) j s) s js)) = length (st_starts s)"
  by (induction js arbitrary: s) (simp_all add: done_ok_upd_start)

subsection \<open>Every step keeps the invariant\<close>

text \<open>The operations that only take tabs out of the store, with what they leave alone.\<close>

lemma taken_out:
  "closeTarget k c s = (s', found, rs, js) \<Longrightarrow> done_ok s \<Longrightarrow>
     done_ok s' \<and> st_starting s' = st_starting s \<and> length (st_starts s') = length (st_starts s) \<and>
     set js \<subseteq> snd ` set (st_starting s)"
  "CloseAll s = (s', rs, js) \<Longrightarrow> done_ok s \<Longrightarrow>
     done_ok s' \<and> st_starting s' = st_starting s \<and> length (st_starts s') = length (st_starts s) \<and>
     set js \<subseteq> snd ` set (st_starting s)"
  "CloseIdleTargets now d s = (s', rs) \<Longrightarrow> done_ok s \<Longrightarrow>
     done_ok s' \<and> st_starting s' = st_starting s \<and> st_starts s' = st_starts s"
  "removeWhenDone k i s = (s', rs) \<Longrightarrow> done_ok s \<Longrightarrow>
     done_ok s' \<and> st_starting s' = st_starting s \<and> st_starts s' = st_starts s"
  using cancel_list_effect [of "s\<lparr>st_sessions := []\<rparr>" "map snd (st_starting s)"]
  by (auto simp: closeTarget_def CloseAll_def CloseIdleTargets_def removeWhenDone_def Let_def
      remove_list_frame done_ok_upd_start split: if_splits dest!: map_of_SomeD intro: rev_image_eqI)

lemma starting_bound: "store_inv s \<Longrightarrow> snd ` set (st_starting s) \<subseteq> {..<length (st_starts s)}"
  by (auto simp: store_inv_def)

lemma get_or_start_effect:
  assumes "get_or_start k a now s = (s', r)" "store_inv s" "done_ok s"
  shows "done_ok s' \<and> length (st_starts s) \<le> length (st_starts s') \<and>
    (case r of
       Found i \<Rightarrow> st_starting s' = st_starting s
     | Wait j \<Rightarrow> s' = s \<and> (k, j) \<in> set (st_starting s)
     | Start j \<Rightarrow> mset (st_starting s') = add_mset (k, j) (mset (st_starting s)) \<and> j = length (st_starts s))"
  using assms
  by (auto simp: get_or_start_def Let_def done_ok_def update_fresh map_of_eq_None_iff nth_append less_Suc_eq
      image_iff split: option.splits dest!: map_of_SomeD) blast+

lemma world_inv_use:
  assumes "world_inv w" "store_inv s'" "done_ok s'" "installed s' = installed (w_store w)"
    "st_starting s' = st_starting (w_store w)" "length (st_starts s') = length (st_starts (w_store w))"
  shows "world_inv (w\<lparr>w_store := s'\<rparr>)"
  using assms by (simp add: world_inv_def)

lemma use_effect:
  assumes "s' \<in> {fst (BeginExistingUse k now s), finishUse i now s, TouchTarget k now s}"
    and "i < length (st_tabs s)" "store_inv s" "done_ok s"
  shows "store_inv s' \<and> done_ok s' \<and> installed s' = installed s \<and> st_starting s' = st_starting s \<and>
    st_starts s' = st_starts s"
proof -
  have "done_ok s' \<and> st_starting s' = st_starting s \<and> st_starts s' = st_starts s"
    using assms(1,4) by (auto simp: BeginExistingUse_def finishUse_def TouchTarget_def split: option.splits)
  moreover have "store_inv s'" "installed s' = installed s"
    using assms(1-3) by (auto simp: BeginExistingUse_inv finishUse_inv TouchTarget_inv installed_use)
  ultimately show ?thesis by simp
qed

lemma world_inv_call:
  assumes "world_inv w" "entry pc"
  shows "world_inv (w\<lparr>w_calls := w_calls w @ [pc]\<rparr>)"
  using assms by (cases pc) (auto simp: world_inv_def)

lemma world_inv_lookup:
  assumes "world_inv w" "at w n (Create k a)" "get_or_start k a now (w_store w) = (s', r)"
  shows "world_inv (goto n (after_lookup k a r) s' w)"
proof -
  have i: "store_inv (w_store w)" "done_ok (w_store w)" using assms(1) by (simp_all add: world_inv_def)
  note e = get_or_start_effect [OF assms(3) i]
  have s': "store_inv s'" "installed s' = installed (w_store w)"
    using get_or_start_inv [OF i(1), of k a now] installed_use(4) [of k a now "w_store w"] assms(3) by simp_all
  show ?thesis
    using e s' starting_bound [OF i(1)]
    by (intro world_inv_move [OF assms(1,2), where s' = s' and pc' = "after_lookup k a r" and cs = "[]" and new = "{#}"])
      (cases r; force)+
qed

lemma world_inv_finish:
  assumes "world_inv w" "at w n (Started k a j r e)" "finish_start k a j r e now (w_store w) = (s', x)"
  shows "world_inv (goto n (after_finish k j x) s' w)"
proof -
  let ?s = "w_store w"
  have i: "store_inv ?s" "done_ok ?s" using assms(1) by (simp_all add: world_inv_def)
  have kj: "map_of (st_starting ?s) k = Some j" by (rule starter_in [OF assms(1,2)]) simp
  have r: "live r = (e = None)"
    using assms(1,2) unfolding world_inv_def at_def by (metis nth_mem outcome_ok.simps(1))
  have s': "store_inv s'" using finish_start_inv [OF i(1) kj, of a r e now] assms(3) by simp
  show ?thesis
  proof (cases x)
    case (Canceled q)
    then have "s' = ?s" "q = r" using assms(3) by (auto simp: finish_start_def Let_def split: if_splits option.splits)
    then show ?thesis
      using Canceled i by (intro world_inv_move [OF assms(1,2), where s' = s' and pc' = "after_finish k j x" and cs = "[]" and new = "{#}"]) auto
  next
    case (Failed q)
    then have f: "s' = end_start k j (upd_start (\<lambda>x. x\<lparr>sg_startErr := Some q\<rparr>) j ?s)" "e = Some q"
      using assms(3) by (auto simp: finish_start_def Let_def split: if_splits option.splits)
    have u: "store_inv (upd_start (\<lambda>x. x\<lparr>sg_startErr := Some q\<rparr>) j ?s)"
      "done_ok (upd_start (\<lambda>x. x\<lparr>sg_startErr := Some q\<rparr>) j ?s)"
      using i starting_less [OF i(1) kj] by (simp_all add: store_inv_upd_start done_ok_upd_start)
    show ?thesis
      using Failed r f(2) s' end_start_effect [OF u, of k j] kj
      by (intro world_inv_move [OF assms(1,2), where s' = s' and pc' = "after_finish k j x" and cs = "[]" and new = "{#}"])
        (simp_all add: f(1) live_mset_def)
  next
    case (Installed q)
    then have f: "s' = end_start k j (installTabLocked (?s\<lparr>st_tabs := st_tabs ?s @
        [\<lparr>tb_name = tk_tab k, tb_runner = r, tb_lastUsed = Some now, tb_active = (if a then 1 else 0)\<rparr>]\<rparr>) k
        (length (st_tabs ?s)))" (is "_ = end_start k j ?t") and e: "e = None"
      using assms(3) by (auto simp: finish_start_def Let_def split: if_splits option.splits)
    have t: "end_start k j ?t = end_start k j ?s\<lparr>st_sessions := st_sessions ?t, st_tabs := st_tabs ?t\<rparr>"
      by (simp add: end_start_def upd_start_def installTabLocked_def)
    have "done_ok s' \<and> mset (st_starting s') + {#(k, j)#} = mset (st_starting ?s) \<and>
        length (st_starts s') = length (st_starts ?s)"
      using end_start_effect [OF i kj] unfolding f t by (simp add: done_ok_def)
    then show ?thesis
      using Installed r e s' installed_finish_start [OF i(1) kj assms(3) [unfolded Installed]]
      by (intro world_inv_move [OF assms(1,2), where s' = s' and pc' = "after_finish k j x" and cs = "[]" and new = "{#}"])
        (simp_all add: live_mset_def)
  qed
qed

lemma world_inv_take:
  assumes "world_inv w" "at w n pc" "held pc = {#}" "starter pc = {#}"
    and "store_inv s'" "done_ok s'" "st_starting s' = st_starting (w_store w)"
      "length (st_starts s') = length (st_starts (w_store w))"
    and "installed (w_store w) = mset rs + installed s'" "set js \<subseteq> snd ` set (st_starting (w_store w))"
  shows "world_inv (goto n (Closing rs js None) s' w)"
proof -
  have "snd ` set (st_starting (w_store w)) \<subseteq> {..<length (st_starts (w_store w))}"
    using assms(1) by (simp add: world_inv_def starting_bound)
  then show ?thesis
    using assms by (intro world_inv_move [OF assms(1,2), where s' = s' and pc' = "Closing rs js None" and cs = "[]" and new = "{#}"]) auto
qed

lemma world_inv_same_store:
  assumes "world_inv w" "at w n pc" "w_store w' = w_store w" "w_calls w' = (w_calls w)[n := pc']"
    and "w_closed w' = w_closed w @ cs" "w_next w' = w_next w"
    and "held pc' + mset cs = held pc" "starter pc' = starter pc" "outcome_ok pc'"
    and "waits_for pc' \<subseteq> waits_for pc"
  shows "world_inv w'"
proof -
  have "pc \<in> set (w_calls w)" using assms(2) by (auto simp: at_def)
  then have "waits_for pc \<subseteq> {..<length (st_starts (w_store w))}" "store_inv (w_store w)" "done_ok (w_store w)"
    using assms(1) by (auto simp: world_inv_def)
  then show ?thesis
    using assms(3-) by (intro world_inv_move [OF assms(1,2), where s' = "w_store w" and pc' = pc' and cs = cs and new = "{#}"]) auto
qed

lemma world_inv_end_start:
  assumes "world_inv w" "at w n (Ending_start k j e)"
  shows "world_inv (goto n (Created None None) (finish_canceled k j e (w_store w)) w)"
proof -
  let ?s = "w_store w"
  have i: "store_inv ?s" "done_ok ?s" using assms(1) by (simp_all add: world_inv_def)
  have kj: "map_of (st_starting ?s) k = Some j" by (rule starter_in [OF assms]) simp
  have u: "store_inv (upd_start (\<lambda>x. x\<lparr>sg_closeErr := e\<rparr>) j ?s)" "done_ok (upd_start (\<lambda>x. x\<lparr>sg_closeErr := e\<rparr>) j ?s)"
    using i starting_less [OF i(1) kj] by (simp_all add: store_inv_upd_start done_ok_upd_start)
  show ?thesis
    using finish_canceled_inv [OF i(1) kj, of e] end_start_effect [OF u, of k j] kj
    by (intro world_inv_move [OF assms, where s' = "finish_canceled k j e ?s" and pc' = "Created None None"
          and cs = "[]" and new = "{#}"])
      (simp_all add: finish_canceled_def)
qed

lemma world_inv_start:
  assumes "world_inv w" "at w n (Starting k a j)"
  shows "world_inv ((goto n (Started k a j (Runner (w_next w)) None) (w_store w) w)\<lparr>w_next := w_next w + 1\<rparr>)"
  using assms(1)
  by (intro world_inv_move [OF assms, where s' = "w_store w" and pc' = "Started k a j (Runner (w_next w)) None"
        and cs = "[]" and new = "{#Runner (w_next w)#}"])
    (simp_all add: world_inv_def live_mset_def)

lemmas world_inv_intros = world_inv_call world_inv_lookup world_inv_finish world_inv_end_start world_inv_start

lemma close_canceled_eq:
  "close_canceled close r = None \<longleftrightarrow> r = Nil_pointer"
  by (cases r) (simp_all add: close_canceled_def)

lemma step_world_inv: "step typed_nil w w' \<Longrightarrow> world_inv w \<Longrightarrow> world_inv w'"
proof (induction rule: step.induct)
  case (use w i s' k now)
  then have "store_inv (w_store w)" "done_ok (w_store w)" by (simp_all add: world_inv_def)
  with use show ?case
    using use_effect [OF use.hyps(3,2)] by (intro world_inv_use) simp_all
next
  case (wait w n k a j)
  show ?case
    by (rule world_inv_same_store [OF wait.prems wait.hyps(1), where cs = "[]" and
        pc' = "after_waiting k a (after_start (st_starts (w_store w) ! j))"])
      (cases "after_start (st_starts (w_store w) ! j)"; simp)+
next
  case (start_fails w n k a j r e)
  then show ?case
    by (intro world_inv_same_store [OF start_fails.prems start_fails.hyps(1), where cs = "[]" and
        pc' = "Started k a j r (Some e)"]) (auto simp: live_mset_def)
next
  case (close_start w n k j r close e)
  then show ?case
    by (intro world_inv_same_store [OF close_start.prems close_start.hyps(1), where pc' = "Ending_start k j e" and
        cs = "if live r then [r] else []"]) (auto simp: live_mset_def)
next
  case (close w n k c s' found rs js)
  then have "store_inv (w_store w)" "done_ok (w_store w)" by (simp_all add: world_inv_def)
  with close show ?case
    using taken_out(1) [OF close.hyps(2)] closeTarget_inv [of "w_store w" k c] installed_closeTarget [OF _ close.hyps(2)]
    by (intro world_inv_take [OF close.prems close.hyps(1)]) simp_all
next
  case (close_all w n s' rs js)
  then have "store_inv (w_store w)" "done_ok (w_store w)" by (simp_all add: world_inv_def)
  with close_all show ?case
    using taken_out(2) [OF close_all.hyps(2)] CloseAll_inv [of "w_store w"] installed_CloseAll [OF close_all.hyps(2)]
    by (intro world_inv_take [OF close_all.prems close_all.hyps(1)]) simp_all
next
  case (close_idle w n now d s' rs)
  then have "store_inv (w_store w)" "done_ok (w_store w)" by (simp_all add: world_inv_def)
  with close_idle show ?case
    using taken_out(3) [OF close_idle.hyps(2)] CloseIdleTargets_inv [of "w_store w" now d]
      installed_CloseIdleTargets [OF _ close_idle.hyps(2)]
    by (intro world_inv_take [OF close_idle.prems close_idle.hyps(1)]) simp_all
next
  case (runner_done w n k i s' rs)
  then have "store_inv (w_store w)" "done_ok (w_store w)" by (simp_all add: world_inv_def)
  with runner_done show ?case
    using taken_out(4) [OF runner_done.hyps(2)] removeWhenDone_inv [of "w_store w" k i]
      installed_removeWhenDone [OF _ runner_done.hyps(2)]
    by (intro world_inv_take [OF runner_done.prems runner_done.hyps(1)]) simp_all
next
  case (close_runner w n r rs js e e')
  then show ?case
    by (intro world_inv_same_store [OF close_runner.prems close_runner.hyps(1), where cs = "[r]" and
        pc' = "Closing rs js (first_err e e')"]) simp_all
next
  case (close_wait w n j js e)
  then show ?case
    by (intro world_inv_same_store [OF close_wait.prems close_wait.hyps(1), where cs = "[]"]) auto
next
  case (close_end w n e)
  then show ?case
    by (intro world_inv_same_store [OF close_end.prems close_end.hyps(1), where cs = "[]"]) auto
next
  case (close_panics w n k j r close)
  then show ?case by (simp add: world_inv_def)
qed (blast intro: world_inv_intros)+

lemma reachable_inv: "reachable typed_nil w \<Longrightarrow> world_inv w"
  unfolding reachable_def by (induction rule: rtranclp_induct) (auto intro: step_world_inv)

subsection \<open>Progress\<close>

text \<open>
  A call \<open>advances\<close> when it runs one of its sections; arrivals of new calls and the use of installed
  tabs are left out.
\<close>

definition advance :: "bool \<Rightarrow> world \<Rightarrow> world \<Rightarrow> bool" where
  "advance typed_nil w w' \<longleftrightarrow> step typed_nil w w' \<and> length (w_calls w') = length (w_calls w) \<and>
     (w_calls w' \<noteq> w_calls w \<or> w_panic w' \<noteq> w_panic w)"

text \<open>The starts a call cannot move without.\<close>

fun blocked_on :: "pc \<Rightarrow> start_id option" where
  "blocked_on (Waiting k a j) = Some j"
| "blocked_on (Closing [] (j # js) e) = Some j"
| "blocked_on _ = None"

lemma advance_goto:
  assumes "step typed_nil w w'" "at w n pc" "w_calls w' = (w_calls w)[n := pc']" "pc' \<noteq> pc"
  shows "advance typed_nil w w'"
proof -
  have "w_calls w' ! n \<noteq> w_calls w ! n" using assms(2-4) by (simp add: at_def)
  then have "w_calls w' \<noteq> w_calls w" by metis
  then show ?thesis using assms(1,3) by (simp add: advance_def)
qed

lemma not_blocked_advances:
  assumes at: "at w n pc" and pc: "\<not> finished pc"
    and free: "\<And>j. blocked_on pc = Some j \<Longrightarrow> sg_done (st_starts (w_store w) ! j)"
  shows "\<exists>w'. advance typed_nil w w'"
proof (cases pc)
  case (Create k a)
  obtain s' r where "get_or_start k a 0 (w_store w) = (s', r)" by fastforce
  moreover have "after_lookup k a r \<noteq> Create k a" by (cases r) simp_all
  ultimately show ?thesis
    using step.lookup [OF at [unfolded Create]] advance_goto [OF _ at] Create by fastforce
next
  case (Waiting k a j)
  have "after_waiting k a x \<noteq> Waiting k a j" for x by (cases x) simp_all
  then show ?thesis
    using step.wait [OF at [unfolded Waiting]] free advance_goto [OF _ at] Waiting by fastforce
next
  case (Starting k a j)
  then show ?thesis using step.start [OF at [unfolded Starting]] advance_goto [OF _ at] by fastforce
next
  case (Started k a j r e)
  obtain s' x where "finish_start k a j r e 0 (w_store w) = (s', x)" by fastforce
  moreover have "after_finish k j x \<noteq> Started k a j r e" by (cases x) simp_all
  ultimately show ?thesis
    using step.finish [OF at [unfolded Started]] advance_goto [OF _ at] Started by fastforce
next
  case (Closing_start k j r)
  have "close_canceled (\<lambda>_. None) r = None \<or> close_canceled (\<lambda>_. None) r = Some None"
    by (cases r) (simp_all add: close_canceled_def)
  then show ?thesis
  proof
    assume "close_canceled (\<lambda>_. None) r = None"
    then have "step typed_nil w (w\<lparr>w_panic := True\<rparr>)" by (rule step.close_panics [OF at [unfolded Closing_start]])
    then show ?thesis using at by (auto simp: advance_def at_def)
  next
    assume "close_canceled (\<lambda>_. None) r = Some None"
    from step.close_start [OF at [unfolded Closing_start] this]
    show ?thesis using advance_goto [OF _ at] Closing_start by fastforce
  qed
next
  case (Ending_start k j e)
  then show ?thesis using step.end_start [OF at [unfolded Ending_start]] advance_goto [OF _ at] by fastforce
next
  case (Close k c)
  obtain s' f rs js where "closeTarget k c (w_store w) = (s', f, rs, js)" by (metis prod_cases4)
  then show ?thesis using step.close [OF at [unfolded Close]] advance_goto [OF _ at] Close by fastforce
next
  case Close_all
  obtain s' rs js where "CloseAll (w_store w) = (s', rs, js)" by (metis prod_cases3)
  then show ?thesis using step.close_all [OF at [unfolded Close_all]] advance_goto [OF _ at] Close_all by fastforce
next
  case (Close_idle now d)
  obtain s' rs where "CloseIdleTargets now d (w_store w) = (s', rs)" by fastforce
  then show ?thesis using step.close_idle [OF at [unfolded Close_idle]] advance_goto [OF _ at] Close_idle by fastforce
next
  case (Runner_done k i)
  obtain s' rs where "removeWhenDone k i (w_store w) = (s', rs)" by fastforce
  then show ?thesis using step.runner_done [OF at [unfolded Runner_done]] advance_goto [OF _ at] Runner_done by fastforce
next
  case (Closing rs js e)
  show ?thesis
  proof (cases rs)
    case (Cons r rs')
    then show ?thesis
      using step.close_runner [OF at [unfolded Closing Cons]] advance_goto [OF _ at] Closing by fastforce
  next
    case Nil
    show ?thesis
    proof (cases js)
      case (Cons j js')
      then show ?thesis
        using step.close_wait [OF at [unfolded Closing Nil Cons]] free advance_goto [OF _ at] Closing Nil by fastforce
    next
      case Nil
      with \<open>rs = []\<close> show ?thesis
        using step.close_end [of w n e] at advance_goto [OF _ at] Closing by fastforce
    qed
  qed
qed (use pc in simp_all)

lemma blocked_waits: "blocked_on pc = Some j \<Longrightarrow> j \<in> waits_for pc"
  by (induction pc rule: blocked_on.induct) simp_all

lemma starter_free: "(k, j) \<in># starter pc \<Longrightarrow> \<not> finished pc \<and> blocked_on pc = None"
  by (cases pc) simp_all

lemma world_progress:
  assumes "world_inv w" "\<not> w_panic w" "n < length (w_calls w)" "\<not> finished (w_calls w ! n)"
  shows "\<exists>w'. advance typed_nil w w'"
proof (cases "\<exists>j. blocked_on (w_calls w ! n) = Some j \<and> \<not> sg_done (st_starts (w_store w) ! j)")
  case False
  have "at w n (w_calls w ! n)" using assms(2,3) by (simp add: at_def)
  then show ?thesis by (rule not_blocked_advances) (use False assms(4) in auto)
next
  case True
  then obtain j where j: "blocked_on (w_calls w ! n) = Some j" "\<not> sg_done (st_starts (w_store w) ! j)" by blast
  have "waits_for (w_calls w ! n) \<subseteq> {..<length (st_starts (w_store w))}"
    using assms(1,3) by (simp add: world_inv_def)
  then have "j < length (st_starts (w_store w))" using blocked_waits [OF j(1)] by blast
  then have "j \<in> snd ` set (st_starting (w_store w))"
    using assms(1) j(2) unfolding world_inv_def done_ok_def by blast
  then obtain k where "(k, j) \<in> set (st_starting (w_store w))" by force
  then have "(k, j) \<in># total_of starter (w_calls w)" using assms(1) by (simp add: world_inv_def)
  then obtain m where m: "m < length (w_calls w)" "(k, j) \<in># starter (w_calls w ! m)"
    using total_of_elem [of "(k, j)" starter "w_calls w"] by auto
  have "at w m (w_calls w ! m)" using m(1) assms(2) by (simp add: at_def)
  then show ?thesis by (rule not_blocked_advances) (use starter_free [OF m(2)] in simp_all)
qed

subsection \<open>Termination\<close>

text \<open>
  A bound on the sections that \<open>n\<close> calls can still run. A start that ends may release every waiting
  call, which is why the phases of a start weigh more than the calls that wait for it.
\<close>

fun weight :: "nat \<Rightarrow> starting list \<Rightarrow> pc \<Rightarrow> nat" where
  "weight n starts (Create k a) = 2 * n + 7"
| "weight n starts (Waiting k a j) = (if sg_done (starts ! j) then 2 * n + 8 else 2 * n + 6)"
| "weight n starts (Starting k a j) = 2 * n + 4"
| "weight n starts (Started k a j r e) = 2 * n + 3"
| "weight n starts (Closing_start k j r) = 2 * n + 2"
| "weight n starts (Ending_start k j e) = 2 * n + 1"
| "weight n starts (Closing rs js e) = 2 * length rs + length js + 1"
| "weight n starts (Created t e) = 0"
| "weight n starts (Closed e) = 0"
| "weight n starts pc = n + 2"

definition world_weight :: "world \<Rightarrow> nat" where
  "world_weight w =
     (if w_panic w then 0
      else 1 + 2 * size (installed (w_store w)) +
        total_of (weight (length (w_calls w)) (st_starts (w_store w))) (w_calls w))"

lemma total_of_mono:
  fixes f g :: "pc \<Rightarrow> nat"
  shows "(\<And>p. p \<in> set pcs \<Longrightarrow> f p \<le> g p + c) \<Longrightarrow> total_of f pcs \<le> total_of g pcs + c * length pcs"
  by (induction pcs) (fastforce simp: total_of_def)+

lemma total_of_cong: "(\<And>p. p \<in> set pcs \<Longrightarrow> f p = g p) \<Longrightarrow> total_of f pcs = total_of g pcs"
  by (simp add: total_of_def cong: map_cong)

lemma weight_starts: "weight n starts pc \<le> weight n starts' pc + 2"
  by (cases pc) simp_all

lemma weight_same:
  "(\<And>j. j \<in> waits_for pc \<Longrightarrow> sg_done (starts ! j) = sg_done (starts' ! j)) \<Longrightarrow>
     weight n starts pc = weight n starts' pc"
  by (cases pc) simp_all

text \<open>The weight of a world after a move, when no start ended in it, and when one did.\<close>

lemma world_weight_move:
  assumes inv: "world_inv w" and at: "at w n pc"
    and w': "w_store w' = s'" "w_calls w' = (w_calls w)[n := pc']"
    and same: "\<And>j. j < length (st_starts (w_store w)) \<Longrightarrow> sg_done (st_starts s' ! j) = sg_done (st_starts (w_store w) ! j)"
    and less: "2 * size (installed s') + weight (length (w_calls w)) (st_starts s') pc' <
      2 * size (installed (w_store w)) + weight (length (w_calls w)) (st_starts (w_store w)) pc"
  shows "world_weight w' < world_weight w"
proof -
  let ?f = "weight (length (w_calls w)) (st_starts (w_store w))"
  let ?g = "weight (length (w_calls w)) (st_starts s')"
  have n: "n < length (w_calls w)" "w_calls w ! n = pc" "\<not> w_panic w" using at by (simp_all add: at_def)
  have e: "?g p = ?f p" if "p \<in> set (w_calls w)" for p
    using that inv same by (intro weight_same) (auto simp: world_inv_def)
  have "total_of ?g (w_calls w) = total_of ?f (w_calls w)" by (rule total_of_cong [OF e])
  moreover have "?g pc = ?f pc" using e n by (metis nth_mem)
  ultimately have "total_of ?g ((w_calls w)[n := pc']) + ?f pc = total_of ?f (w_calls w) + ?g pc'"
    using total_of_update [OF n(1), of ?g pc'] n(2) by simp
  then show ?thesis using less n(3) w' by (simp add: world_weight_def)
qed

lemma world_weight_end:
  assumes at: "at w n pc" and w': "w_store w' = s'" "w_calls w' = (w_calls w)[n := pc']"
    and less: "2 * size (installed s') + weight (length (w_calls w)) (st_starts s') pc' + 2 * length (w_calls w) <
      2 * size (installed (w_store w)) + weight (length (w_calls w)) (st_starts s') pc"
  shows "world_weight w' < world_weight w"
proof -
  let ?f = "weight (length (w_calls w)) (st_starts (w_store w))"
  let ?g = "weight (length (w_calls w)) (st_starts s')"
  have n: "n < length (w_calls w)" "w_calls w ! n = pc" "\<not> w_panic w" using at by (simp_all add: at_def)
  have "total_of ?g (w_calls w) \<le> total_of ?f (w_calls w) + 2 * length (w_calls w)"
    by (rule total_of_mono) (rule weight_starts)
  then show ?thesis
    using less n(3) w' total_of_update [OF n(1), of ?g pc'] n(2) by (simp add: world_weight_def)
qed

lemma starting_size:
  assumes "world_inv w"
  shows "length (st_starting (w_store w)) \<le> length (w_calls w)"
proof -
  have "size (starter pc) \<le> 1" for pc by (cases pc) simp_all
  then have "size (total_of starter pcs) \<le> length pcs" for pcs
    by (induction pcs) (auto simp: total_of_def intro: le_trans [OF add_mono])
  moreover have "size (total_of starter (w_calls w)) = length (st_starting (w_store w))"
    using assms by (simp add: world_inv_def)
  ultimately show ?thesis by metis
qed

lemma end_start_installed: "installed (end_start k j s) = installed s"
  by simp

lemma same_done_get_or_start:
  "get_or_start k a now s = (s', r) \<Longrightarrow> i < length (st_starts s) \<Longrightarrow> sg_done (st_starts s' ! i) = sg_done (st_starts s ! i)"
  by (auto simp: get_or_start_def Let_def nth_append split: option.splits)

lemma same_done_cancel: "sg_done (st_starts (upd_start (\<lambda>x. x\<lparr>sg_canceled := c\<rparr>) j s) ! i) = sg_done (st_starts s ! i)"
  by (cases "j < length (st_starts s)") (auto simp: upd_start_def nth_list_update list_update_beyond)

lemma same_done_cancel_list:
  "sg_done (st_starts (foldl (\<lambda>s j. upd_start (\<lambda>x. x\<lparr>sg_canceled := True\<rparr>) j s) s js) ! i) = sg_done (st_starts s ! i)"
  by (induction js arbitrary: s) (simp_all add: same_done_cancel)

lemma same_done_take:
  "closeTarget k c s = (s', found, rs, js) \<Longrightarrow> sg_done (st_starts s' ! i) = sg_done (st_starts s ! i)"
  "CloseAll s = (s', rs, js) \<Longrightarrow> sg_done (st_starts s' ! i) = sg_done (st_starts s ! i)"
  by (auto simp: closeTarget_def CloseAll_def Let_def same_done_cancel same_done_cancel_list split: if_splits)

lemma few_starts:
  "closeTarget k c s = (s', found, rs, js) \<Longrightarrow> length js \<le> 1"
  "CloseAll s = (s', rs, js) \<Longrightarrow> length js = length (st_starting s)"
  by (auto simp: closeTarget_def CloseAll_def Let_def split: if_splits)

lemma take_weight:
  assumes "world_inv w" "at w n pc" "weight (length (w_calls w)) (st_starts (w_store w)) pc = length (w_calls w) + 2"
    and "\<And>i. sg_done (st_starts s' ! i) = sg_done (st_starts (w_store w) ! i)"
    and "installed (w_store w) = mset rs + installed s'" "length js \<le> length (w_calls w)"
  shows "world_weight (goto n (Closing rs js None) s' w) < world_weight w"
  using assms by (intro world_weight_move [OF assms(1,2), where s' = s' and pc' = "Closing rs js None"]) auto

lemma finish_weight:
  assumes "world_inv w" "at w n (Started k a j r e)" "finish_start k a j r e now (w_store w) = (s', x)"
  shows "world_weight (goto n (after_finish k j x) s' w) < world_weight w"
proof (cases x)
  case (Canceled q)
  then have "s' = w_store w" using assms(3) by (auto simp: finish_start_def Let_def split: if_splits option.splits)
  then show ?thesis
    using Canceled by (intro world_weight_move [OF assms(1,2), where s' = s' and pc' = "after_finish k j x"]) auto
next
  case (Failed q)
  then show ?thesis
    using installed_finish_start_other [OF assms(3)]
    by (intro world_weight_end [OF assms(2), where s' = s' and pc' = "after_finish k j x"]) auto
next
  case (Installed q)
  have "store_inv (w_store w)" using assms(1) by (simp add: world_inv_def)
  moreover have "map_of (st_starting (w_store w)) k = Some j" by (rule starter_in [OF assms(1,2)]) simp
  ultimately show ?thesis
    using Installed installed_finish_start [of "w_store w" k j a r e now s' q] assms(3)
    by (intro world_weight_end [OF assms(2), where s' = s' and pc' = "after_finish k j x"]) auto
qed

lemma at_calls: "at w n pc \<Longrightarrow> 1 \<le> length (w_calls w)"
  by (auto simp: at_def)

lemma advance_weight:
  assumes "advance typed_nil w w'" "world_inv w"
  shows "world_weight w' < world_weight w"
proof -
  have "step typed_nil w w'" "length (w_calls w') = length (w_calls w)"
    "w_calls w' \<noteq> w_calls w \<or> w_panic w' \<noteq> w_panic w" using assms(1) by (simp_all add: advance_def)
  then show ?thesis
    using assms(2)
  proof (induction rule: step.induct)
    case (lookup w n k a now s' r)
    then show ?case
      using installed_use(4) [of k a now "w_store w"] get_or_start_effect [OF lookup.hyps(2)]
        same_done_get_or_start [OF lookup.hyps(2)]
      by (intro world_weight_move [OF lookup.prems(3) lookup.hyps(1), where s' = s' and pc' = "after_lookup k a r"])
        (auto simp: world_inv_def store_inv_def split: lookup.splits)
  next
    case (wait w n k a j)
    then show ?case
      by (intro world_weight_move [OF wait.prems(3) wait.hyps(1), where s' = "w_store w" and
          pc' = "after_waiting k a (after_start (st_starts (w_store w) ! j))"])
        (cases "after_start (st_starts (w_store w) ! j)"; simp)+
  next
    case (start w n k a j)
    then show ?case
      by (intro world_weight_move [OF start.prems(3) start.hyps(1), where s' = "w_store w" and
          pc' = "Started k a j (Runner (w_next w)) None"]) auto
  next
    case (start_fails w n k a j r e)
    then show ?case
      by (intro world_weight_move [OF start_fails.prems(3) start_fails.hyps(1), where s' = "w_store w" and
          pc' = "Started k a j r (Some e)"]) auto
  next
    case (finish w n k a j r e now s' x)
    then show ?case by (intro finish_weight)
  next
    case (close_start w n k j r close e)
    then show ?case
      by (intro world_weight_move [OF close_start.prems(3) close_start.hyps(1), where s' = "w_store w" and
          pc' = "Ending_start k j e"]) auto
  next
    case (close_panics w n k j r close)
    then show ?case by (simp add: world_weight_def at_def)
  next
    case (end_start w n k j e)
    then show ?case
      by (intro world_weight_end [OF end_start.hyps(1), where s' = "finish_canceled k j e (w_store w)" and
          pc' = "Created None None"]) (auto simp: finish_canceled_def)
  next
    case (close w n k c s' found rs js)
    then have "store_inv (w_store w)" by (simp add: world_inv_def)
    with close show ?case
      using same_done_take(1) [OF close.hyps(2)] few_starts(1) [OF close.hyps(2)] at_calls [OF close.hyps(1)]
        installed_closeTarget [OF _ close.hyps(2)]
      by (intro take_weight) auto
  next
    case (close_all w n s' rs js)
    then show ?case
      using same_done_take(2) [OF close_all.hyps(2)] few_starts(2) [OF close_all.hyps(2)]
        starting_size [OF close_all.prems(3)] installed_CloseAll [OF close_all.hyps(2)]
      by (intro take_weight) auto
  next
    case (close_idle w n now d s' rs)
    then have "store_inv (w_store w)" "done_ok (w_store w)" by (simp_all add: world_inv_def)
    with close_idle show ?case
      using taken_out(3) [OF close_idle.hyps(2)] installed_CloseIdleTargets [OF _ close_idle.hyps(2)]
      by (intro take_weight) auto
  next
    case (runner_done w n k i s' rs)
    then have "store_inv (w_store w)" "done_ok (w_store w)" by (simp_all add: world_inv_def)
    with runner_done show ?case
      using taken_out(4) [OF runner_done.hyps(2)] installed_removeWhenDone [OF _ runner_done.hyps(2)]
      by (intro take_weight) auto
  next
    case (close_runner w n r rs js e e')
    then show ?case
      by (intro world_weight_move [OF close_runner.prems(3) close_runner.hyps(1), where s' = "w_store w" and
          pc' = "Closing rs js (first_err e e')"]) auto
  next
    case (close_wait w n j js e)
    then show ?case
      by (intro world_weight_move [OF close_wait.prems(3) close_wait.hyps(1), where s' = "w_store w" and
          pc' = "Closing [] js (first_err e (sg_closeErr (st_starts (w_store w) ! j)))"]) auto
  next
    case (close_end w n e)
    then show ?case
      by (intro world_weight_move [OF close_end.prems(3) close_end.hyps(1), where s' = "w_store w" and
          pc' = "Closed e"]) auto
  qed simp_all
qed

subsection \<open>Properties\<close>

lemma reachable_step: "reachable typed_nil w \<Longrightarrow> step typed_nil w w' \<Longrightarrow> reachable typed_nil w'"
  unfolding reachable_def by (rule rtranclp.rtrancl_into_rtrancl)

lemma reachable_new: "reachable typed_nil new_world"
  by (simp add: reachable_def)

lemma reachable_advance: "(advance typed_nil)\<^sup>*\<^sup>* w w' \<Longrightarrow> reachable typed_nil w \<Longrightarrow> reachable typed_nil w'"
  by (induction rule: rtranclp_induct) (auto simp: advance_def intro: reachable_step)

lemma finished_holds_nothing: "list_all finished pcs \<Longrightarrow> total_of held pcs = {#}"
proof (induction pcs)
  case (Cons p pcs)
  then show ?case by (cases p) (simp_all add: total_of_def)
qed (simp add: total_of_def)

text \<open>A factory that returns a plain nil on failure never leaves a nil pointer to close.\<close>

fun no_nil_pointer :: "pc \<Rightarrow> bool" where
  "no_nil_pointer (Started k a j r e) = (r \<noteq> Nil_pointer)"
| "no_nil_pointer (Closing_start k j r) = (r \<noteq> Nil_pointer)"
| "no_nil_pointer _ = True"

lemma no_nil_update:
  "list_all no_nil_pointer pcs \<Longrightarrow> no_nil_pointer pc' \<Longrightarrow> list_all no_nil_pointer (pcs[n := pc'])"
  using set_update_subset_insert [of pcs n pc'] by (auto simp: list_all_iff)

lemma at_no_nil: "at w n pc \<Longrightarrow> list_all no_nil_pointer (w_calls w) \<Longrightarrow> no_nil_pointer pc"
  by (auto simp: at_def list_all_length)

lemma finish_start_canceled: "finish_start k a j r e now s = (s', Canceled q) \<Longrightarrow> q = r"
  by (auto simp: finish_start_def Let_def split: if_splits option.splits)

lemma step_no_nil:
  "step False w w' \<Longrightarrow> \<not> w_panic w \<and> (list_all no_nil_pointer (w_calls w)) \<Longrightarrow>
     \<not> w_panic w' \<and> (list_all no_nil_pointer (w_calls w'))"
proof (induction rule: step.induct)
  case (call w pc)
  then show ?case by (cases pc) auto
next
  case (lookup w n k a now s' r)
  then show ?case by (cases r) (simp_all add: no_nil_update)
next
  case (wait w n k a j)
  then show ?case by (cases "after_start (st_starts (w_store w) ! j)") (simp_all add: no_nil_update)
next
  case (finish w n k a j r e now s' x)
  then show ?case
    using at_no_nil [OF finish.hyps(1)] by (cases x) (auto intro!: no_nil_update dest: finish_start_canceled)
next
  case (close_panics w n k j r close)
  then show ?case using at_no_nil [OF close_panics.hyps(1)] by (simp add: close_canceled_eq)
qed (simp_all add: no_nil_update)

lemma reachable_no_panic:
  assumes "reachable False w" shows "\<not> w_panic w"
proof -
  have "\<not> w_panic w \<and> (list_all no_nil_pointer (w_calls w))"
    using assms unfolding reachable_def
    by (induction rule: rtranclp_induct) (simp_all add: new_world_def step_no_nil)
  then show ?thesis ..
qed

lemma advance_unfinished:
  assumes "advance typed_nil w w'" shows "\<not> list_all finished (w_calls w)"
proof -
  have "\<exists>n pc. at w n pc \<and> \<not> finished pc"
    using assms unfolding advance_def by (auto elim!: step_cases) (metis finished.simps)+
  then show ?thesis by (auto simp: at_def list_all_length)
qed

lemma calls_settle:
  assumes "reachable False w"
  shows "\<exists>w'. (advance False)\<^sup>*\<^sup>* w w' \<and> list_all finished (w_calls w')"
  using assms
proof (induction "world_weight w" arbitrary: w rule: less_induct)
  case less
  show ?case
  proof (cases "list_all finished (w_calls w)")
    case False
    then obtain n where "n < length (w_calls w)" "\<not> finished (w_calls w ! n)" by (auto simp: list_all_length)
    then obtain w1 where w1: "advance False w w1"
      using world_progress reachable_inv reachable_no_panic less.prems by blast
    then have "reachable False w1" using less.prems by (auto simp: advance_def intro: reachable_step)
    then obtain w' where "(advance False)\<^sup>*\<^sup>* w1 w'" "list_all finished (w_calls w')"
      using less.hyps advance_weight [OF w1 reachable_inv [OF less.prems]] by blast
    then show ?thesis using w1 by (meson converse_rtranclp_into_rtranclp)
  qed blast
qed

lemma distinct_parts:
  assumes "distinct xs" "A + mset ys \<subseteq># mset xs"
  shows "distinct ys \<and> set_mset A \<inter> set ys = {} \<and> set ys \<subseteq> set xs"
proof -
  obtain zs where z: "mset zs = A" by (metis ex_mset)
  obtain ws where "mset ws = mset xs - (A + mset ys)" by (metis ex_mset)
  then have "mset (zs @ ys @ ws) = mset xs" using assms(2) z by (metis mset_append subset_mset.add_diff_inverse union_assoc)
  then have "distinct (zs @ ys @ ws)" "set (zs @ ys @ ws) = set xs"
    using assms(1) mset_eq_imp_distinct_iff mset_eq_setD by blast+
  then show ?thesis using z by auto
qed

text \<open>C2: However calls interleave, a runner is closed at most once, never while its tab is installed,
and only if it was started; once no call is under way, the runners that were started are exactly the
installed and the closed ones, so none is lost.\<close>

lemma runners_closed_once:
  assumes "reachable typed_nil w"
  shows "distinct (w_closed w) \<and> set (w_closed w) \<subseteq> Runner ` {..<w_next w} \<and>
    set_mset (installed (w_store w)) \<inter> set (w_closed w) = {} \<and>
    (list_all finished (w_calls w) \<longrightarrow>
      installed (w_store w) + mset (w_closed w) = mset (map Runner [0..<w_next w]))"
proof -
  have e: "installed (w_store w) + total_of held (w_calls w) + mset (w_closed w) = mset (map Runner [0..<w_next w])"
    using reachable_inv [OF assms] by (simp add: world_inv_def)
  have d: "distinct (map Runner [0..<w_next w])" by (simp add: distinct_map inj_on_def)
  have "installed (w_store w) + mset (w_closed w) \<subseteq># mset (map Runner [0..<w_next w])"
    unfolding e [symmetric] by simp
  then show ?thesis using distinct_parts [OF d] e finished_holds_nothing by (auto simp: atLeast0LessThan)
qed

text \<open>Two calls, on their own: one starts a runner, the other closes its target.\<close>

abbreviation "kt \<equiv> Target_key ''s'' ''p'' ''t''"

lemma example_closed_reachable:
  "\<exists>s. reachable typed_nil \<lparr>w_store = s, w_calls = [Created (Some 0) None, Closed None],
     w_closed = [Runner 0], w_next = 1, w_panic = False\<rparr>"
proof -
  note ev = get_or_start_def finish_start_def findTabLocked_def find_in_def NewStore_def Let_def
    installTabLocked_def install_in_def end_start_def upd_start_def closeTarget_def goto_def new_world_def at_def
  let ?w = "\<lambda>s cs rs n. \<lparr>w_store = s, w_calls = cs, w_closed = rs, w_next = n, w_panic = False\<rparr>"
  obtain s1 where s1: "get_or_start kt True 0 NewStore = (s1, Start 0)" by (simp add: ev)
  obtain s2 where s2: "finish_start kt True 0 (Runner 0) None 0 s1 = (s2, Installed 0)"
    using s1 by (auto simp: ev)
  obtain s3 where s3: "closeTarget kt True s2 = (s3, True, [Runner 0], [])" using s1 s2 by (auto simp: ev)
  have "reachable typed_nil (?w NewStore [Create kt True] [] 0)"
    using reachable_step [OF reachable_new step.call [where pc = "Create kt True"]] by (simp add: new_world_def)
  from reachable_step [OF this step.call [where pc = "Close kt True"]]
  have "reachable typed_nil (?w NewStore [Create kt True, Close kt True] [] 0)" by simp
  from reachable_step [OF this step.lookup [where n = 0 and k = kt and a = True and now = 0 and s' = s1 and r = "Start 0"]]
  have "reachable typed_nil (?w s1 [Starting kt True 0, Close kt True] [] 0)" using s1 by (simp add: at_def goto_def)
  from reachable_step [OF this step.start [where n = 0 and k = kt and a = True and j = 0]]
  have "reachable typed_nil (?w s1 [Started kt True 0 (Runner 0) None, Close kt True] [] 1)" by (simp add: at_def goto_def)
  from reachable_step [OF this step.finish [where n = 0 and k = kt and a = True and j = 0 and r = "Runner 0" and e = None and now = 0 and s' = s2 and x = "Installed 0"]]
  have "reachable typed_nil (?w s2 [Created (Some 0) None, Close kt True] [] 1)" using s2 by (simp add: at_def goto_def)
  from reachable_step [OF this step.close [where n = 1 and k = kt and c = True and s' = s3 and found = True and rs = "[Runner 0]" and js = "[]"]]
  have "reachable typed_nil (?w s3 [Created (Some 0) None, Closing [Runner 0] [] None] [] 1)"
    using s3 by (simp add: at_def goto_def)
  from reachable_step [OF this step.close_runner [where n = 1 and r = "Runner 0" and rs = "[]" and js = "[]" and e = None and e' = None]]
  have "reachable typed_nil (?w s3 [Created (Some 0) None, Closing [] [] None] [Runner 0] 1)"
    by (simp add: at_def goto_def first_err_def)
  from reachable_step [OF this step.close_end [where n = 1 and e = None]]
  have "reachable typed_nil (?w s3 [Created (Some 0) None, Closed None] [Runner 0] 1)"
    by (simp add: at_def goto_def)
  then show ?thesis by blast
qed

lemma runners_closed_once_witness:
  "\<exists>s. set_mset (installed s) \<inter> {Runner 0} = {} \<and> installed s + {#Runner 0#} = {#Runner 0#}"
proof -
  obtain s where "reachable False \<lparr>w_store = s, w_calls = [Created (Some 0) None, Closed None],
      w_closed = [Runner 0], w_next = 1, w_panic = False\<rparr>" using example_closed_reachable by blast
  from runners_closed_once [OF this] show ?thesis by auto
qed

text \<open>C21: The sections that pending calls can still run are bounded: without new calls, every execution
ends after at most \<open>world_weight\<close> sections, however they interleave and whatever the runners do.\<close>

lemma calls_terminate:
  assumes "reachable typed_nil w" "(advance typed_nil ^^ m) w w'"
  shows "m + world_weight w' \<le> world_weight w"
proof -
  have "world_inv w' \<and> m + world_weight w' \<le> world_weight w"
    using assms(2)
  proof (induction m arbitrary: w')
    case 0
    then show ?case using reachable_inv [OF assms(1)] by simp
  next
    case (Suc m)
    then obtain v where v: "(advance typed_nil ^^ m) w v" "advance typed_nil v w'" by (auto elim: relpowp_Suc_E)
    with Suc.IH have i: "world_inv v" "m + world_weight v \<le> world_weight w" by blast+
    then have "world_inv w'" using v(2) step_world_inv by (auto simp: advance_def)
    then show ?case using i(2) advance_weight [OF v(2) i(1)] by simp
  qed
  then show ?thesis ..
qed

text \<open>One caller that looks up a target, which starts a runner.\<close>

lemma example_advance:
  "reachable typed_nil (new_world\<lparr>w_calls := [Create kt True]\<rparr>)"
  "\<exists>w'. advance typed_nil (new_world\<lparr>w_calls := [Create kt True]\<rparr>) w' \<and> w_calls w' = [Starting kt True 0]"
proof -
  let ?w = "new_world\<lparr>w_calls := [Create kt True]\<rparr>"
  show "reachable typed_nil ?w"
    using reachable_step [OF reachable_new step.call [where pc = "Create kt True"]] by (simp add: new_world_def)
  obtain s1 where s1: "get_or_start kt True 0 NewStore = (s1, Start 0)"
    by (simp add: get_or_start_def findTabLocked_def find_in_def NewStore_def Let_def)
  have "step typed_nil ?w (goto 0 (Starting kt True 0) s1 ?w)"
    using step.lookup [where n = 0 and k = kt and a = True and now = 0 and s' = s1 and r = "Start 0" and w = ?w] s1
    by (simp add: at_def new_world_def)
  then show "\<exists>w'. advance typed_nil ?w w' \<and> w_calls w' = [Starting kt True 0]"
    by (intro exI [of _ "goto 0 (Starting kt True 0) s1 ?w"]) (simp add: advance_def new_world_def)
qed

lemma calls_terminate_witness:
  "\<exists>w'. (advance True ^^ 1) (new_world\<lparr>w_calls := [Create kt True]\<rparr>) w' \<and> 1 + world_weight w' \<le> 10"
proof -
  obtain w' where "advance True (new_world\<lparr>w_calls := [Create kt True]\<rparr>) w'" using example_advance(2) by blast
  then have "(advance True ^^ 1) (new_world\<lparr>w_calls := [Create kt True]\<rparr>) w'" unfolding relpowp_1 .
  moreover from calls_terminate [OF example_advance(1) this]
  have "1 + world_weight w' \<le> 10"
    by (simp add: world_weight_def new_world_def total_of_def installed_def all_tabs_def NewStore_def)
  ultimately show ?thesis by blast
qed

text \<open>C20: With a runner factory that returns a plain nil on failure, the process never panics and the
store never deadlocks: as long as a call is unfinished some call can run, and all calls can be
completed. Callers that wait for a start always wait for a call that can itself proceed.\<close>

lemma calls_complete:
  assumes "reachable False w"
  shows "\<not> w_panic w \<and> ((\<exists>w'. advance False w w') \<longleftrightarrow> \<not> list_all finished (w_calls w)) \<and>
    (\<exists>w'. (advance False)\<^sup>*\<^sup>* w w' \<and> list_all finished (w_calls w'))"
  using reachable_no_panic [OF assms] calls_settle [OF assms] advance_unfinished
    world_progress [OF reachable_inv [OF assms]]
  by (auto simp: list_all_length)

lemma calls_complete_witness:
  "\<exists>w'. (advance False)\<^sup>*\<^sup>* (new_world\<lparr>w_calls := [Create kt True]\<rparr>) w' \<and> list_all finished (w_calls w')"
  using calls_complete [OF example_advance(1)] by blast

text \<open>With the factory of \<open>NewService\<close>, which returns the nil pointer of a failed start inside a
non-nil interface, the process can panic: a start that is canceled while it fails is closed through
the nil pointer.\<close>

lemma typed_nil_start_panics: "\<exists>w. reachable True w \<and> w_panic w"
proof -
  let ?w = "\<lambda>s cs. \<lparr>w_store = s, w_calls = cs, w_closed = [], w_next = 0, w_panic = False\<rparr>"
  note ev = get_or_start_def finish_start_def findTabLocked_def find_in_def NewStore_def Let_def
    upd_start_def closeTarget_def
  obtain s1 where s1: "get_or_start kt True 0 NewStore = (s1, Start 0)" by (simp add: ev)
  obtain s2 where s2: "closeTarget kt True s1 = (s2, True, [], [0])" using s1 by (auto simp: ev)
  have s3: "finish_start kt True 0 Nil_pointer (Some 1) 0 s2 = (s2, Canceled Nil_pointer)"
    using s1 s2 by (auto simp: ev)
  have "reachable True (?w NewStore [Create kt True])"
    using reachable_step [OF reachable_new step.call [where pc = "Create kt True"]] by (simp add: new_world_def)
  from reachable_step [OF this step.call [where pc = "Close kt True"]]
  have "reachable True (?w NewStore [Create kt True, Close kt True])" by simp
  from reachable_step [OF this step.lookup [where n = 0 and k = kt and a = True and now = 0 and s' = s1 and r = "Start 0"]]
  have "reachable True (?w s1 [Starting kt True 0, Close kt True])" using s1 by (simp add: at_def goto_def)
  from reachable_step [OF this step.close [where n = 1 and k = kt and c = True and s' = s2 and found = True
      and rs = "[]" and js = "[0]"]]
  have "reachable True (?w s2 [Starting kt True 0, Closing [] [0] None])" using s2 by (simp add: at_def goto_def)
  from reachable_step [OF this step.start_fails [where n = 0 and k = kt and a = True and j = 0
      and r = Nil_pointer and e = 1]]
  have "reachable True (?w s2 [Started kt True 0 Nil_pointer (Some 1), Closing [] [0] None])"
    by (simp add: at_def goto_def)
  from reachable_step [OF this step.finish [where n = 0 and k = kt and a = True and j = 0 and r = Nil_pointer
      and e = "Some 1" and now = 0 and s' = s2 and x = "Canceled Nil_pointer"]]
  have "reachable True (?w s2 [Closing_start kt 0 Nil_pointer, Closing [] [0] None])"
    using s3 by (simp add: at_def goto_def)
  from reachable_step [OF this step.close_panics [where n = 0 and k = kt and j = 0 and r = Nil_pointer and close = "\<lambda>_. None"]]
  show ?thesis by (intro exI) (auto simp: at_def close_canceled_eq)
qed

end
