(* ===== verification/Target_Service.thy ===== *)
theory Target_Service
  imports Target_Store Key_Sequences "HOL-Library.Word"
begin

section \<open>The service (internal/server/service.go)\<close>

text \<open>
  The service validates a request, finds or starts its target, runs one runner operation on it and
  releases the target again. This theory is what one call does from its start to its end; a call that
  would have to wait for a start made by another call gives \<open>None\<close>. How the sections of several calls
  interleave is the subject of \<open>Service_Lifecycle\<close>.

  The runner is an interface: its methods are a record of functions, an argument of everything that
  uses it. \<open>call_env\<close> is what one call gets from outside: the outcome of the runner factory and the
  readings of the clock.
\<close>

datatype service_error =
    Invalid invalid_request
  | Bad_keys key_error
  | Service_stopping
  | Target_not_found
  | Unknown_action string
  | Not_streaming string
  | Runner_error go_err

record response =
  rs_output :: string
  rs_exit_code :: int
  rs_truncated :: bool
  rs_snapshot :: snapshot
  rs_err :: "service_error option"

record 'w runner_ops =
  ro_Run :: "runner_value \<Rightarrow> string \<Rightarrow> go_err + run_result"
  ro_RunWithDone :: "(runner_value \<Rightarrow> string \<Rightarrow> go_err + run_result) option"
  ro_SendWait :: "runner_value \<Rightarrow> string \<Rightarrow> int \<Rightarrow> go_err + run_result"
  ro_CommandWait :: "runner_value \<Rightarrow> string \<Rightarrow> int \<Rightarrow> go_err + run_result"
  ro_KeysWait :: "runner_value \<Rightarrow> string \<Rightarrow> int \<Rightarrow> go_err + run_result"
  ro_Read :: "runner_value \<Rightarrow> int \<Rightarrow> go_err + run_result"
  ro_Send :: "runner_value \<Rightarrow> string \<Rightarrow> go_err option"
  ro_Text :: "runner_value \<Rightarrow> string \<Rightarrow> go_err option"
  ro_Command :: "runner_value \<Rightarrow> string \<Rightarrow> go_err option"
  ro_Keys :: "runner_value \<Rightarrow> string \<Rightarrow> go_err option"
  ro_Close :: "runner_value \<Rightarrow> go_err option"
  ro_Follow :: "runner_value \<Rightarrow> 'w \<Rightarrow> 'w \<times> go_err option"
  ro_CtrlCFollow :: "runner_value \<Rightarrow> 'w \<Rightarrow> 'w \<times> go_err option"
  ro_SendFollow :: "runner_value \<Rightarrow> string \<Rightarrow> 'w \<Rightarrow> 'w \<times> go_err option"
  ro_CommandFollow :: "runner_value \<Rightarrow> string \<Rightarrow> 'w \<Rightarrow> 'w \<times> go_err option"
  ro_KeysFollow :: "runner_value \<Rightarrow> string \<Rightarrow> 'w \<Rightarrow> 'w \<times> go_err option"

record call_env =
  ce_factory :: "runner_value \<times> go_err option"
  ce_found :: time
  ce_started :: time
  ce_finished :: time

record service =
  sv_store :: store
  sv_stopping :: bool
  sv_operations :: nat

definition newServiceWithRunnerFactory :: service where
  "newServiceWithRunnerFactory = \<lparr>sv_store = NewStore, sv_stopping = False, sv_operations = 0\<rparr>"

abbreviation set_store :: "service \<Rightarrow> store \<Rightarrow> service" where
  "set_store s st \<equiv> s\<lparr>sv_store := st\<rparr>"

subsection \<open>Responses\<close>

definition ok_response :: response where
  "ok_response = \<lparr>rs_output = [], rs_exit_code = 0, rs_truncated = False, rs_snapshot = \<lparr>sn_sessions = []\<rparr>,
     rs_err = None\<rparr>"

definition errorResponse :: "service_error \<Rightarrow> response" where
  "errorResponse e = ok_response\<lparr>rs_err := Some e\<rparr>"

definition run_response :: "go_err + run_result \<Rightarrow> response" where
  "run_response x =
     (case x of Inl e \<Rightarrow> errorResponse (Runner_error e)
      | Inr result \<Rightarrow> ok_response\<lparr>rs_output := rr_output result, rs_exit_code := rr_exit_code result,
          rs_truncated := rr_truncated result\<rparr>)"

definition err_response :: "go_err option \<Rightarrow> response" where
  "err_response x = (case x of Some e \<Rightarrow> errorResponse (Runner_error e) | None \<Rightarrow> ok_response)"

text \<open>\<open>time.Duration(n) * time.Millisecond\<close> on 64-bit signed integers.\<close>

definition duration_millis :: "int \<Rightarrow> int" where
  "duration_millis n = sint (word_of_int n * word_of_int 1000000 :: 64 word)"

subsection \<open>Admission\<close>

definition beginOperation :: "service \<Rightarrow> service_error + service" where
  "beginOperation s =
     (if sv_stopping s then Inl Service_stopping else Inr (s\<lparr>sv_operations := sv_operations s + 1\<rparr>))"

definition endOperation :: "service \<Rightarrow> service" where
  "endOperation s = s\<lparr>sv_operations := sv_operations s - 1\<rparr>"

definition StopAdmission :: "service \<Rightarrow> service" where
  "StopAdmission s = s\<lparr>sv_stopping := True\<rparr>"

subsection \<open>Using a target\<close>

definition target_of :: "request \<Rightarrow> target_key" where
  "target_of req = Target_key (req_session req) (req_pane req) (req_tab req)"

text \<open>
  \<open>getOrCreate\<close> with no other call under way. A start that this call makes is not canceled, because only
  another call could do that.
\<close>

definition getOrCreate ::
  "target_key \<Rightarrow> bool \<Rightarrow> call_env \<Rightarrow> store \<Rightarrow> (store \<times> (service_error + tab_id)) option" where
  "getOrCreate k active env st =
     (case ValidateCompleteTarget (tk_session k) (tk_pane k) (tk_tab k) of
        Some e \<Rightarrow> Some (st, Inl (Invalid e))
      | None \<Rightarrow>
        (case get_or_start k active (ce_found env) st of
           (st', Found i) \<Rightarrow> Some (st', Inr i)
         | (st', Wait j) \<Rightarrow> None
         | (st', Start j) \<Rightarrow>
             (case finish_start k active j (fst (ce_factory env)) (snd (ce_factory env)) (ce_started env) st' of
                (st'', Installed i) \<Rightarrow> Some (st'', Inr i)
              | (st'', Failed e) \<Rightarrow> Some (st'', Inl (Runner_error e))
              | (st'', Canceled r) \<Rightarrow> None)))"

definition beginTargetUse ::
  "request \<Rightarrow> bool \<Rightarrow> call_env \<Rightarrow> service \<Rightarrow> (service \<times> (service_error + tab_id option)) option" where
  "beginTargetUse req createMissing env s =
     (if createMissing then
        (if sv_stopping s then Some (s, Inl Service_stopping)
         else (case getOrCreate (target_of req) True env (sv_store s) of
           None \<Rightarrow> None
         | Some (st, Inl e) \<Rightarrow> Some (set_store s st, Inl e)
         | Some (st, Inr i) \<Rightarrow> Some (set_store s st, Inr (Some i))))
      else (case BeginExistingUse (target_of req) (ce_found env) (sv_store s) of
        (st, tab) \<Rightarrow> Some (set_store s st, Inr tab)))"

text \<open>
  The frame that the actions on a target share: begin to use it, report an error or a missing target,
  run \<open>body\<close> on its runner, and finish the use.
\<close>

definition with_target ::
  "request \<Rightarrow> bool \<Rightarrow> call_env \<Rightarrow> (service_error \<Rightarrow> 'r) \<Rightarrow> (runner_value \<Rightarrow> 'r) \<Rightarrow> service \<Rightarrow>
     (service \<times> 'r) option" where
  "with_target req createMissing env err body s =
     (case beginTargetUse req createMissing env s of
        None \<Rightarrow> None
      | Some (s', Inl e) \<Rightarrow> Some (s', err e)
      | Some (s', Inr None) \<Rightarrow> Some (s', err Target_not_found)
      | Some (s', Inr (Some i)) \<Rightarrow>
          Some (set_store s' (finishUse i (ce_finished env) (sv_store s')),
                body (tb_runner (st_tabs (sv_store s') ! i))))"

subsection \<open>Handling a request\<close>

definition runWithDone :: "'w runner_ops \<Rightarrow> runner_value \<Rightarrow> string \<Rightarrow> go_err + run_result" where
  "runWithDone ops runner command =
     (case ro_RunWithDone ops of Some f \<Rightarrow> f runner command | None \<Rightarrow> ro_Run ops runner command)"

definition create :: "request \<Rightarrow> call_env \<Rightarrow> service \<Rightarrow> (service \<times> response) option" where
  "create req env s = with_target req True env errorResponse (\<lambda>r. ok_response) s"

text \<open>
  \<open>Store.CloseTarget\<close> and \<open>Store.CloseAll\<close> with no start under way that they would wait for.
\<close>

definition CloseTarget :: "'w runner_ops \<Rightarrow> target_key \<Rightarrow> store \<Rightarrow> (store \<times> go_err option) option" where
  "CloseTarget ops k st =
     (case closeTarget k True st of
        (st', found, rs, []) \<Rightarrow> Some (st', closeTabs (ro_Close ops) rs None)
      | (st', found, rs, js) \<Rightarrow> None)"

definition CloseAll_call :: "'w runner_ops \<Rightarrow> store \<Rightarrow> (store \<times> go_err option) option" where
  "CloseAll_call ops st =
     (case CloseAll st of
        (st', rs, []) \<Rightarrow> Some (st', closeTabs (ro_Close ops) rs None)
      | (st', rs, js) \<Rightarrow> None)"

definition wait_or_plain ::
  "request \<Rightarrow> (runner_value \<Rightarrow> string \<Rightarrow> int \<Rightarrow> go_err + run_result) \<Rightarrow>
     (runner_value \<Rightarrow> string \<Rightarrow> go_err option) \<Rightarrow> runner_value \<Rightarrow> response" where
  "wait_or_plain req waiting plain runner =
     (if 0 < req_wait_millis req
      then run_response (waiting runner (req_command req) (duration_millis (req_wait_millis req)))
      else err_response (plain runner (req_command req)))"

text \<open>What the actions on a target do with its runner.\<close>

definition runner_action :: "'w runner_ops \<Rightarrow> request \<Rightarrow> (runner_value \<Rightarrow> response) option" where
  "runner_action ops req =
     map_of
       [(''run'', \<lambda>runner. run_response (runWithDone ops runner (req_command req))),
        (''idle'', \<lambda>runner.
           let wait = duration_millis (req_wait_millis req);
               wait = (if wait \<le> 0 then 500 * 1000000 else wait)
           in run_response (ro_SendWait ops runner (req_command req) wait)),
        (''send'', wait_or_plain req (ro_SendWait ops) (ro_Send ops)),
        (''text'', \<lambda>runner. err_response (ro_Text ops runner (req_command req))),
        (''command'', wait_or_plain req (ro_CommandWait ops) (ro_Command ops)),
        (''keys'', wait_or_plain req (ro_KeysWait ops) (ro_Keys ops)),
        (''read'', \<lambda>runner. run_response (ro_Read ops runner (req_read_count req)))]
       (req_action req)"

definition dispatch ::
  "'w runner_ops \<Rightarrow> request \<Rightarrow> bool \<Rightarrow> call_env \<Rightarrow> service \<Rightarrow> (service \<times> response) option" where
  "dispatch ops req createMissing env s =
     (if req_action req = ''create'' then create req env s
      else (case runner_action ops req of
        Some body \<Rightarrow> with_target req createMissing env errorResponse body s
      | None \<Rightarrow>
          if req_action req = ''list'' then
            (let st = (if req_session req \<noteq> [] \<and> req_pane req \<noteq> [] \<and> req_tab req \<noteq> []
                       then TouchTarget (target_of req) (ce_found env) (sv_store s) else sv_store s)
             in Some (set_store s st, ok_response\<lparr>rs_snapshot := SnapshotTarget st (target_of req)\<rparr>))
          else if req_action req = ''kill'' \<or> req_action req = ''close'' then
            (case (if req_session req = [] then CloseAll_call ops (sv_store s)
                   else CloseTarget ops (target_of req) (sv_store s)) of
               None \<Rightarrow> None
             | Some (st, err) \<Rightarrow> Some (set_store s st, err_response err))
          else Some (s, errorResponse (Unknown_action (req_action req)))))"

definition HandleWithDone ::
  "'w runner_ops \<Rightarrow> request \<Rightarrow> bool \<Rightarrow> call_env \<Rightarrow> service \<Rightarrow> (service \<times> response) option" where
  "HandleWithDone ops req createMissing env s =
     (case beginOperation s of
        Inl e \<Rightarrow> Some (s, errorResponse e)
      | Inr s \<Rightarrow>
          map_option (map_prod endOperation id)
            (case ValidateRequest req of
               Some e \<Rightarrow> Some (s, errorResponse (Invalid e))
             | None \<Rightarrow> dispatch ops req createMissing env s))"

definition Create :: "request \<Rightarrow> call_env \<Rightarrow> service \<Rightarrow> (service \<times> response) option" where
  "Create req env s =
     (case beginOperation s of
        Inl e \<Rightarrow> Some (s, errorResponse e)
      | Inr s \<Rightarrow>
          map_option (map_prod endOperation id)
            (case ValidateCompleteTarget (req_session req) (req_pane req) (req_tab req) of
               Some e \<Rightarrow> Some (s, errorResponse (Invalid e))
             | None \<Rightarrow> create req env s))"

definition CloseExisting :: "'w runner_ops \<Rightarrow> request \<Rightarrow> service \<Rightarrow> service \<times> response" where
  "CloseExisting ops req s =
     (case beginOperation s of
        Inl e \<Rightarrow> (s, errorResponse e)
      | Inr s \<Rightarrow>
          map_prod endOperation id
            (case ValidateCompleteTarget (req_session req) (req_pane req) (req_tab req) of
               Some e \<Rightarrow> (s, errorResponse (Invalid e))
             | None \<Rightarrow>
                (case closeTarget (target_of req) False (sv_store s) of
                   (st, found, rs, js) \<Rightarrow>
                     (set_store s st,
                      case closeTabs (ro_Close ops) rs None of
                        Some e \<Rightarrow> errorResponse (Runner_error e)
                      | None \<Rightarrow> if found then ok_response else errorResponse Target_not_found))))"

subsection \<open>Streaming\<close>

definition ValidateStreamRequest :: "request \<Rightarrow> service_error option" where
  "ValidateStreamRequest req =
     (case ValidateRequest req of
        Some e \<Rightarrow> Some (Invalid e)
      | None \<Rightarrow>
          if req_action req = ''command'' then
            (case parseKeySequence (req_command req) of Inl e \<Rightarrow> Some (Bad_keys e) | Inr out \<Rightarrow> None)
          else if req_action req = ''keys'' then
            (case parseKeySequenceNoEnter (req_command req) of Inl e \<Rightarrow> Some (Bad_keys e) | Inr out \<Rightarrow> None)
          else None)"

definition stream_action ::
  "'w runner_ops \<Rightarrow> request \<Rightarrow> 'w \<Rightarrow> runner_value \<Rightarrow> 'w \<times> service_error option" where
  "stream_action ops req output runner =
     (let lift = map_prod id (map_option Runner_error) in
      if req_action req = ''ctrl-c'' then lift (ro_CtrlCFollow ops runner output)
      else if req_action req = ''follow'' then lift (ro_Follow ops runner output)
      else if req_action req = ''command'' then lift (ro_CommandFollow ops runner (req_command req) output)
      else if req_action req = ''keys'' then lift (ro_KeysFollow ops runner (req_command req) output)
      else if req_action req = ''send'' then lift (ro_SendFollow ops runner (req_command req) output)
      else (output, Some (Not_streaming (req_action req))))"

definition Stream ::
  "'w runner_ops \<Rightarrow> request \<Rightarrow> 'w \<Rightarrow> bool \<Rightarrow> call_env \<Rightarrow> service \<Rightarrow>
     (service \<times> 'w \<times> service_error option) option" where
  "Stream ops req output createMissing env s =
     (case beginOperation s of
        Inl e \<Rightarrow> Some (s, output, Some e)
      | Inr s \<Rightarrow>
          map_option (map_prod endOperation id)
            (case ValidateStreamRequest req of
               Some e \<Rightarrow> Some (s, output, Some e)
             | None \<Rightarrow>
                with_target req createMissing env (\<lambda>e. (output, Some e)) (stream_action ops req output) s))"

subsection \<open>Counted use\<close>

text \<open>
  The contract between the service and the store: acquiring counts one use of the tab it returns and of
  no other, a fresh tab has no other use, releasing gives exactly that use back. The client's lemma is
  that a call leaves every count as it found it.
\<close>

locale counted_use =
  fixes inv :: "'s \<Rightarrow> bool" and tabs :: "'s \<Rightarrow> nat" and active :: "'s \<Rightarrow> nat \<Rightarrow> int"
    and acquire :: "'s \<Rightarrow> 's \<times> nat option" and release :: "nat \<Rightarrow> 's \<Rightarrow> 's"
  assumes acquire_inv: "inv s \<Longrightarrow> inv (fst (acquire s))"
    and acquire_grows: "inv s \<Longrightarrow> tabs s \<le> tabs (fst (acquire s))"
    and acquire_exists: "inv s \<Longrightarrow> snd (acquire s) = Some i \<Longrightarrow> i < tabs (fst (acquire s))"
    and acquire_active: "inv s \<Longrightarrow> i < tabs (fst (acquire s)) \<Longrightarrow>
      active (fst (acquire s)) i =
        (if i < tabs s then active s i else 0) + (if snd (acquire s) = Some i then 1 else 0)"
    and active_nonneg: "inv s \<Longrightarrow> i < tabs s \<Longrightarrow> 0 \<le> active s i"
    and release_inv: "inv s \<Longrightarrow> i < tabs s \<Longrightarrow> inv (release i s)"
    and release_tabs: "tabs (release i s) = tabs s"
    and release_active: "inv s \<Longrightarrow> i < tabs s \<Longrightarrow> 0 < active s i \<Longrightarrow>
      active (release i s) i' = (if i' = i then active s i - 1 else active s i')"
begin

definition balanced :: "'s \<Rightarrow> 's \<Rightarrow> bool" where
  "balanced s s' \<longleftrightarrow> inv s' \<and> tabs s \<le> tabs s' \<and>
     (\<forall>i<tabs s'. active s' i = (if i < tabs s then active s i else 0))"

lemma acquire_release:
  assumes "inv s" "acquire s = (s', Some i)"
  shows "balanced s (release i s')"
proof -
  have i: "inv s'" "i < tabs s'" using assms acquire_inv acquire_exists by (metis fst_conv, metis fst_conv snd_conv)
  have a: "active s' i' = (if i' < tabs s then active s i' else 0) + (if i' = i then 1 else 0)" if "i' < tabs s'" for i'
    using acquire_active [OF assms(1), of i'] assms(2) that by auto
  then have "0 < active s' i" using active_nonneg [OF assms(1), of i] i(2) by (simp add: add_nonneg_pos split: if_splits)
  then show ?thesis
    using i a release_inv release_active acquire_grows [OF assms(1)] assms(2) by (auto simp: balanced_def release_tabs)
qed

lemma acquire_nothing:
  "inv s \<Longrightarrow> acquire s = (s', None) \<Longrightarrow> balanced s s'"
  using acquire_inv [of s] acquire_grows [of s] acquire_active [of s] by (auto simp: balanced_def)

end

definition uses_ok :: "store \<Rightarrow> bool" where
  "uses_ok st \<longleftrightarrow> store_inv st \<and> (\<forall>t\<in>set (st_tabs st). 0 \<le> tb_active t)"

definition uses_balanced :: "store \<Rightarrow> store \<Rightarrow> bool" where
  "uses_balanced st st' \<longleftrightarrow> uses_ok st' \<and> length (st_tabs st) \<le> length (st_tabs st') \<and>
     (\<forall>i<length (st_tabs st'). tb_active (st_tabs st' ! i) =
        (if i < length (st_tabs st) then tb_active (st_tabs st ! i) else 0))"

definition acquire_new :: "target_key \<Rightarrow> call_env \<Rightarrow> store \<Rightarrow> store \<times> tab_id option" where
  "acquire_new k env st =
     (case getOrCreate k True env st of None \<Rightarrow> (st, None)
      | Some (st', Inl e) \<Rightarrow> (st', None) | Some (st', Inr i) \<Rightarrow> (st', Some i))"

lemma uses_nonneg: "uses_ok st \<Longrightarrow> i < length (st_tabs st) \<Longrightarrow> 0 \<le> tb_active (st_tabs st ! i)"
  by (simp add: uses_ok_def)

lemma uses_ok_upd_tab:
  assumes "uses_ok st" "i < length (st_tabs st)" "\<And>t. tb_name (f t) = tb_name t"
    and "0 \<le> tb_active (f (st_tabs st ! i))"
  shows "uses_ok (upd_tab f i st)"
proof -
  have "set (st_tabs (upd_tab f i st)) \<subseteq> insert (f (st_tabs st ! i)) (set (st_tabs st))"
    unfolding upd_tab_def by (simp add: set_update_subset_insert)
  then show ?thesis using assms store_inv_upd_tab [of st i f] unfolding uses_ok_def by blast
qed

lemma uses_ok_same_tabs: "uses_ok st \<Longrightarrow> store_inv st' \<Longrightarrow> st_tabs st' = st_tabs st \<Longrightarrow> uses_ok st'"
  by (simp add: uses_ok_def)

lemma finishUse_ok: "uses_ok st \<Longrightarrow> i < length (st_tabs st) \<Longrightarrow> uses_ok (finishUse i now st)"
  unfolding finishUse_def by (rule uses_ok_upd_tab) (auto simp: uses_nonneg)

interpretation existing: counted_use uses_ok "\<lambda>st. length (st_tabs st)" "\<lambda>st i. tb_active (st_tabs st ! i)"
  "BeginExistingUse k now" "\<lambda>i. finishUse i now'" for k now now'
proof
  fix s i i'
  show "uses_ok s \<Longrightarrow> uses_ok (fst (BeginExistingUse k now s))"
    by (auto simp: BeginExistingUse_def findTab_less uses_ok_def [of s] uses_nonneg
        intro!: uses_ok_upd_tab split: option.splits)
  show "uses_ok s \<Longrightarrow> length (st_tabs s) \<le> length (st_tabs (fst (BeginExistingUse k now s)))"
    by (simp add: BeginExistingUse_def split: option.splits)
  show "uses_ok s \<Longrightarrow> snd (BeginExistingUse k now s) = Some i \<Longrightarrow> i < length (st_tabs (fst (BeginExistingUse k now s)))"
    by (auto simp: BeginExistingUse_def uses_ok_def findTab_less split: option.splits)
  show "uses_ok s \<Longrightarrow> i < length (st_tabs (fst (BeginExistingUse k now s))) \<Longrightarrow>
      tb_active (st_tabs (fst (BeginExistingUse k now s)) ! i) =
        (if i < length (st_tabs s) then tb_active (st_tabs s ! i) else 0) +
        (if snd (BeginExistingUse k now s) = Some i then 1 else 0)"
    by (auto simp: BeginExistingUse_def upd_nth uses_ok_def findTab_less split: option.splits)
  show "uses_ok s \<Longrightarrow> i < length (st_tabs s) \<Longrightarrow> 0 \<le> tb_active (st_tabs s ! i)" by (rule uses_nonneg)
  show "uses_ok s \<Longrightarrow> i < length (st_tabs s) \<Longrightarrow> uses_ok (finishUse i now' s)" by (rule finishUse_ok)
  show "length (st_tabs (finishUse i now' s)) = length (st_tabs s)" by (simp add: finishUse_def)
  show "uses_ok s \<Longrightarrow> i < length (st_tabs s) \<Longrightarrow> 0 < tb_active (st_tabs s ! i) \<Longrightarrow>
      tb_active (st_tabs (finishUse i now' s) ! i') =
        (if i' = i then tb_active (st_tabs s ! i) - 1 else tb_active (st_tabs s ! i'))"
    by (simp add: finishUse_def upd_nth)
qed

lemma fresh_start:
  assumes "findTabLocked st k = None" "map_of (st_starting st) k = None"
  shows "get_or_start k a now st =
    (st\<lparr>st_starts := st_starts st @ [\<lparr>sg_done = False, sg_canceled = False, sg_startErr = None, sg_closeErr = None\<rparr>],
        st_starting := AList.update k (length (st_starts st)) (st_starting st)\<rparr>, Start (length (st_starts st)))"
  using assms by (simp add: get_or_start_def Let_def)

lemma getOrCreate_start:
  assumes "findTabLocked st k = None" "map_of (st_starting st) k = None"
    and "ValidateCompleteTarget (tk_session k) (tk_pane k) (tk_tab k) = None"
  shows "getOrCreate k a env st =
    (let st1 = fst (get_or_start k a (ce_found env) st);
         st2 = fst (finish_start k a (length (st_starts st)) (fst (ce_factory env)) (snd (ce_factory env))
           (ce_started env) st1)
     in Some (st2, case snd (ce_factory env) of Some e \<Rightarrow> Inl (Runner_error e) | None \<Rightarrow> Inr (length (st_tabs st))))"
  using assms
  by (simp add: getOrCreate_def fresh_start finish_start_def Let_def nth_append split: option.splits)

lemma getOrCreate_found:
  assumes "findTabLocked st k = Some i" "ValidateCompleteTarget (tk_session k) (tk_pane k) (tk_tab k) = None"
  shows "getOrCreate k a env st = Some (fst (get_or_start k a (ce_found env) st), Inr i)"
  using assms by (simp add: getOrCreate_def get_or_start_def)

lemma started_tabs:
  assumes "findTabLocked st k = None" "map_of (st_starting st) k = None"
  shows "st_tabs (fst (finish_start k a (length (st_starts st)) r e now (fst (get_or_start k a now' st)))) =
    st_tabs st @ (if e = None then [\<lparr>tb_name = tk_tab k, tb_runner = r, tb_lastUsed = Some now,
      tb_active = (if a then 1 else 0)\<rparr>] else [])"
  using assms
  by (auto simp: fresh_start finish_start_def Let_def nth_append end_start_def installTabLocked_def split: option.splits)

lemma started_flat:
  assumes "findTabLocked st k = None" "map_of (st_starting st) k = None"
  shows "findTabLocked (fst (finish_start k a (length (st_starts st)) r e now (fst (get_or_start k a now' st)))) =
    (if e = None then (findTabLocked st)(k \<mapsto> length (st_tabs st)) else findTabLocked st)"
  using assms
  by (auto simp: fresh_start finish_start_def Let_def nth_append findTab_install fun_eq_iff split: option.splits)

lemma started_inv:
  assumes "store_inv st" "findTabLocked st k = None" "map_of (st_starting st) k = None"
  shows "store_inv (fst (finish_start k a (length (st_starts st)) r e now (fst (get_or_start k a now' st))))"
  using get_or_start_inv [OF assms(1), of k a now'] assms(2,3)
  by (intro finish_start_inv) (simp_all add: fresh_start update_conv')

lemma getOrCreate_cases:
  assumes "getOrCreate k True env st = Some (st', res)" "store_inv st"
  obtains (Invalid) e where "st' = st" "res = Inl (Invalid e)"
    | (Found) i where "findTabLocked st k = Some i" "i < length (st_tabs st)" "res = Inr i"
      "st' = upd_tab (\<lambda>t. (t\<lparr>tb_active := tb_active t + 1\<rparr>)\<lparr>tb_lastUsed := Some (ce_found env)\<rparr>) i st"
    | (Failed) e where "store_inv st'" "st_tabs st' = st_tabs st" "res = Inl (Runner_error e)"
    | (Installed) "store_inv st'" "res = Inr (length (st_tabs st))"
      "st_tabs st' = st_tabs st @ [\<lparr>tb_name = tk_tab k, tb_runner = fst (ce_factory env),
         tb_lastUsed = Some (ce_started env), tb_active = 1\<rparr>]"
proof (cases "ValidateCompleteTarget (tk_session k) (tk_pane k) (tk_tab k)")
  case (Some e)
  then show ?thesis using assms(1) by (auto simp: getOrCreate_def intro: Invalid)
next
  case valid: None
  show ?thesis
  proof (cases "findTabLocked st k")
    case (Some i)
    then show ?thesis
      using assms valid Found [of i] by (auto simp: getOrCreate_found get_or_start_def findTab_less)
  next
    case none: None
    have start: "map_of (st_starting st) k = None"
      using assms(1) valid none by (auto simp: getOrCreate_def get_or_start_def split: option.splits)
    note g = getOrCreate_start [OF none start valid, of True env] started_tabs [OF none start]
      started_inv [OF assms(2) none start]
    show ?thesis
    proof (cases "snd (ce_factory env)")
      case (Some e)
      then show ?thesis using g assms(1) Failed [of e] by (auto simp: Let_def)
    next
      case None
      then show ?thesis using g assms(1) Installed by (auto simp: Let_def)
    qed
  qed
qed

interpretation creating: counted_use uses_ok "\<lambda>st. length (st_tabs st)" "\<lambda>st i. tb_active (st_tabs st ! i)"
  "acquire_new k env" "\<lambda>i. finishUse i now'" for k env now'
proof
  fix s i i'
  assume s: "uses_ok s"
  then have inv: "store_inv s" by (simp add: uses_ok_def)
  have step: "uses_ok (fst (acquire_new k env s)) \<and> length (st_tabs s) \<le> length (st_tabs (fst (acquire_new k env s))) \<and>
      (\<forall>i. snd (acquire_new k env s) = Some i \<longrightarrow> i < length (st_tabs (fst (acquire_new k env s)))) \<and>
      (\<forall>i<length (st_tabs (fst (acquire_new k env s))). tb_active (st_tabs (fst (acquire_new k env s)) ! i) =
        (if i < length (st_tabs s) then tb_active (st_tabs s ! i) else 0) +
        (if snd (acquire_new k env s) = Some i then 1 else 0))"
  proof (cases "getOrCreate k True env s")
    case (Some x)
    then obtain s' res where x: "getOrCreate k True env s = Some (s', res)" by (cases x) auto
    from x inv show ?thesis
    proof (cases rule: getOrCreate_cases)
      case (Found i)
      moreover have "uses_ok s'" unfolding Found(4)
        by (rule uses_ok_upd_tab [OF s Found(2)]) (auto simp: uses_nonneg [OF s Found(2)])
      ultimately show ?thesis by (auto simp: acquire_new_def x upd_nth)
    qed (use s in \<open>auto simp: acquire_new_def x uses_ok_def nth_append\<close>)
  qed (use s in \<open>simp add: acquire_new_def\<close>)
  then show "uses_ok (fst (acquire_new k env s))"
    and "length (st_tabs s) \<le> length (st_tabs (fst (acquire_new k env s)))" by simp_all
  show "snd (acquire_new k env s) = Some i \<Longrightarrow> i < length (st_tabs (fst (acquire_new k env s)))" using step by blast
  show "i < length (st_tabs (fst (acquire_new k env s))) \<Longrightarrow> tb_active (st_tabs (fst (acquire_new k env s)) ! i) =
        (if i < length (st_tabs s) then tb_active (st_tabs s ! i) else 0) +
        (if snd (acquire_new k env s) = Some i then 1 else 0)" using step by blast
qed (simp_all add: uses_nonneg finishUse_ok existing.release_tabs existing.release_active)

subsection \<open>What a handled request leaves behind\<close>

lemma balanced_iff:
  "existing.balanced st st' \<longleftrightarrow> uses_balanced st st'" "creating.balanced st st' \<longleftrightarrow> uses_balanced st st'"
  by (simp_all add: existing.balanced_def creating.balanced_def uses_balanced_def)

lemma uses_balanced_refl: "uses_ok st \<Longrightarrow> uses_balanced st st"
  by (simp add: uses_balanced_def)

lemma uses_balanced_same_tabs:
  "uses_ok st \<Longrightarrow> store_inv st' \<Longrightarrow> st_tabs st' = st_tabs st \<Longrightarrow> uses_balanced st st'"
  by (simp add: uses_balanced_def uses_ok_same_tabs)

lemma with_target_balanced:
  assumes "with_target req cm env err body s = Some (s', r)" "uses_ok (sv_store s)"
  shows "sv_operations s' = sv_operations s \<and> sv_stopping s' = sv_stopping s \<and>
    uses_balanced (sv_store s) (sv_store s')"
proof (cases "cm \<and> sv_stopping s")
  case True
  then show ?thesis using assms by (auto simp: with_target_def beginTargetUse_def uses_balanced_refl)
next
  case False
  show ?thesis
  proof (cases cm)
    case True
    then obtain st res where g: "getOrCreate (target_of req) True env (sv_store s) = Some (st, res)"
      using assms(1) False by (auto simp: with_target_def beginTargetUse_def split: option.splits)
    then have a: "acquire_new (target_of req) env (sv_store s) = (st, case res of Inl e \<Rightarrow> None | Inr i \<Rightarrow> Some i)"
      by (simp add: acquire_new_def split: sum.splits)
    show ?thesis
      using assms(1) False True g creating.acquire_release [OF assms(2)] creating.acquire_nothing [OF assms(2)] a
      by (cases res) (auto simp: with_target_def beginTargetUse_def balanced_iff)
  next
    case False
    obtain st tab where "BeginExistingUse (target_of req) (ce_found env) (sv_store s) = (st, tab)" by fastforce
    then show ?thesis
      using assms(1) False existing.acquire_release [OF assms(2)] existing.acquire_nothing [OF assms(2)]
      by (cases tab) (auto simp: with_target_def beginTargetUse_def balanced_iff)
  qed
qed

lemma st_tabs_cancel_list: "st_tabs (foldl (\<lambda>s j. upd_start g j s) st js) = st_tabs st"
  by (induction js arbitrary: st) simp_all

lemma close_calls:
  assumes "uses_ok st"
  shows "CloseTarget ops k st = Some (st', e) \<Longrightarrow> uses_balanced st st'"
    and "CloseAll_call ops st = Some (st', e) \<Longrightarrow> uses_balanced st st'"
proof -
  have "st_tabs (fst (closeTarget k True st)) = st_tabs st" "st_tabs (fst (CloseAll st)) = st_tabs st"
    by (simp_all add: closeTarget_def CloseAll_def Let_def st_tabs_cancel_list)
  then show "CloseTarget ops k st = Some (st', e) \<Longrightarrow> uses_balanced st st'"
    and "CloseAll_call ops st = Some (st', e) \<Longrightarrow> uses_balanced st st'"
    using assms closeTarget_inv [of st k True] CloseAll_inv [of st]
    by (auto simp: CloseTarget_def CloseAll_call_def uses_ok_def intro!: uses_balanced_same_tabs
        split: prod.splits list.splits)
qed

lemma TouchTarget_balanced: "uses_ok st \<Longrightarrow> uses_balanced st (TouchTarget k now st)"
proof -
  assume st: "uses_ok st"
  have "uses_ok (TouchTarget k now st)"
    using st by (auto simp: TouchTarget_def uses_ok_def [of st] uses_nonneg findTab_less
        intro!: uses_ok_upd_tab split: option.splits)
  then show ?thesis
    using st by (auto simp: uses_balanced_def TouchTarget_def uses_ok_def findTab_less upd_nth split: option.splits)
qed

lemma dispatch_balanced:
  assumes "dispatch ops req cm env s = Some (s', r)" "uses_ok (sv_store s)"
  shows "sv_operations s' = sv_operations s \<and> sv_stopping s' = sv_stopping s \<and>
    uses_balanced (sv_store s) (sv_store s')"
  using assms
  by (auto simp: dispatch_def create_def Let_def uses_balanced_refl TouchTarget_balanced
      dest: with_target_balanced [OF _ assms(2)] close_calls [OF assms(2)]
      split: if_split_asm option.split_asm)

subsection \<open>Properties\<close>

text \<open>C9: A handled request gives back everything it took: the number of operations and the use counts of
all targets are as before, a target it started has no use left, and the store's invariant holds, whether
the request succeeds or fails. The same holds of a stream.\<close>

lemma handler_gives_back:
  assumes "uses_ok (sv_store s)"
    and "HandleWithDone ops req createMissing env s = Some (s1, r)"
    and "Stream ops req' output createMissing env s = Some (s2, output', err)"
  shows "sv_operations s1 = sv_operations s \<and> sv_stopping s1 = sv_stopping s \<and>
      uses_balanced (sv_store s) (sv_store s1) \<and>
    sv_operations s2 = sv_operations s \<and> sv_stopping s2 = sv_stopping s \<and>
      uses_balanced (sv_store s) (sv_store s2)"
proof -
  let ?s = "s\<lparr>sv_operations := sv_operations s + 1\<rparr>"
  have "sv_operations s1 = sv_operations s \<and> sv_stopping s1 = sv_stopping s \<and> uses_balanced (sv_store s) (sv_store s1)"
    using assms(1,2) dispatch_balanced [of ops req createMissing env ?s]
    by (auto simp: HandleWithDone_def beginOperation_def endOperation_def uses_balanced_refl
        split: if_splits option.splits)
  moreover have "sv_operations s2 = sv_operations s \<and> sv_stopping s2 = sv_stopping s \<and>
      uses_balanced (sv_store s) (sv_store s2)"
    using assms(1,3)
    by (auto simp: Stream_def beginOperation_def endOperation_def uses_balanced_refl
        split: if_split_asm option.split_asm dest!: with_target_balanced)
  ultimately show ?thesis by simp
qed

text \<open>A service with one tab, a request, and a runner that echoes.\<close>

definition echo_ops :: "string runner_ops" where
  "echo_ops =
     (let say = (\<lambda>r s. Inr \<lparr>rr_output = s, rr_exit_code = 0, rr_truncated = False\<rparr>); wait = (\<lambda>r s d. say r s);
          quiet = (\<lambda>r s. None); follow = (\<lambda>r w. (w, None)); send = (\<lambda>r s w. (w @ s, None))
      in \<lparr>ro_Run = say, ro_RunWithDone = None, ro_SendWait = wait, ro_CommandWait = wait, ro_KeysWait = wait,
          ro_Read = (\<lambda>r n. say r []), ro_Send = quiet, ro_Text = quiet, ro_Command = quiet, ro_Keys = quiet,
          ro_Close = (\<lambda>r. None), ro_Follow = follow, ro_CtrlCFollow = follow, ro_SendFollow = send,
          ro_CommandFollow = send, ro_KeysFollow = send\<rparr>)"

definition example_request :: "string \<Rightarrow> string \<Rightarrow> request" where
  "example_request action command =
     \<lparr>req_action = action, req_session = ''s'', req_pane = ''p'', req_tab = ''t'', req_command = command,
      req_follow = False, req_wait_millis = 0, req_read_count = 0, req_stream_version = 0, req_stream_action = []\<rparr>"

definition example_env :: call_env where
  "example_env = \<lparr>ce_factory = (Runner 1, None), ce_found = 10, ce_started = 11, ce_finished = 12\<rparr>"

definition example_service :: service where
  "example_service = \<lparr>sv_store = example_store, sv_stopping = False, sv_operations = 0\<rparr>"

lemma example_target: "ValidateCompleteTarget ''s'' ''p'' ''t'' = None"
  by (simp add: ValidateCompleteTarget_iff target_ok_def plain_component)

lemma ls_valid: "ValidateCommand ''ls'' = None"
proof -
  have "valid_utf8 ''ls''" by (rule valid_utf8_ascii) simp
  then show ?thesis by (simp add: ValidateCommand_def bound_simps)
qed

lemma target_action_valid:
  assumes "action \<in> set target_actions" shows "ValidateAction action = None"
proof -
  have "list_all (\<lambda>a. a \<noteq> [] \<and> length a \<le> 32 \<and> list_all (\<lambda>c. bval c < 0x80) a) target_actions"
    by (simp add: target_actions_def)
  then have "action \<noteq> []" "length action \<le> 32" "\<forall>c\<in>set action. bval c < 0x80"
    using assms by (auto simp: list_all_iff)
  then show ?thesis by (simp add: ValidateAction_def valid_utf8_ascii bound_simps)
qed

lemma example_valid:
  assumes "action \<in> set target_actions" shows "ValidateRequest (example_request action ''ls'') = None"
proof -
  have "list_all (\<lambda>a. a \<notin> set [''daemon'', ''stop''] \<and> a \<noteq> ''list'' \<and> a \<noteq> ''kill'') target_actions"
    by (simp add: target_actions_def)
  then have "action \<notin> set [''daemon'', ''stop'']" "action \<noteq> ''list''" "action \<noteq> ''kill''"
    using assms by (auto simp: list_all_iff)
  then show ?thesis
    using assms by (simp add: ValidateRequest_def example_request_def example_target ls_valid
        target_action_valid ValidateReadCount_def bound_simps)
qed

lemma example_uses_ok: "uses_ok (sv_store example_service)"
  by (simp add: uses_ok_def example_service_def example_store_inv) (simp add: example_store_eq)

lemma example_find: "findTabLocked example_store (Target_key ''s'' ''p'' ''t'') = Some 0"
  by (simp add: example_store_eq findTabLocked_def find_in_def)

lemma example_run:
  "\<exists>s1 r. HandleWithDone echo_ops (example_request ''run'' ''ls'') False example_env example_service = Some (s1, r)"
proof -
  have "ValidateRequest (example_request ''run'' ''ls'') = None" by (rule example_valid) (simp add: target_actions_def)
  then show ?thesis
    by (simp add: HandleWithDone_def beginOperation_def example_service_def dispatch_def runner_action_def
        with_target_def beginTargetUse_def target_of_def BeginExistingUse_def example_find
        example_request_def [of "''run''"])
qed

lemma example_stream:
  "\<exists>s2 w e. Stream echo_ops (example_request ''send'' ''ls'') [] False example_env example_service = Some (s2, w, e)"
proof -
  have "ValidateRequest (example_request ''send'' ''ls'') = None" by (rule example_valid) (simp add: target_actions_def)
  then have "ValidateStreamRequest (example_request ''send'' ''ls'') = None"
    by (simp add: ValidateStreamRequest_def) (simp add: example_request_def)
  then have "\<exists>x. Stream echo_ops (example_request ''send'' ''ls'') [] False example_env example_service = Some x"
    by (simp add: Stream_def beginOperation_def example_service_def
        with_target_def beginTargetUse_def target_of_def BeginExistingUse_def example_find
        example_request_def [of "''send''"])
  then show ?thesis by (metis prod_cases3)
qed

lemma handler_gives_back_witness:
  "\<exists>s1 r. HandleWithDone echo_ops (example_request ''run'' ''ls'') False example_env example_service = Some (s1, r) \<and>
     uses_balanced example_store (sv_store s1) \<and> sv_operations s1 = 0"
proof -
  obtain s1 r where run: "HandleWithDone echo_ops (example_request ''run'' ''ls'') False example_env example_service =
      Some (s1, r)" using example_run by blast
  obtain s2 w e where "Stream echo_ops (example_request ''send'' ''ls'') [] False example_env example_service =
      Some (s2, w, e)" using example_stream by blast
  from handler_gives_back [OF example_uses_ok run this] run show ?thesis
    by (auto simp: example_service_def)
qed

lemma begin_end_operation: "endOperation (s\<lparr>sv_operations := Suc (sv_operations s)\<rparr>) = s"
  by (simp add: endOperation_def)

text \<open>C32: A service that is stopping, and a request that is invalid, are refused before anything happens: the
response is an error, no target is looked up, started, used or closed, and nothing is written. A stream
request must also carry a key sequence that can be parsed.\<close>

lemma refused_untouched:
  assumes "sv_stopping s \<or> ValidateRequest req \<noteq> None" and "sv_stopping s \<or> ValidateStreamRequest sreq \<noteq> None"
    and "sv_stopping s \<or> ValidateCompleteTarget (req_session treq) (req_pane treq) (req_tab treq) \<noteq> None"
  shows "(\<exists>e. HandleWithDone ops req createMissing env s = Some (s, errorResponse e)) \<and>
    (\<exists>e. Stream ops sreq output createMissing env s = Some (s, output, Some e)) \<and>
    (\<exists>e. Create treq env s = Some (s, errorResponse e)) \<and>
    (\<exists>e. CloseExisting ops treq s = (s, errorResponse e))"
  using assms
  by (auto simp: HandleWithDone_def Stream_def Create_def CloseExisting_def beginOperation_def begin_end_operation)

lemma refused_untouched_witness:
  "\<exists>e. Stream echo_ops (example_request ''send'' ''ls'') [] True example_env
     (example_service\<lparr>sv_stopping := True\<rparr>) = Some (example_service\<lparr>sv_stopping := True\<rparr>, [], Some e)"
  using refused_untouched [of "example_service\<lparr>sv_stopping := True\<rparr>" "example_request ''send'' ''ls''"
      "example_request ''send'' ''ls''" "example_request ''send'' ''ls''" echo_ops True example_env "[]"] by simp

lemma target_actions_complete:
  "ValidateRequest req = None \<Longrightarrow> req_action req \<in> set target_actions \<Longrightarrow>
     ValidateCompleteTarget (req_session req) (req_pane req) (req_tab req) = None"
proof -
  have "list_all (\<lambda>a. a \<notin> set [''daemon'', ''stop''] \<and> a \<noteq> ''list'' \<and> a \<noteq> ''kill'') target_actions"
    by (simp add: target_actions_def)
  then show "ValidateRequest req = None \<Longrightarrow> req_action req \<in> set target_actions \<Longrightarrow>
      ValidateCompleteTarget (req_session req) (req_pane req) (req_tab req) = None"
    by (auto simp: ValidateRequest_def list_all_iff split: option.splits if_splits)
qed

lemma runner_action_cases:
  assumes "runner_action ops req = Some body"
  shows "req_action req \<in> set target_actions" "req_action req \<noteq> ''create''"
proof -
  have "req_action req \<in> set (map fst [(''run'', ()), (''idle'', ()), (''send'', ()), (''text'', ()), (''command'', ()),
      (''keys'', ()), (''read'', ())])"
    using map_of_SomeD [OF assms [unfolded runner_action_def]] by (auto simp: Let_def)
  moreover have "list_all (\<lambda>a. a \<in> set target_actions \<and> a \<noteq> ''create'')
      (map fst [(''run'', ()), (''idle'', ()), (''send'', ()), (''text'', ()), (''command'', ()), (''keys'', ()), (''read'', ())])"
    by (simp add: target_actions_def)
  ultimately show "req_action req \<in> set target_actions" "req_action req \<noteq> ''create''"
    unfolding list_all_iff by blast+
qed

lemma upd_tab_runner: "(\<And>t. tb_runner (f t) = tb_runner t) \<Longrightarrow> tb_runner (st_tabs (upd_tab f i st) ! i') = tb_runner (st_tabs st ! i')"
  by (cases "i < length (st_tabs st)") (auto simp: upd_nth, simp add: upd_tab_def list_update_beyond)

lemma finishUse_frame [simp]:
  "findTabLocked (finishUse i now st) = findTabLocked st" "tb_runner (st_tabs (finishUse i now st) ! i') = tb_runner (st_tabs st ! i')"
  by (simp_all add: finishUse_def upd_tab_runner)

text \<open>C8: A valid request on a target: when the target exists, the action runs on its runner and the set of
targets stays as it is. When it does not exist, it is started and installed if the caller may create it,
and the action runs on the new runner; a start that fails is reported; a caller that may not create it
gets "target not found" and leaves the service as it was.\<close>

lemma handler_on_demand:
  assumes "\<not> sv_stopping s" "ValidateRequest req = None" "runner_action ops req = Some body"
    and "map_of (st_starting (sv_store s)) (target_of req) = None"
  shows "\<exists>s' r. HandleWithDone ops req createMissing env s = Some (s', r) \<and>
    (case findTabLocked (sv_store s) (target_of req) of
       Some i \<Rightarrow> r = body (tb_runner (st_tabs (sv_store s) ! i)) \<and>
         findTabLocked (sv_store s') = findTabLocked (sv_store s)
     | None \<Rightarrow>
         if \<not> createMissing then r = errorResponse Target_not_found \<and> s' = s
         else (case ce_factory env of
           (runner, Some e) \<Rightarrow> r = errorResponse (Runner_error e) \<and>
             findTabLocked (sv_store s') = findTabLocked (sv_store s)
         | (runner, None) \<Rightarrow> r = body runner \<and>
             findTabLocked (sv_store s') = (findTabLocked (sv_store s))(target_of req \<mapsto> length (st_tabs (sv_store s))) \<and>
             tb_runner (st_tabs (sv_store s') ! length (st_tabs (sv_store s))) = runner))"
proof -
  let ?k = "target_of req" and ?st = "sv_store s" and ?s = "s\<lparr>sv_operations := Suc (sv_operations s)\<rparr>"
  have valid: "ValidateCompleteTarget (tk_session ?k) (tk_pane ?k) (tk_tab ?k) = None"
    using target_actions_complete [OF assms(2)] runner_action_cases(1) [OF assms(3)] by (simp add: target_of_def)
  have h: "HandleWithDone ops req createMissing env s =
      map_option (map_prod endOperation id) (with_target req createMissing env errorResponse body ?s)"
    using assms(1-3) runner_action_cases(2) [OF assms(3)]
    by (simp add: HandleWithDone_def beginOperation_def dispatch_def)
  show ?thesis
  proof (cases "findTabLocked ?st ?k")
    case (Some i)
    have "snd (BeginExistingUse ?k (ce_found env) ?st) = Some i" "getOrCreate ?k True env ?st =
        Some (fst (get_or_start ?k True (ce_found env) ?st), Inr i)"
      using Some getOrCreate_found [OF Some valid] by (simp_all add: BeginExistingUse_def)
    then show ?thesis
      using Some assms(1)
      by (simp add: h with_target_def beginTargetUse_def endOperation_def BeginExistingUse_def get_or_start_def
          upd_tab_runner)
  next
    case None
    note g = getOrCreate_start [OF None assms(4) valid, of True env]
    note flat = started_flat [OF None assms(4), of True "fst (ce_factory env)" "snd (ce_factory env)" "ce_started env" "ce_found env"]
    note tabs = started_tabs [OF None assms(4), of True "fst (ce_factory env)" "snd (ce_factory env)" "ce_started env" "ce_found env"]
    obtain runner e where f: "ce_factory env = (runner, e)" by fastforce
    show ?thesis
      using None assms(1) g tabs flat
      by (cases e) (simp_all add: h with_target_def beginTargetUse_def endOperation_def BeginExistingUse_def f Let_def)
  qed
qed

lemma handler_on_demand_witness:
  "\<exists>s' r. HandleWithDone echo_ops (example_request ''run'' ''ls'') True example_env
     (newServiceWithRunnerFactory) = Some (s', r) \<and> rs_output r = ''ls'' \<and>
     findTabLocked (sv_store s') = [Target_key ''s'' ''p'' ''t'' \<mapsto> 0]"
proof -
  let ?body = "\<lambda>runner. run_response (runWithDone echo_ops runner ''ls'')"
  have v: "ValidateRequest (example_request ''run'' ''ls'') = None" by (rule example_valid) (simp add: target_actions_def)
  have a: "runner_action echo_ops (example_request ''run'' ''ls'') = Some ?body"
    by (simp add: runner_action_def example_request_def)
  have k: "target_of (example_request ''run'' ''ls'') = Target_key ''s'' ''p'' ''t''"
    by (simp add: target_of_def example_request_def)
  have e: "findTabLocked NewStore = Map.empty" "st_starting NewStore = []" "st_tabs NewStore = []"
    by (simp_all add: NewStore_def findTabLocked_def find_in_def fun_eq_iff)
  have "\<exists>s' r. HandleWithDone echo_ops (example_request ''run'' ''ls'') True example_env newServiceWithRunnerFactory =
      Some (s', r) \<and> r = ?body (Runner 1) \<and> findTabLocked (sv_store s') = [Target_key ''s'' ''p'' ''t'' \<mapsto> 0]"
    using handler_on_demand [of newServiceWithRunnerFactory "example_request ''run'' ''ls''" echo_ops ?body True example_env] v a
    by (auto simp: newServiceWithRunnerFactory_def k e example_env_def)
  then show ?thesis by (auto simp: runWithDone_def echo_ops_def Let_def run_response_def ok_response_def)
qed

end
