(* ===== verification/Service_Lifecycle.thy ===== *)
theory Service_Lifecycle
  imports Target_Service
begin

section \<open>Admission and shutdown of the service\<close>

text \<open>
  Operations of the service run concurrently. Two locks order them: \<open>Store.mu\<close>, held by each section of
  the store, and \<open>Service.lifecycleMu\<close>, which \<open>beginTargetUse\<close> holds from its test of \<open>stopping\<close> until the
  new target is installed or has failed, and which \<open>beginOperation\<close> and \<open>StopAdmission\<close> take. At most one
  call is therefore inside the creation of a target; its progress is the \<open>creation\<close> of the state, and
  the other steps are the sections that may run meanwhile.
\<close>

datatype creation =
    Waits target_key start_id
  | Starts target_key start_id
  | Closes target_key start_id

record lifecycle =
  lc_service :: service
  lc_creation :: "creation option"

abbreviation lc_store :: "lifecycle \<Rightarrow> store" where
  "lc_store l \<equiv> sv_store (lc_service l)"

definition with_store :: "store \<Rightarrow> lifecycle \<Rightarrow> lifecycle" where
  "with_store st l = l\<lparr>lc_service := (lc_service l)\<lparr>sv_store := st\<rparr>\<rparr>"

fun after_lookup_creation :: "target_key \<Rightarrow> lookup \<Rightarrow> creation option" where
  "after_lookup_creation k (Found i) = None"
| "after_lookup_creation k (Wait j) = Some (Waits k j)"
| "after_lookup_creation k (Start j) = Some (Starts k j)"

fun after_finish_creation :: "target_key \<Rightarrow> start_id \<Rightarrow> start_result \<Rightarrow> creation option" where
  "after_finish_creation k j (Canceled r) = Some (Closes k j)"
| "after_finish_creation k j (Failed e) = None"
| "after_finish_creation k j (Installed i) = None"

inductive lifecycle_step :: "lifecycle \<Rightarrow> lifecycle \<Rightarrow> bool" where
  begin_operation: "lc_creation l = None \<Longrightarrow> beginOperation (lc_service l) = Inr s \<Longrightarrow>
    lifecycle_step l (l\<lparr>lc_service := s\<rparr>)"
| end_operation: "0 < sv_operations (lc_service l) \<Longrightarrow>
    lifecycle_step l (l\<lparr>lc_service := endOperation (lc_service l)\<rparr>)"
| use: "i < length (st_tabs (lc_store l)) \<Longrightarrow>
    st \<in> {fst (BeginExistingUse k now (lc_store l)), finishUse i now (lc_store l), TouchTarget k now (lc_store l)} \<Longrightarrow>
    lifecycle_step l (with_store st l)"
| create: "lc_creation l = None \<Longrightarrow> \<not> sv_stopping (lc_service l) \<Longrightarrow>
    get_or_start k True now (lc_store l) = (st, r) \<Longrightarrow>
    lifecycle_step l ((with_store st l)\<lparr>lc_creation := after_lookup_creation k r\<rparr>)"
| waited: "lc_creation l = Some (Waits k j) \<Longrightarrow> sg_done (st_starts (lc_store l) ! j) \<Longrightarrow>
    lifecycle_step l (l\<lparr>lc_creation := None\<rparr>)"
| started: "lc_creation l = Some (Starts k j) \<Longrightarrow> finish_start k True j r e now (lc_store l) = (st, x) \<Longrightarrow>
    lifecycle_step l ((with_store st l)\<lparr>lc_creation := after_finish_creation k j x\<rparr>)"
| closed: "lc_creation l = Some (Closes k j) \<Longrightarrow>
    lifecycle_step l ((with_store (finish_canceled k j e (lc_store l)) l)\<lparr>lc_creation := None\<rparr>)"
| close_target: "lifecycle_step l (with_store (fst (closeTarget k c (lc_store l))) l)"
| close_all: "lifecycle_step l (with_store (fst (CloseAll (lc_store l))) l)"
| close_idle: "lifecycle_step l (with_store (fst (CloseIdleTargets now d (lc_store l))) l)"
| runner_done: "lifecycle_step l (with_store (fst (removeWhenDone k i (lc_store l))) l)"
| stop: "lc_creation l = None \<Longrightarrow>
    lifecycle_step l (l\<lparr>lc_service := StopAdmission (lc_service l)\<rparr>)"

definition new_lifecycle :: lifecycle where
  "new_lifecycle = \<lparr>lc_service = newServiceWithRunnerFactory, lc_creation = None\<rparr>"

definition lifecycle_reachable :: "lifecycle \<Rightarrow> bool" where
  "lifecycle_reachable l \<longleftrightarrow> lifecycle_step\<^sup>*\<^sup>* new_lifecycle l"

subsection \<open>The invariant\<close>

text \<open>The starting targets are exactly the one under creation, and none is once the service is stopping.\<close>

fun creation_starting :: "creation option \<Rightarrow> (target_key \<times> start_id) list option" where
  "creation_starting None = Some []"
| "creation_starting (Some (Waits k j)) = None"
| "creation_starting (Some (Starts k j)) = Some [(k, j)]"
| "creation_starting (Some (Closes k j)) = Some [(k, j)]"

definition lifecycle_inv :: "lifecycle \<Rightarrow> bool" where
  "lifecycle_inv l \<longleftrightarrow> store_inv (lc_store l) \<and>
     creation_starting (lc_creation l) = Some (st_starting (lc_store l)) \<and>
     (sv_stopping (lc_service l) \<longrightarrow> lc_creation l = None)"

lemma lifecycle_inv_new: "lifecycle_inv new_lifecycle"
  by (simp add: lifecycle_inv_def new_lifecycle_def newServiceWithRunnerFactory_def)
    (simp add: NewStore_def)

lemma with_store_simps [simp]:
  "lc_store (with_store st l) = st" "sv_stopping (lc_service (with_store st l)) = sv_stopping (lc_service l)"
  "sv_operations (lc_service (with_store st l)) = sv_operations (lc_service l)"
  "lc_creation (with_store st l) = lc_creation l"
  by (simp_all add: with_store_def)

lemma starting_cancel_list: "st_starting (foldl (\<lambda>s j. upd_start g j s) st js) = st_starting st"
  by (induction js arbitrary: st) simp_all

lemma starting_unchanged [simp]:
  "st_starting (fst (closeTarget k c st)) = st_starting st"
  "st_starting (fst (CloseAll st)) = st_starting st"
  "st_starting (fst (CloseIdleTargets now d st)) = st_starting st"
  "st_starting (fst (removeWhenDone k i st)) = st_starting st"
  "st_starting (fst (BeginExistingUse k now st)) = st_starting st"
  "st_starting (finishUse i now st) = st_starting st"
  "st_starting (TouchTarget k now st) = st_starting st"
  by (simp_all add: closeTarget_def CloseAll_def CloseIdleTargets_def removeWhenDone_def BeginExistingUse_def
      finishUse_def TouchTarget_def Let_def remove_list_frame starting_cancel_list split: option.splits)

lemma starting_end_start: "st_starting (end_start k j st) = AList.delete k (st_starting st)"
  by (simp add: end_start_def)

lemma starting_finish:
  assumes "finish_start k a j r e now st = (st', x)" "st_starting st = [(k, j)]"
  shows "creation_starting (after_finish_creation k j x) = Some (st_starting st')"
  using assms
  by (auto simp: finish_start_def Let_def starting_end_start installTabLocked_def split: if_splits option.splits)

lemma starting_lookup:
  assumes "get_or_start k a now st = (st', r)" "st_starting st = []"
  shows "creation_starting (after_lookup_creation k r) = Some (st_starting st')"
  using assms by (auto simp: get_or_start_def Let_def split: option.splits)

inductive_cases lifecycle_step_cases: "lifecycle_step l l'"

lemma lifecycle_step_inv: "lifecycle_step l l' \<Longrightarrow> lifecycle_inv l \<Longrightarrow> lifecycle_inv l'"
proof (induction rule: lifecycle_step.induct)
  case (create l k now st r)
  then have "st_starting (lc_store l) = []" "store_inv (lc_store l)" by (simp_all add: lifecycle_inv_def)
  then show ?case
    using create starting_lookup [OF create.hyps(3)] get_or_start_inv [of "lc_store l" k True now]
    by (simp add: lifecycle_inv_def with_store_def)
next
  case (started l k j r e now st x)
  then have s: "st_starting (lc_store l) = [(k, j)]" "store_inv (lc_store l)" "\<not> sv_stopping (lc_service l)"
    by (auto simp: lifecycle_inv_def)
  then show ?case
    using started.hyps(2) starting_finish [OF started.hyps(2)] finish_start_inv [of "lc_store l" k j True r e now]
    by (simp add: lifecycle_inv_def with_store_def)
next
  case (closed l k j e)
  then have s: "st_starting (lc_store l) = [(k, j)]" "store_inv (lc_store l)" by (auto simp: lifecycle_inv_def)
  then show ?case
    using finish_canceled_inv [of "lc_store l" k j e]
    by (simp add: lifecycle_inv_def with_store_def finish_canceled_def starting_end_start)
qed (auto simp: lifecycle_inv_def with_store_def beginOperation_def endOperation_def StopAdmission_def
      store_preserves split: if_splits)

lemma lifecycle_reachable_inv: "lifecycle_reachable l \<Longrightarrow> lifecycle_inv l"
  unfolding lifecycle_reachable_def
  by (induction rule: rtranclp_induct) (simp_all add: lifecycle_inv_new lifecycle_step_inv)

subsection \<open>Shutdown\<close>

definition shut :: "lifecycle \<Rightarrow> bool" where
  "shut l \<longleftrightarrow> sv_stopping (lc_service l) \<and> lc_creation l = None \<and> st_sessions (lc_store l) = []"

lemma no_sessions_find: "st_sessions st = [] \<Longrightarrow> findTabLocked st k = None"
  by (simp add: findTabLocked_def find_in_def)

lemma no_sessions_kept:
  assumes "st_sessions st = []"
  shows "st_sessions (fst (closeTarget k c st)) = []" "st_sessions (fst (CloseAll st)) = []"
    "st_sessions (fst (CloseIdleTargets now d st)) = []" "st_sessions (fst (removeWhenDone k i st)) = []"
    "st_sessions (fst (BeginExistingUse k now st)) = []" "st_sessions (finishUse i now st) = []"
    "st_sessions (TouchTarget k now st) = []"
  using assms
  by (simp_all add: closeTarget_def CloseAll_def CloseIdleTargets_def removeWhenDone_def BeginExistingUse_def
      finishUse_def TouchTarget_def Let_def sessions_cancel_list no_sessions_find all_tabs_def)

lemma shut_step:
  "lifecycle_step l l' \<Longrightarrow> shut l \<Longrightarrow>
     shut l' \<and> sv_operations (lc_service l') \<le> sv_operations (lc_service l)"
proof (induction rule: lifecycle_step.induct)
  case (use i l st k now)
  then show ?case by (auto simp: shut_def no_sessions_kept)
qed (auto simp: shut_def no_sessions_kept beginOperation_def endOperation_def StopAdmission_def)

lemma shut_steps:
  "lifecycle_step\<^sup>*\<^sup>* l l' \<Longrightarrow> shut l \<Longrightarrow> shut l' \<and> sv_operations (lc_service l') \<le> sv_operations (lc_service l)"
  by (induction rule: rtranclp_induct) (auto dest: shut_step intro: order_trans)

text \<open>C19: Shutting down leaves nothing behind: when \<open>CloseAll\<close> runs after \<open>StopAdmission\<close> it has no start to
wait for, and whatever operations that were already admitted do afterwards, no target is ever installed
or starting again and no operation is admitted, so that waiting for the operations ends for good.\<close>

lemma shutdown_leaves_nothing:
  assumes "lifecycle_reachable l" "sv_stopping (lc_service l)"
    and "lifecycle_step\<^sup>*\<^sup>* (with_store (fst (CloseAll (lc_store l))) l) l'"
  shows "snd (snd (CloseAll (lc_store l))) = [] \<and> sv_stopping (lc_service l') \<and>
    findTabLocked (lc_store l') = Map.empty \<and> installed (lc_store l') = {#} \<and> st_starting (lc_store l') = [] \<and>
    sv_operations (lc_service l') \<le> sv_operations (lc_service l)"
proof -
  have inv: "lifecycle_inv l" by (rule lifecycle_reachable_inv [OF assms(1)])
  then have none: "lc_creation l = None" "st_starting (lc_store l) = []" using assms(2) by (auto simp: lifecycle_inv_def)
  let ?l = "with_store (fst (CloseAll (lc_store l))) l"
  have "st_sessions (fst (CloseAll st)) = []" for st by (simp add: CloseAll_def Let_def sessions_cancel_list)
  then have "shut ?l" using assms(2) none(1) by (simp add: shut_def)
  then have shut: "shut l'" "sv_operations (lc_service l') \<le> sv_operations (lc_service l)"
    using shut_steps [OF assms(3)] by simp_all
  have "lifecycle_inv l'"
    using assms(3) lifecycle_step_inv lifecycle_step_inv [OF close_all inv] by (induction rule: rtranclp_induct) auto
  then have "st_starting (lc_store l') = []" using shut(1) by (simp add: lifecycle_inv_def shut_def)
  then show ?thesis
    using shut none(2) by (auto simp: shut_def no_sessions_find fun_eq_iff installed_def all_tabs_def CloseAll_def Let_def)
qed

lemma shutdown_leaves_nothing_witness:
  "\<exists>l. lifecycle_reachable l \<and> sv_stopping (lc_service l) \<and> sv_operations (lc_service l) = 1 \<and>
     findTabLocked (lc_store l) \<noteq> Map.empty \<and>
     findTabLocked (fst (CloseAll (lc_store l))) = Map.empty"
proof -
  let ?k = "Target_key ''s'' ''p'' ''t''"
  let ?l1 = "new_lifecycle\<lparr>lc_service := newServiceWithRunnerFactory\<lparr>sv_operations := 1\<rparr>\<rparr>"
  have r1: "lifecycle_reachable ?l1"
    unfolding lifecycle_reachable_def
    by (rule r_into_rtranclp, rule begin_operation)
      (simp_all add: new_lifecycle_def beginOperation_def newServiceWithRunnerFactory_def)
  obtain st2 where st2: "get_or_start ?k True 0 NewStore = (st2, Start 0)"
    by (simp add: get_or_start_def findTabLocked_def find_in_def NewStore_def Let_def)
  obtain st3 where st3: "finish_start ?k True 0 (Runner 0) None 0 st2 = (st3, Installed 0)"
    using st2 by (auto simp: get_or_start_def findTabLocked_def find_in_def NewStore_def Let_def finish_start_def)
  have store1: "lc_store ?l1 = NewStore" by (simp add: newServiceWithRunnerFactory_def)
  let ?l2 = "(with_store st2 ?l1)\<lparr>lc_creation := Some (Starts ?k 0)\<rparr>"
  have s2: "lifecycle_step ?l1 ?l2"
    using create [of ?l1 ?k 0 st2 "Start 0"] st2 store1 by (simp add: new_lifecycle_def newServiceWithRunnerFactory_def)
  let ?l3 = "(with_store st3 ?l2)\<lparr>lc_creation := None\<rparr>"
  have s3: "lifecycle_step ?l2 ?l3"
    using started [of ?l2 ?k 0 "Runner 0" None 0 st3 "Installed 0"] st3 by (simp add: with_store_def)
  let ?l4 = "?l3\<lparr>lc_service := StopAdmission (lc_service ?l3)\<rparr>"
  have s4: "lifecycle_step ?l3 ?l4" by (rule stop) simp
  have r4: "lifecycle_reachable ?l4"
    using r1 s2 s3 s4 unfolding lifecycle_reachable_def by (meson rtranclp.rtrancl_into_rtrancl)
  have st4: "lc_store ?l4 = st3" by (simp add: with_store_def StopAdmission_def)
  have f: "findTabLocked st3 ?k = Some 0"
    using flat_finish_start [OF st3] by simp
  have stop4: "sv_stopping (lc_service ?l4)" "sv_operations (lc_service ?l4) = 1"
    by (simp_all add: with_store_def StopAdmission_def)
  have "findTabLocked (fst (CloseAll (lc_store ?l4))) = Map.empty"
    using shutdown_leaves_nothing [OF r4 stop4(1) rtranclp.rtrancl_refl] by simp
  then show ?thesis using r4 stop4 f st4 by (metis option.distinct(1))
qed

end
