(* ===== verification/Local_Daemon.thy ===== *)
theory Local_Daemon
  imports Target_Service Stream_Session
begin

section \<open>The local daemon (internal/server/daemon.go)\<close>

text \<open>
  The daemon accepts connections on a socket, runs one handler for each and stops on request: of a client
  that sends \<open>stop\<close>, of the idle sweep, or because accepting failed. The state here is what
  \<open>Daemon.lifecycleMu\<close> protects, with the channels as flags: the stop acknowledgement is \<open>None\<close> while
  the channel is nil and \<open>Some b\<close> afterwards, where \<open>b\<close> says whether it is closed.
\<close>

record daemon_options =
  do_auto_release :: bool
  do_target_idle :: int
  do_daemon_idle :: int
  do_sweep :: int
  do_max_connections :: int
  do_request_timeout :: int
  do_write_timeout :: int

definition defaultMaxLocalConnections :: int where [bound_simps]: "defaultMaxLocalConnections = 128"
definition defaultLocalRequestTimeout :: int where "defaultLocalRequestTimeout = 5 * 1000000000"
definition defaultLocalWriteTimeout :: int where "defaultLocalWriteTimeout = 5 * 1000000000"

type_synonym conn_id = nat

record daemon =
  dm_options :: daemon_options
  dm_connections :: "(conn_id \<times> bool) list"
  dm_listening :: bool
  dm_stopping :: bool
  dm_stop_ack :: "bool option"
  dm_stopped :: bool
  dm_last_activity :: time

definition NewDaemonWithOptions :: "daemon_options \<Rightarrow> time \<Rightarrow> daemon" where
  "NewDaemonWithOptions options now =
     (let o1 = (if do_max_connections options \<le> 0
                then options\<lparr>do_max_connections := defaultMaxLocalConnections\<rparr> else options);
          o2 = (if do_request_timeout o1 \<le> 0 then o1\<lparr>do_request_timeout := defaultLocalRequestTimeout\<rparr> else o1);
          o3 = (if do_write_timeout o2 \<le> 0 then o2\<lparr>do_write_timeout := defaultLocalWriteTimeout\<rparr> else o2)
      in \<lparr>dm_options = o3, dm_connections = [], dm_listening = False, dm_stopping = False,
          dm_stop_ack = None, dm_stopped = False, dm_last_activity = now\<rparr>)"

subsection \<open>Connections\<close>

definition registerConnection :: "conn_id \<Rightarrow> daemon \<Rightarrow> daemon \<times> bool" where
  "registerConnection c d =
     (if dm_stopping d \<or> do_max_connections (dm_options d) \<le> int (length (dm_connections d)) then (d, False)
      else (d\<lparr>dm_connections := AList.update c False (dm_connections d)\<rparr>, True))"

definition markConnectionActive :: "conn_id \<Rightarrow> daemon \<Rightarrow> daemon" where
  "markConnectionActive c d =
     (if map_of (dm_connections d) c \<noteq> None
      then d\<lparr>dm_connections := AList.update c True (dm_connections d)\<rparr> else d)"

definition removeConnection :: "conn_id \<Rightarrow> daemon \<Rightarrow> daemon" where
  "removeConnection c d = d\<lparr>dm_connections := AList.delete c (dm_connections d)\<rparr>"

text \<open>The connections that \<open>closeReadingConnections\<close> and \<open>closeAcceptedConnections\<close> close.\<close>

definition closeReadingConnections :: "daemon \<Rightarrow> conn_id list" where
  "closeReadingConnections d = map fst (filter (\<lambda>(c, active). \<not> active) (dm_connections d))"

definition closeAcceptedConnections :: "daemon \<Rightarrow> conn_id list" where
  "closeAcceptedConnections d = map fst (dm_connections d)"

subsection \<open>Stopping\<close>

text \<open>\<open>requestStop\<close> returns whether it has an acknowledgement channel to close.\<close>

definition requestStop :: "bool \<Rightarrow> daemon \<Rightarrow> daemon \<times> bool" where
  "requestStop withAck d =
     (let d1 = (if dm_stopping d then d
                else d\<lparr>dm_stopping := True, dm_stop_ack := (if withAck then Some False else dm_stop_ack d)\<rparr>)
      in (d1\<lparr>dm_stopped := True, dm_listening := False\<rparr>, dm_stop_ack d1 \<noteq> None))"

definition closeStopAck :: "daemon \<Rightarrow> daemon" where
  "closeStopAck d = d\<lparr>dm_stop_ack := Some True\<rparr>"

definition waitForStopAck :: "daemon \<Rightarrow> bool" where
  "waitForStopAck d \<longleftrightarrow> dm_stop_ack d \<noteq> Some False"

definition Stopped :: "daemon \<Rightarrow> bool" where
  "Stopped d = dm_stopped d"

definition markActivity :: "time \<Rightarrow> daemon \<Rightarrow> daemon" where
  "markActivity now d = d\<lparr>dm_last_activity := now\<rparr>"

text \<open>The idle sweep closes idle targets, and stops the daemon when no target is left and nothing has
happened for long enough. It gives the runners to close.\<close>

definition cleanupIdle :: "time \<Rightarrow> daemon \<Rightarrow> service \<Rightarrow> daemon \<times> service \<times> runner_value list" where
  "cleanupIdle now d s =
     (let options = dm_options d in
      if \<not> do_auto_release options then (d, s, [])
      else (case CloseIdleTargets now (do_target_idle options) (sv_store s) of
        (st, closing) \<Rightarrow>
          if do_daemon_idle options \<le> 0 \<or> \<not> Empty st then (d, set_store s st, closing)
          else if do_daemon_idle options \<le> time_sub now (dm_last_activity d)
          then (fst (requestStop False d), StopAdmission (set_store s st), closing)
          else (d, set_store s st, closing)))"

subsection \<open>What a handler does with a request\<close>

definition LocalStreamEnvelopeAction :: string where
  "LocalStreamEnvelopeAction = ''stream''"

datatype handling =
    Handle_stop
  | Handle_framed
  | Handle_invalid_stream service_error
  | Handle_stream
  | Handle_request

definition classify_request :: "request \<Rightarrow> handling" where
  "classify_request req =
     (if req_action req = ''stop'' then Handle_stop
      else if req_action req = LocalStreamEnvelopeAction then Handle_framed
      else if IsStreamRequest req then
        (case ValidateStreamRequest req of Some e \<Rightarrow> Handle_invalid_stream e | None \<Rightarrow> Handle_stream)
      else Handle_request)"

text \<open>\<open>handleStream\<close>: an error of the stream is written as a line of text.\<close>

definition handleStream ::
  "('s, 'e) writer \<Rightarrow> ('s \<Rightarrow> 's \<times> string option) \<Rightarrow> 's \<Rightarrow> 's" where
  "handleStream write stream s =
     (case stream s of
        (s, None) \<Rightarrow> s
      | (s, Some message) \<Rightarrow> fst (write s (message @ [chr_lf])))"

definition Daemon_HandleWithDone ::
  "'w runner_ops \<Rightarrow> request \<Rightarrow> call_env \<Rightarrow> daemon \<Rightarrow> service \<Rightarrow> (daemon \<times> service \<times> response) option" where
  "Daemon_HandleWithDone ops req env d s =
     (let d1 = markActivity (ce_found env) d in
      if req_action req \<noteq> ''stop'' then
        map_option (\<lambda>(s, r). (d1, s, r)) (HandleWithDone ops req True env s)
      else (case CloseAll_call ops (sv_store s) of
        None \<Rightarrow> None
      | Some (st, err) \<Rightarrow> Some (fst (requestStop False d1), StopAdmission (set_store s st), err_response err)))"

subsection \<open>The daemon at work\<close>

text \<open>
  The accept loop of \<open>Serve\<close> with its shutdown, and the handlers. Connections are numbered as they are
  accepted. Three sets record what happened: \<open>sd_cut\<close> are the connections that the shutdown has closed,
  \<open>sd_stops\<close> those whose \<open>stop\<close> request got the acknowledgement channel, and \<open>sd_answered\<close> those whose
  \<open>stop\<close> request was answered while they were still open.
\<close>

datatype handler_pc =
    Reading
  | Requested
  | Answering bool
  | Acknowledging bool
  | Handled

datatype serve_pc = Accepting | Draining | Awaiting_ack | Cutting | Waiting_handlers | Served

record serving =
  sd_daemon :: daemon
  sd_serve :: serve_pc
  sd_handlers :: "handler_pc list"
  sd_cut :: "conn_id set"
  sd_stops :: "conn_id set"
  sd_answered :: "conn_id set"

definition handler_at :: "serving \<Rightarrow> conn_id \<Rightarrow> handler_pc \<Rightarrow> bool" where
  "handler_at w c pc \<longleftrightarrow> c < length (sd_handlers w) \<and> sd_handlers w ! c = pc"

definition move :: "conn_id \<Rightarrow> handler_pc \<Rightarrow> daemon \<Rightarrow> serving \<Rightarrow> serving" where
  "move c pc d w = w\<lparr>sd_daemon := d, sd_handlers := (sd_handlers w)[c := pc]\<rparr>"

inductive serving_step :: "serving \<Rightarrow> serving \<Rightarrow> bool" where
  accept: "sd_serve w = Accepting \<Longrightarrow> dm_listening (sd_daemon w) \<Longrightarrow>
    registerConnection (length (sd_handlers w)) (sd_daemon w) = (d, True) \<Longrightarrow>
    serving_step w (w\<lparr>sd_daemon := d, sd_handlers := sd_handlers w @ [Reading]\<rparr>)"
| stopped: "sd_serve w = Accepting \<Longrightarrow> Stopped (sd_daemon w) \<Longrightarrow> serving_step w (w\<lparr>sd_serve := Draining\<rparr>)"
| accept_fails: "sd_serve w = Accepting \<Longrightarrow>
    serving_step w (w\<lparr>sd_daemon := fst (requestStop False (sd_daemon w)), sd_serve := Draining\<rparr>)"
| idle: "serving_step w (w\<lparr>sd_daemon := fst (requestStop False (sd_daemon w))\<rparr>)"
| activity: "serving_step w (w\<lparr>sd_daemon := markActivity now (sd_daemon w)\<rparr>)"
| read: "handler_at w c Reading \<Longrightarrow>
    serving_step w (move c Requested (markConnectionActive c (sd_daemon w)) w)"
| read_fails: "handler_at w c Reading \<Longrightarrow>
    serving_step w (move c Handled (removeConnection c (sd_daemon w)) w)"
| handle: "handler_at w c Requested \<Longrightarrow>
    serving_step w (move c Handled (removeConnection c (sd_daemon w)) w)"
| stop: "handler_at w c Requested \<Longrightarrow> requestStop True (sd_daemon w) = (d, ack) \<Longrightarrow>
    serving_step w ((move c (Answering ack) d w)
      \<lparr>sd_stops := (if ack then insert c (sd_stops w) else sd_stops w)\<rparr>)"
| answer: "handler_at w c (Answering ack) \<Longrightarrow>
    serving_step w ((move c (Acknowledging ack) (sd_daemon w) w)
      \<lparr>sd_answered := (if c \<in> sd_cut w then sd_answered w else insert c (sd_answered w))\<rparr>)"
| acknowledge: "handler_at w c (Acknowledging ack) \<Longrightarrow>
    d = (if ack then closeStopAck (sd_daemon w) else sd_daemon w) \<Longrightarrow>
    serving_step w (move c Handled (removeConnection c d) w)"
| drain: "sd_serve w = Draining \<Longrightarrow>
    serving_step w (w\<lparr>sd_serve := Awaiting_ack, sd_cut := sd_cut w \<union> set (closeReadingConnections (sd_daemon w))\<rparr>)"
| acknowledged: "sd_serve w = Awaiting_ack \<Longrightarrow> waitForStopAck (sd_daemon w) \<Longrightarrow>
    serving_step w (w\<lparr>sd_serve := Cutting\<rparr>)"
| cut: "sd_serve w = Cutting \<Longrightarrow>
    serving_step w (w\<lparr>sd_serve := Waiting_handlers, sd_cut := sd_cut w \<union> set (closeAcceptedConnections (sd_daemon w))\<rparr>)"
| serve_ends: "sd_serve w = Waiting_handlers \<Longrightarrow> list_all (\<lambda>pc. pc = Handled) (sd_handlers w) \<Longrightarrow>
    serving_step w (w\<lparr>sd_serve := Served\<rparr>)"

definition new_serving :: "daemon \<Rightarrow> serving" where
  "new_serving d = \<lparr>sd_daemon = d\<lparr>dm_listening := True\<rparr>, sd_serve = Accepting, sd_handlers = [], sd_cut = {},
     sd_stops = {}, sd_answered = {}\<rparr>"

definition serving_reachable :: "daemon_options \<Rightarrow> time \<Rightarrow> serving \<Rightarrow> bool" where
  "serving_reachable options now w \<longleftrightarrow> serving_step\<^sup>*\<^sup>* (new_serving (NewDaemonWithOptions options now)) w"

subsection \<open>The invariant\<close>

text \<open>
  The connections of the map are those of the handlers that have not finished, marked active once their
  request is read.
\<close>

fun pc_active :: "handler_pc \<Rightarrow> bool" where
  "pc_active Reading = False" | "pc_active _ = True"

fun pc_acks :: "handler_pc \<Rightarrow> bool" where
  "pc_acks (Answering ack) = ack" | "pc_acks (Acknowledging ack) = ack" | "pc_acks _ = False"

definition connections_ok :: "(conn_id \<times> bool) list \<Rightarrow> handler_pc list \<Rightarrow> bool" where
  "connections_ok conns hs \<longleftrightarrow> distinct (map fst conns) \<and>
     (\<forall>c. map_of conns c = (if c < length hs \<and> hs ! c \<noteq> Handled then Some (pc_active (hs ! c)) else None))"

text \<open>
  An open acknowledgement belongs to handlers that will close it, and the shutdown does not pass it while
  it is open; while there is one \<open>stop\<close> client, its connection is not cut before it was answered.
\<close>

definition ack_flags :: "daemon \<Rightarrow> serve_pc \<Rightarrow> conn_id set \<Rightarrow> conn_id set \<Rightarrow> bool" where
  "ack_flags d serve gone stops \<longleftrightarrow>
     (dm_stopped d \<longleftrightarrow> dm_stopping d) \<and> (serve \<noteq> Accepting \<longrightarrow> dm_stopping d) \<and>
     (gone \<noteq> {} \<longrightarrow> serve \<noteq> Accepting) \<and>
     (dm_stop_ack d = None \<longleftrightarrow> stops = {}) \<and> (dm_stop_ack d \<noteq> None \<longrightarrow> dm_stopping d) \<and>
     (dm_stop_ack d = Some False \<longrightarrow> serve \<in> {Accepting, Draining, Awaiting_ack})"

definition ack_holders :: "bool option \<Rightarrow> handler_pc list \<Rightarrow> conn_id set \<Rightarrow> bool" where
  "ack_holders ack hs stops \<longleftrightarrow>
     (\<forall>c<length hs. pc_acks (hs ! c) \<longrightarrow> c \<in> stops) \<and>
     (ack = Some False \<longrightarrow> (\<forall>c\<in>stops. c < length hs \<and> pc_acks (hs ! c)))"

fun stop_stage :: "bool option \<Rightarrow> bool \<Rightarrow> bool \<Rightarrow> handler_pc \<Rightarrow> bool" where
  "stop_stage ack gone answered (Answering a) \<longleftrightarrow> a \<and> ack = Some False \<and> \<not> gone"
| "stop_stage ack gone answered (Acknowledging a) \<longleftrightarrow> a \<and> ack = Some False \<and> answered"
| "stop_stage ack gone answered Handled \<longleftrightarrow> answered"
| "stop_stage ack gone answered _ \<longleftrightarrow> False"

definition only_stop :: "bool option \<Rightarrow> handler_pc list \<Rightarrow> conn_id set \<Rightarrow> conn_id set \<Rightarrow> conn_id set \<Rightarrow> bool" where
  "only_stop ack hs gone stops answered \<longleftrightarrow>
     (\<forall>c. stops = {c} \<longrightarrow> c < length hs \<and> stop_stage ack (c \<in> gone) (c \<in> answered) (hs ! c))"

definition ack_ok :: "daemon \<Rightarrow> serving \<Rightarrow> bool" where
  "ack_ok d w \<longleftrightarrow> ack_flags d (sd_serve w) (sd_cut w) (sd_stops w) \<and>
     ack_holders (dm_stop_ack d) (sd_handlers w) (sd_stops w) \<and>
     only_stop (dm_stop_ack d) (sd_handlers w) (sd_cut w) (sd_stops w) (sd_answered w)"

definition serving_inv :: "serving \<Rightarrow> bool" where
  "serving_inv w \<longleftrightarrow>
     0 < do_max_connections (dm_options (sd_daemon w)) \<and>
     int (length (dm_connections (sd_daemon w))) \<le> do_max_connections (dm_options (sd_daemon w)) \<and>
     connections_ok (dm_connections (sd_daemon w)) (sd_handlers w) \<and> ack_ok (sd_daemon w) w"

lemma max_connections_pos: "0 < do_max_connections (dm_options (NewDaemonWithOptions options now))"
  by (simp add: NewDaemonWithOptions_def Let_def defaultMaxLocalConnections_def)

lemma serving_inv_new: "serving_inv (new_serving (NewDaemonWithOptions options now))"
  using max_connections_pos [of options now]
  by (simp add: serving_inv_def new_serving_def ack_ok_def ack_flags_def ack_holders_def only_stop_def connections_ok_def)
    (simp add: NewDaemonWithOptions_def Let_def)

text \<open>What the operations do to the fields.\<close>

lemma requestStop_fields:
  "dm_connections (fst (requestStop a d)) = dm_connections d" "dm_options (fst (requestStop a d)) = dm_options d"
  "dm_stopping (fst (requestStop a d))" "dm_stopped (fst (requestStop a d))"
  "dm_stop_ack (fst (requestStop a d)) = (if a \<and> \<not> dm_stopping d then Some False else dm_stop_ack d)"
  "snd (requestStop a d) \<longleftrightarrow> dm_stop_ack (fst (requestStop a d)) \<noteq> None"
  by (simp_all add: requestStop_def Let_def)

lemma length_delete: "length (AList.delete c xs) \<le> length xs"
  by (simp add: AList.delete_eq)

lemma length_update_present: "map_of xs c \<noteq> None \<Longrightarrow> length (AList.update c v xs) = length xs"
  by (induction xs) auto

lemma connections_ok_set:
  assumes "connections_ok conns hs" "c < length hs" "hs ! c \<noteq> Handled" "pc \<noteq> Handled"
  shows "connections_ok (AList.update c (pc_active pc) conns) (hs[c := pc])"
    "pc_active pc = pc_active (hs ! c) \<Longrightarrow> connections_ok conns (hs[c := pc])"
  using assms by (auto simp: connections_ok_def update_conv' distinct_update nth_list_update)

lemma connections_ok_remove:
  "connections_ok conns hs \<Longrightarrow> c < length hs \<Longrightarrow> connections_ok (AList.delete c conns) (hs[c := Handled])"
  by (auto simp: connections_ok_def delete_conv' distinct_delete nth_list_update)

lemma connections_ok_accept:
  "connections_ok conns hs \<Longrightarrow> connections_ok (AList.update (length hs) False conns) (hs @ [Reading])"
  by (auto simp: connections_ok_def update_conv' distinct_update nth_append less_Suc_eq)

lemma reading_connections:
  assumes "connections_ok (dm_connections d) hs"
  shows "c \<in> set (closeReadingConnections d) \<longleftrightarrow> c < length hs \<and> hs ! c = Reading"
proof -
  have "c \<in> set (closeReadingConnections d) \<longleftrightarrow> (c, False) \<in> set (dm_connections d)"
    by (force simp: closeReadingConnections_def)
  also have "\<dots> \<longleftrightarrow> map_of (dm_connections d) c = Some False"
    using assms map_of_eq_Some_iff [of "dm_connections d" c False] unfolding connections_ok_def by blast
  also have "\<dots> \<longleftrightarrow> c < length hs \<and> hs ! c = Reading"
    using assms by (cases "hs ! c") (auto simp: connections_ok_def)
  finally show ?thesis .
qed

lemma move_simps [simp]:
  "sd_daemon (move c pc d w) = d" "sd_serve (move c pc d w) = sd_serve w"
  "sd_handlers (move c pc d w) = (sd_handlers w)[c := pc]" "sd_cut (move c pc d w) = sd_cut w"
  "sd_stops (move c pc d w) = sd_stops w" "sd_answered (move c pc d w) = sd_answered w"
  by (simp_all add: move_def)

lemma connection_fields [simp]:
  "dm_options (markConnectionActive c d) = dm_options d" "dm_options (removeConnection c d) = dm_options d"
  "dm_stopping (markConnectionActive c d) = dm_stopping d" "dm_stopping (removeConnection c d) = dm_stopping d"
  "dm_stopped (markConnectionActive c d) = dm_stopped d" "dm_stopped (removeConnection c d) = dm_stopped d"
  "dm_stop_ack (markConnectionActive c d) = dm_stop_ack d" "dm_stop_ack (removeConnection c d) = dm_stop_ack d"
  by (simp_all add: markConnectionActive_def removeConnection_def)

lemma holders_plain:
  "ack_holders ack hs stops \<Longrightarrow> c < length hs \<Longrightarrow> \<not> pc_acks (hs ! c) \<Longrightarrow> \<not> pc_acks pc \<Longrightarrow>
     ack_holders ack (hs[c := pc]) stops"
  by (auto simp: ack_holders_def nth_list_update)

lemma only_stop_other:
  "only_stop ack hs gone stops answered \<Longrightarrow> c < length hs \<Longrightarrow> stops \<noteq> {c} \<Longrightarrow>
     only_stop ack (hs[c := pc]) gone stops answered"
  by (simp add: only_stop_def nth_list_update)

lemma only_stop_not_reading:
  "only_stop ack hs gone {c} answered \<Longrightarrow> hs ! c \<noteq> Reading \<and> hs ! c \<noteq> Requested"
  by (cases "hs ! c") (auto simp: only_stop_def)

text \<open>A handler that moves between states without an acknowledgement.\<close>

lemma ack_ok_plain:
  assumes "ack_ok (sd_daemon w) w" "handler_at w c pc" "pc = Reading \<or> pc = Requested" "pc' = Requested \<or> pc' = Handled"
    and "dm_stopping d = dm_stopping (sd_daemon w)" "dm_stopped d = dm_stopped (sd_daemon w)"
      "dm_stop_ack d = dm_stop_ack (sd_daemon w)"
  shows "ack_ok d (move c pc' d w)"
proof -
  have c: "c < length (sd_handlers w)" "\<not> pc_acks (sd_handlers w ! c)" "\<not> pc_acks pc'"
    using assms(2-4) by (auto simp: handler_at_def)
  have "sd_stops w \<noteq> {c}"
    using assms(1-3) only_stop_not_reading by (auto simp: ack_ok_def handler_at_def)
  then show ?thesis
    using assms(1,5-) holders_plain [OF _ c] only_stop_other [OF _ c(1)]
    by (simp add: ack_ok_def ack_flags_def) blast
qed

lemma serving_inv_remove:
  assumes "serving_inv w" "handler_at w c pc" "ack_ok (removeConnection c d) (move c Handled (removeConnection c d) w)"
    and "dm_connections d = dm_connections (sd_daemon w)" "dm_options d = dm_options (sd_daemon w)"
  shows "serving_inv (move c Handled (removeConnection c d) w)"
  using assms length_delete [of c "dm_connections (sd_daemon w)"] connections_ok_remove [of _ "sd_handlers w" c]
  by (simp add: serving_inv_def handler_at_def removeConnection_def)

lemma ack_ok_requestStop_False:
  assumes "ack_ok (sd_daemon w) w"
  shows "ack_ok (fst (requestStop False (sd_daemon w))) w"
    and "sd_serve w = Accepting \<Longrightarrow> ack_ok (fst (requestStop False (sd_daemon w))) (w\<lparr>sd_serve := Draining\<rparr>)"
  using assms by (auto simp: ack_ok_def ack_flags_def requestStop_fields)

lemma ack_ok_serve:
  assumes "ack_ok d w" "ack_flags d serve gone (sd_stops w)"
    and "\<And>c. sd_stops w = {c} \<Longrightarrow> c \<in> gone \<Longrightarrow> c \<in> sd_cut w \<or> \<not> (\<exists>a. sd_handlers w ! c = Answering a)"
  shows "ack_ok d (w\<lparr>sd_serve := serve, sd_cut := gone\<rparr>)"
proof -
  have "stop_stage ack (c \<in> gone) b (sd_handlers w ! c)"
    if "stop_stage ack (c \<in> sd_cut w) b (sd_handlers w ! c)" "sd_stops w = {c}" for ack b c
    using that assms(3) [OF that(2)] by (cases "sd_handlers w ! c") auto
  then show ?thesis using assms(1,2) by (auto simp: ack_ok_def only_stop_def)
qed

lemma ack_ok_stop:
  assumes "ack_ok (sd_daemon w) w" "handler_at w c Requested" "requestStop True (sd_daemon w) = (d, ack)"
  shows "ack_ok d ((move c (Answering ack) d w)\<lparr>sd_stops := (if ack then insert c (sd_stops w) else sd_stops w)\<rparr>)"
proof -
  have d: "dm_stopping d" "dm_stopped d" "ack \<longleftrightarrow> dm_stop_ack d \<noteq> None"
    "dm_stop_ack d = (if \<not> dm_stopping (sd_daemon w) then Some False else dm_stop_ack (sd_daemon w))"
    using requestStop_fields(3-6) [of True "sd_daemon w"] assms(3) by auto
  have c: "c < length (sd_handlers w)" "sd_handlers w ! c = Requested" using assms(2) by (simp_all add: handler_at_def)
  have f: "ack_flags (sd_daemon w) (sd_serve w) (sd_cut w) (sd_stops w)"
    and h: "ack_holders (dm_stop_ack (sd_daemon w)) (sd_handlers w) (sd_stops w)"
    and o: "only_stop (dm_stop_ack (sd_daemon w)) (sd_handlers w) (sd_cut w) (sd_stops w) (sd_answered w)"
    using assms(1) by (simp_all add: ack_ok_def)
  have one: "sd_stops w \<noteq> {c}" using o only_stop_not_reading c(2) by metis
  show ?thesis
  proof (cases "dm_stopping (sd_daemon w)")
    case stopping: True
    show ?thesis
    proof (cases ack)
      case True
      then have "sd_stops w \<noteq> {}" using f d stopping by (auto simp: ack_flags_def)
      then have "insert c (sd_stops w) \<noteq> {c'}" for c' using one by auto
      then have "only_stop (dm_stop_ack d) hs gone (insert c (sd_stops w)) ans" for hs gone ans
        by (simp add: only_stop_def)
      moreover have "ack_holders (dm_stop_ack d) ((sd_handlers w)[c := Answering ack]) (insert c (sd_stops w))"
        using h d stopping True by (auto simp: ack_holders_def nth_list_update c(1))
      moreover have "ack_flags d (sd_serve w) (sd_cut w) (insert c (sd_stops w))"
        using f d stopping True \<open>sd_stops w \<noteq> {}\<close> by (auto simp: ack_flags_def)
      ultimately show ?thesis using True by (simp add: ack_ok_def)
    next
      case False
      have "ack_holders (dm_stop_ack d) ((sd_handlers w)[c := Answering ack]) (sd_stops w)"
        using holders_plain [OF h c(1)] c(2) False d stopping by simp
      moreover have "ack_flags d (sd_serve w) (sd_cut w) (sd_stops w)"
        using f d stopping by (auto simp: ack_flags_def)
      moreover have "only_stop (dm_stop_ack d) ((sd_handlers w)[c := Answering ack]) (sd_cut w) (sd_stops w) (sd_answered w)"
        using only_stop_other [OF o c(1) one] d stopping by simp
      ultimately show ?thesis using False by (simp add: ack_ok_def)
    qed
  next
    case False
    then have "sd_stops w = {}" "sd_cut w = {}" "sd_serve w = Accepting" using f by (auto simp: ack_flags_def)
    moreover have "ack" "dm_stop_ack d = Some False" using d False by auto
    moreover have "ack_holders (Some False) ((sd_handlers w)[c := Answering True]) {c}"
      using h \<open>sd_stops w = {}\<close> by (auto simp: ack_holders_def nth_list_update c(1))
    ultimately show ?thesis
      using d by (simp add: ack_ok_def ack_flags_def only_stop_def c(1))
  qed
qed

lemma ack_ok_answer:
  assumes "ack_ok (sd_daemon w) w" "handler_at w c (Answering ack)"
  shows "ack_ok (sd_daemon w) ((move c (Acknowledging ack) (sd_daemon w) w)
      \<lparr>sd_answered := (if c \<in> sd_cut w then sd_answered w else insert c (sd_answered w))\<rparr>)"
proof -
  have c: "c < length (sd_handlers w)" "sd_handlers w ! c = Answering ack" using assms(2) by (simp_all add: handler_at_def)
  let ?hs = "(sd_handlers w)[c := Acknowledging ack]"
  let ?ans = "if c \<in> sd_cut w then sd_answered w else insert c (sd_answered w)"
  have h: "ack_holders (dm_stop_ack (sd_daemon w)) (sd_handlers w) (sd_stops w)"
    and o: "only_stop (dm_stop_ack (sd_daemon w)) (sd_handlers w) (sd_cut w) (sd_stops w) (sd_answered w)"
    using assms(1) by (simp_all add: ack_ok_def)
  have "ack_holders (dm_stop_ack (sd_daemon w)) ?hs (sd_stops w)"
    using h c unfolding ack_holders_def by (metis length_list_update nth_list_update pc_acks.simps(1,2))
  moreover have "only_stop (dm_stop_ack (sd_daemon w)) ?hs (sd_cut w) (sd_stops w) ?ans"
    unfolding only_stop_def
  proof (intro allI impI)
    fix c' assume s: "sd_stops w = {c'}"
    then have c': "c' < length (sd_handlers w)"
      "stop_stage (dm_stop_ack (sd_daemon w)) (c' \<in> sd_cut w) (c' \<in> sd_answered w) (sd_handlers w ! c')"
      using o by (auto simp: only_stop_def)
    then show "c' < length ?hs \<and> stop_stage (dm_stop_ack (sd_daemon w)) (c' \<in> sd_cut w) (c' \<in> ?ans) (?hs ! c')"
      using c by (cases "c' = c") auto
  qed
  ultimately show ?thesis using assms(1) by (simp add: ack_ok_def)
qed

lemma ack_ok_acknowledge:
  assumes "ack_ok (sd_daemon w) w" "handler_at w c (Acknowledging ack)"
    and "d = (if ack then closeStopAck (sd_daemon w) else sd_daemon w)"
  shows "ack_ok (removeConnection c d) (move c Handled (removeConnection c d) w)"
proof -
  have c: "c < length (sd_handlers w)" "sd_handlers w ! c = Acknowledging ack" using assms(2) by (simp_all add: handler_at_def)
  have f: "ack_flags (sd_daemon w) (sd_serve w) (sd_cut w) (sd_stops w)"
    and h: "ack_holders (dm_stop_ack (sd_daemon w)) (sd_handlers w) (sd_stops w)"
    and o: "only_stop (dm_stop_ack (sd_daemon w)) (sd_handlers w) (sd_cut w) (sd_stops w) (sd_answered w)"
    using assms(1) by (simp_all add: ack_ok_def)
  let ?hs = "(sd_handlers w)[c := Handled]"
  show ?thesis
  proof (cases ack)
    case True
    then have s: "c \<in> sd_stops w" using h c by (auto simp: ack_holders_def)
    have "ack_flags d (sd_serve w) (sd_cut w) (sd_stops w)"
      using f s assms(3) True by (auto simp: ack_flags_def closeStopAck_def)
    moreover have "ack_holders (Some True) ?hs (sd_stops w)"
      using h c(1) by (auto simp: ack_holders_def nth_list_update)
    moreover have "only_stop (Some True) ?hs (sd_cut w) (sd_stops w) (sd_answered w)"
      using o c s by (auto simp: only_stop_def)
    ultimately show ?thesis
      using assms(3) True by (simp add: ack_ok_def ack_flags_def closeStopAck_def)
  next
    case False
    then have "sd_stops w \<noteq> {c}" using o c(2) by (auto simp: only_stop_def)
    then show ?thesis
      using f holders_plain [OF h c(1)] only_stop_other [OF o c(1)] assms(3) False c(2)
      by (simp add: ack_ok_def ack_flags_def) blast
  qed
qed

lemma serving_inv_serve:
  assumes "serving_inv w" "ack_flags (sd_daemon w) serve (sd_cut w) (sd_stops w)"
  shows "serving_inv (w\<lparr>sd_serve := serve\<rparr>)"
  using assms by (simp add: serving_inv_def ack_ok_def)

lemma serving_inv_flags: "serving_inv w \<Longrightarrow> ack_flags (sd_daemon w) (sd_serve w) (sd_cut w) (sd_stops w)"
  by (simp add: serving_inv_def ack_ok_def)

lemma serving_inv_handler:
  assumes "serving_inv w" "handler_at w c pc" "pc_active pc' = pc_active pc" "pc \<noteq> Handled" "pc' \<noteq> Handled"
    and "sd_handlers w' = (sd_handlers w)[c := pc']" "dm_connections (sd_daemon w') = dm_connections (sd_daemon w)"
      "dm_options (sd_daemon w') = dm_options (sd_daemon w)" "ack_ok (sd_daemon w') w'"
  shows "serving_inv w'"
  using assms connections_ok_set(2) [of _ "sd_handlers w" c pc'] by (simp add: serving_inv_def handler_at_def)

lemma serving_step_inv: "serving_step w w' \<Longrightarrow> serving_inv w \<Longrightarrow> serving_inv w'"
proof (induction rule: serving_step.induct)
  case (accept w d)
  then have d: "d = (sd_daemon w)\<lparr>dm_connections := AList.update (length (sd_handlers w)) False (dm_connections (sd_daemon w))\<rparr>"
    "int (length (dm_connections (sd_daemon w))) < do_max_connections (dm_options (sd_daemon w))"
    by (auto simp: registerConnection_def split: if_splits)
  have "map_of (dm_connections (sd_daemon w)) (length (sd_handlers w)) = None"
    using accept.prems by (simp add: serving_inv_def connections_ok_def)
  then have "length (dm_connections d) = Suc (length (dm_connections (sd_daemon w)))"
    by (simp add: d(1) update_fresh map_of_eq_None_iff)
  moreover have "ack_flags d (sd_serve w) (sd_cut w) (sd_stops w)" "dm_stop_ack d = dm_stop_ack (sd_daemon w)"
    using accept.prems d(1) by (auto simp: serving_inv_def ack_ok_def ack_flags_def)
  moreover have "ack_holders a (sd_handlers w @ [Reading]) stops" if "ack_holders a (sd_handlers w) stops" for a stops
    using that by (auto simp: ack_holders_def nth_append less_Suc_eq)
  moreover have "only_stop a (sd_handlers w @ [Reading]) g stops ans" if "only_stop a (sd_handlers w) g stops ans" for a g stops ans
    using that unfolding only_stop_def by (auto simp: nth_append)
  ultimately show ?case
    using accept.prems d connections_ok_accept [of _ "sd_handlers w"] by (simp add: serving_inv_def ack_ok_def)
next
  case (stopped w)
  then show ?case
    using serving_inv_flags [OF stopped.prems]
    by (intro serving_inv_serve) (auto simp: ack_flags_def Stopped_def)
next
  case (accept_fails w)
  then show ?case
    using ack_ok_requestStop_False(2) [of w] by (simp add: serving_inv_def requestStop_fields ack_ok_def)
next
  case (idle w)
  then show ?case
    using ack_ok_requestStop_False(1) [of w] by (simp add: serving_inv_def requestStop_fields ack_ok_def)
next
  case (activity w now)
  have "ack_flags (markActivity now (sd_daemon w)) (sd_serve w) (sd_cut w) (sd_stops w)"
    using serving_inv_flags [OF activity.prems] by (auto simp: ack_flags_def markActivity_def)
  then show ?case using activity by (simp add: serving_inv_def ack_ok_def markActivity_def)
next
  case (read w c)
  then have c: "c < length (sd_handlers w)" "sd_handlers w ! c = Reading"
    "map_of (dm_connections (sd_daemon w)) c \<noteq> None" "connections_ok (dm_connections (sd_daemon w)) (sd_handlers w)"
    by (auto simp: handler_at_def serving_inv_def connections_ok_def)
  then have "connections_ok (dm_connections (markConnectionActive c (sd_daemon w))) ((sd_handlers w)[c := Requested])"
    "length (dm_connections (markConnectionActive c (sd_daemon w))) = length (dm_connections (sd_daemon w))"
    using connections_ok_set(1) [OF c(4) c(1), of Requested] by (simp_all add: markConnectionActive_def length_update_present)
  then show ?case
    using read ack_ok_plain [of w c Reading Requested "markConnectionActive c (sd_daemon w)"]
    by (simp add: serving_inv_def)
next
  case (read_fails w c)
  then show ?case
    by (intro serving_inv_remove ack_ok_plain [of w c Reading]) (simp_all add: serving_inv_def)
next
  case (handle w c)
  then show ?case
    by (intro serving_inv_remove ack_ok_plain [of w c Requested]) (simp_all add: serving_inv_def)
next
  case (stop w c d ack)
  have "d = fst (requestStop True (sd_daemon w))" using stop.hyps(2) by simp
  then show ?case
    using stop.prems ack_ok_stop [OF _ stop.hyps]
    by (intro serving_inv_handler [OF stop.prems stop.hyps(1), of "Answering ack"])
      (simp_all add: requestStop_fields serving_inv_def)
next
  case (answer w c ack)
  then show ?case
    using ack_ok_answer [OF _ answer.hyps]
    by (intro serving_inv_handler [OF answer.prems answer.hyps, of "Acknowledging ack"]) (simp_all add: serving_inv_def)
next
  case (acknowledge w c ack d)
  then show ?case
    using ack_ok_acknowledge [OF _ acknowledge.hyps]
    by (intro serving_inv_remove [OF acknowledge.prems acknowledge.hyps(1)]) (simp_all add: serving_inv_def closeStopAck_def)
next
  case (drain w)
  then have "connections_ok (dm_connections (sd_daemon w)) (sd_handlers w)" "ack_ok (sd_daemon w) w"
    by (simp_all add: serving_inv_def)
  moreover have "ack_flags (sd_daemon w) Awaiting_ack (sd_cut w \<union> set (closeReadingConnections (sd_daemon w))) (sd_stops w)"
    using drain by (simp add: serving_inv_def ack_ok_def ack_flags_def)
  ultimately have "ack_ok (sd_daemon w) (w\<lparr>sd_serve := Awaiting_ack,
      sd_cut := sd_cut w \<union> set (closeReadingConnections (sd_daemon w))\<rparr>)"
    by (intro ack_ok_serve) (auto simp: reading_connections)
  then show ?case using drain.prems by (simp add: serving_inv_def ack_ok_def)
next
  case (acknowledged w)
  then show ?case
    using serving_inv_flags [OF acknowledged.prems]
    by (intro serving_inv_serve) (auto simp: ack_flags_def waitForStopAck_def)
next
  case (cut w)
  have ok: "ack_ok (sd_daemon w) w" using cut.prems by (simp add: serving_inv_def)
  moreover have f: "ack_flags (sd_daemon w) Waiting_handlers (sd_cut w \<union> set (closeAcceptedConnections (sd_daemon w))) (sd_stops w)"
    using cut ok by (simp add: ack_ok_def ack_flags_def)
  moreover have "dm_stop_ack (sd_daemon w) \<noteq> Some False" using cut ok by (auto simp: ack_ok_def ack_flags_def)
  then have "\<not> (\<exists>a. sd_handlers w ! c = Answering a)" if "sd_stops w = {c}" for c
    using ok that by (auto simp: ack_ok_def only_stop_def)
  ultimately have "ack_ok (sd_daemon w) (w\<lparr>sd_serve := Waiting_handlers,
      sd_cut := sd_cut w \<union> set (closeAcceptedConnections (sd_daemon w))\<rparr>)"
    by (intro ack_ok_serve) auto
  then show ?case using cut.prems by (simp add: serving_inv_def ack_ok_def)
next
  case (serve_ends w)
  then show ?case
    using serving_inv_flags [OF serve_ends.prems] by (intro serving_inv_serve) (auto simp: ack_flags_def)
qed

lemma serving_reachable_inv: "serving_reachable options now w \<Longrightarrow> serving_inv w"
  unfolding serving_reachable_def
  by (induction rule: rtranclp_induct) (simp_all add: serving_inv_new serving_step_inv)

subsection \<open>Properties\<close>

text \<open>C12: The daemon never has more connections than its limit, which is at least one: the connection map
holds exactly the connections whose handler has not finished, so a finished one frees its place, and no
connection is left when serving ends.\<close>

lemma daemon_connections_exact:
  assumes "serving_reachable options now w"
  shows "int (length (dm_connections (sd_daemon w))) \<le> do_max_connections (dm_options (sd_daemon w)) \<and>
    0 < do_max_connections (dm_options (sd_daemon w)) \<and>
    (\<forall>c. map_of (dm_connections (sd_daemon w)) c \<noteq> None \<longleftrightarrow>
       c < length (sd_handlers w) \<and> sd_handlers w ! c \<noteq> Handled)"
  using serving_reachable_inv [OF assms] by (simp add: serving_inv_def connections_ok_def)

text \<open>A client that connects and sends \<open>stop\<close>, until the daemon has stopped.\<close>

definition example_options :: daemon_options where
  "example_options = \<lparr>do_auto_release = False, do_target_idle = 0, do_daemon_idle = 0, do_sweep = 0,
     do_max_connections = 0, do_request_timeout = 0, do_write_timeout = 0\<rparr>"

definition serving_with :: "bool option \<Rightarrow> (conn_id \<times> bool) list \<Rightarrow> handler_pc list \<Rightarrow> serve_pc \<Rightarrow> conn_id set \<Rightarrow>
    conn_id set \<Rightarrow> conn_id set \<Rightarrow> serving" where
  "serving_with ack conns hs serve gone stops answered =
     \<lparr>sd_daemon = (NewDaemonWithOptions example_options 0)
        \<lparr>dm_connections := conns, dm_stop_ack := ack, dm_listening := ack = None, dm_stopping := ack \<noteq> None,
         dm_stopped := ack \<noteq> None\<rparr>,
      sd_serve = serve, sd_handlers = hs, sd_cut = gone, sd_stops = stops, sd_answered = answered\<rparr>"

lemma serving_with_start: "serving_reachable example_options 0 (serving_with None [] [] Accepting {} {} {})"
  unfolding serving_reachable_def serving_with_def new_serving_def by (simp add: NewDaemonWithOptions_def Let_def)

lemma serving_reachable_step: "serving_reachable options now w \<Longrightarrow> serving_step w w' \<Longrightarrow> serving_reachable options now w'"
  unfolding serving_reachable_def by (rule rtranclp.rtrancl_into_rtrancl)

lemmas serving_eval = serving_with_def NewDaemonWithOptions_def Let_def example_options_def registerConnection_def
  defaultMaxLocalConnections_def handler_at_def move_def markConnectionActive_def requestStop_def closeStopAck_def
  removeConnection_def closeReadingConnections_def closeAcceptedConnections_def Stopped_def waitForStopAck_def

lemma ex_Not [simp]: "Ex Not"
  by (rule exI [of _ False]) simp

lemma serving_two_stops:
  "serving_reachable example_options 0
     (serving_with (Some False) [(0, True), (1, True)] [Answering True, Answering True] Accepting {} {0, 1} {})"
proof -
  from serving_reachable_step [OF serving_with_start accept [where d = "sd_daemon (serving_with None [(0, False)] [] Accepting {} {} {})"]]
  have "serving_reachable example_options 0 (serving_with None [(0, False)] [Reading] Accepting {} {} {})"
    by (simp add: serving_eval)
  from serving_reachable_step [OF this accept [where d = "sd_daemon (serving_with None [(0, False), (1, False)] [] Accepting {} {} {})"]]
  have "serving_reachable example_options 0 (serving_with None [(0, False), (1, False)] [Reading, Reading] Accepting {} {} {})"
    by (simp add: serving_eval)
  from serving_reachable_step [OF this read [where c = 0]]
  have "serving_reachable example_options 0 (serving_with None [(0, True), (1, False)] [Requested, Reading] Accepting {} {} {})"
    by (simp add: serving_eval)
  from serving_reachable_step [OF this read [where c = 1]]
  have "serving_reachable example_options 0 (serving_with None [(0, True), (1, True)] [Requested, Requested] Accepting {} {} {})"
    by (simp add: serving_eval)
  from serving_reachable_step [OF this stop [where c = 0 and ack = True and
      d = "sd_daemon (serving_with (Some False) [(0, True), (1, True)] [] Accepting {} {} {})"]]
  have "serving_reachable example_options 0
      (serving_with (Some False) [(0, True), (1, True)] [Answering True, Requested] Accepting {} {0} {})"
    by (simp add: serving_eval)
  from serving_reachable_step [OF this stop [where c = 1 and ack = True and
      d = "sd_daemon (serving_with (Some False) [(0, True), (1, True)] [] Accepting {} {} {})"]]
  show ?thesis by (simp add: serving_eval insert_commute del: not_None_eq)
qed

lemma daemon_connections_exact_witness:
  "serving_reachable example_options 0
     (serving_with (Some False) [(0, True), (1, True)] [Answering True, Answering True] Accepting {} {0, 1} {}) \<and>
   (2::int) \<le> 128"
  using serving_two_stops daemon_connections_exact [OF serving_two_stops] by (simp add: serving_eval)

text \<open>C31: Stopping the daemon neither hangs nor forgets the client: while the acknowledgement is open a
handler is about to close it, so the shutdown's wait for it ends, and it never goes on before; a client
whose \<open>stop\<close> is the only one is answered before its connection is cut.\<close>

lemma daemon_stop_protocol:
  assumes "serving_reachable options now w"
  shows "(dm_stop_ack (sd_daemon w) = Some False \<longrightarrow>
       (\<exists>c ack. handler_at w c (Answering ack) \<or> handler_at w c (Acknowledging ack)) \<and>
       sd_serve w \<in> {Accepting, Draining, Awaiting_ack}) \<and>
    (\<forall>c. sd_stops w = {c} \<and> c \<in> sd_cut w \<longrightarrow> c \<in> sd_answered w)"
proof (intro conjI impI allI)
  have ok: "ack_ok (sd_daemon w) w" using serving_reachable_inv [OF assms] by (simp add: serving_inv_def)
  {
    assume a: "dm_stop_ack (sd_daemon w) = Some False"
    then have "sd_stops w \<noteq> {}" using ok by (auto simp: ack_ok_def ack_flags_def)
    then obtain c where "c < length (sd_handlers w)" "pc_acks (sd_handlers w ! c)"
      using ok a by (auto simp: ack_ok_def ack_holders_def)
    then show "\<exists>c ack. handler_at w c (Answering ack) \<or> handler_at w c (Acknowledging ack)"
      by (cases "sd_handlers w ! c") (auto simp: handler_at_def)
    show "sd_serve w \<in> {Accepting, Draining, Awaiting_ack}" using ok a by (simp add: ack_ok_def ack_flags_def)
  }
  fix c assume "sd_stops w = {c} \<and> c \<in> sd_cut w"
  then show "c \<in> sd_answered w"
    using ok by (cases "sd_handlers w ! c") (auto simp: ack_ok_def only_stop_def)
qed

lemma daemon_stop_protocol_witness:
  "let w = serving_with (Some False) [(0, True), (1, True)] [Answering True, Answering True] Accepting {} {0, 1} {}
   in \<exists>c ack. handler_at w c (Answering ack) \<or> handler_at w c (Acknowledging ack)"
  using daemon_stop_protocol [OF serving_two_stops] by (simp add: serving_with_def Let_def)

text \<open>Two clients that send \<open>stop\<close> share the acknowledgement: the second answer lets the shutdown cut the
first client's connection before its response is written.\<close>

lemma shared_stop_unanswered:
  "\<exists>w. serving_reachable example_options 0 w \<and> handler_at w 0 (Answering True) \<and> 0 \<in> sd_cut w \<and> 0 \<notin> sd_answered w"
proof -
  note step = serving_reachable_step
  from step [OF serving_two_stops answer [where c = 1 and ack = True]]
  have "serving_reachable example_options 0
      (serving_with (Some False) [(0, True), (1, True)] [Answering True, Acknowledging True] Accepting {} {0, 1} {1})"
    by (simp add: serving_eval)
  from step [OF this acknowledge [where c = 1 and ack = True and
      d = "sd_daemon (serving_with (Some True) [(0, True), (1, True)] [] Accepting {} {} {})"]]
  have "serving_reachable example_options 0
      (serving_with (Some True) [(0, True)] [Answering True, Handled] Accepting {} {0, 1} {1})"
    by (simp add: serving_eval)
  from step [OF this stopped]
  have "serving_reachable example_options 0
      (serving_with (Some True) [(0, True)] [Answering True, Handled] Draining {} {0, 1} {1})"
    by (simp add: serving_eval)
  from step [OF this drain]
  have "serving_reachable example_options 0
      (serving_with (Some True) [(0, True)] [Answering True, Handled] Awaiting_ack {} {0, 1} {1})"
    by (simp add: serving_eval)
  from step [OF this acknowledged]
  have "serving_reachable example_options 0
      (serving_with (Some True) [(0, True)] [Answering True, Handled] Cutting {} {0, 1} {1})"
    by (simp add: serving_eval)
  from step [OF this serving_step.cut]
  have "serving_reachable example_options 0
      (serving_with (Some True) [(0, True)] [Answering True, Handled] Waiting_handlers {0} {0, 1} {1})"
    by (simp add: serving_eval)
  then show ?thesis by (intro exI conjI) (assumption, simp_all add: serving_with_def handler_at_def)
qed

end
