(* ===== verification/Go_Flags.thy ===== *)
theory Go_Flags
  imports Go_Library
begin

section \<open>The flag package, as the command line uses it\<close>

text \<open>
  \<open>flag.FlagSet.Parse\<close> and the number formats its flags accept. A flag set is an association list from
  names to flags; a flag updates the state \<open>'c\<close> (the variables the flags are bound to). Parsing stops at
  the first argument that is not a flag, at \<open>-\<close>, or after \<open>--\<close>.
\<close>

datatype flag_error =
    Bad_syntax string
  | Help_requested
  | Not_defined string
  | Needs_argument string
  | Invalid_value string string

datatype 'c flag =
    Bool_flag "bool \<Rightarrow> 'c \<Rightarrow> 'c"
  | Value_flag "string \<Rightarrow> 'c \<Rightarrow> 'c option"

subsection \<open>Values\<close>

text \<open>\<open>strconv.ParseBool\<close>.\<close>

definition parse_bool :: "string \<Rightarrow> bool option" where
  "parse_bool s =
     (if s \<in> set [''1'', ''t'', ''T'', ''true'', ''TRUE'', ''True''] then Some True
      else if s \<in> set [''0'', ''f'', ''F'', ''false'', ''FALSE'', ''False''] then Some False
      else None)"

text \<open>\<open>c | ('x' - 'X')\<close> on a byte, where it matters: upper case letters become lower case.\<close>

definition lower_byte :: "char \<Rightarrow> nat" where
  "lower_byte c = (if 65 \<le> bval c \<and> bval c \<le> 90 then bval c + 32 else bval c)"

definition digit_of :: "char \<Rightarrow> nat option" where
  "digit_of c =
     (if 48 \<le> bval c \<and> bval c \<le> 57 then Some (bval c - 48)
      else if 97 \<le> lower_byte c \<and> lower_byte c \<le> 122 then Some (lower_byte c - 97 + 10)
      else None)"

fun parse_digits :: "nat \<Rightarrow> nat \<Rightarrow> string \<Rightarrow> nat option" where
  "parse_digits base n [] = Some n"
| "parse_digits base n (c # cs) =
     (if c = CHR ''_'' then parse_digits base n cs
      else (case digit_of c of
        None \<Rightarrow> None
      | Some d \<Rightarrow> if base \<le> d then None else parse_digits base (n * base + d) cs))"

text \<open>\<open>strconv.underscoreOK\<close>: the class of the last character is \<open>0\<close> for a digit, \<open>1\<close> for an
underscore and \<open>2\<close> for anything else or the beginning.\<close>

fun underscores_ok :: "bool \<Rightarrow> nat \<Rightarrow> string \<Rightarrow> bool" where
  "underscores_ok hex saw [] \<longleftrightarrow> saw \<noteq> 1"
| "underscores_ok hex saw (c # cs) \<longleftrightarrow>
     (if (48 \<le> bval c \<and> bval c \<le> 57) \<or> (hex \<and> 97 \<le> lower_byte c \<and> lower_byte c \<le> 102)
      then underscores_ok hex 0 cs
      else if c = CHR ''_'' then saw = 0 \<and> underscores_ok hex 1 cs
      else saw \<noteq> 1 \<and> underscores_ok hex 2 cs)"

definition number_prefix :: "string \<Rightarrow> nat \<times> bool \<times> string" where
  "number_prefix s =
     (case s of
        c0 # c # rest \<Rightarrow>
          (if c0 \<noteq> CHR ''0'' then (10, False, s)
           else if rest \<noteq> [] \<and> lower_byte c = 98 then (2, True, rest)
           else if rest \<noteq> [] \<and> lower_byte c = 111 then (8, True, rest)
           else if rest \<noteq> [] \<and> lower_byte c = 120 then (16, True, rest)
           else (8, False, c # rest))
      | [c0] \<Rightarrow> if c0 = CHR ''0'' then (8, False, []) else (10, False, s)
      | [] \<Rightarrow> (10, False, []))"

definition parse_uint0 :: "string \<Rightarrow> nat option" where
  "parse_uint0 s =
     (if s = [] then None
      else (case number_prefix s of
        (base, prefixed, digits) \<Rightarrow>
          (case parse_digits base 0 digits of
             None \<Rightarrow> None
           | Some n \<Rightarrow>
               if 2 ^ 64 \<le> n then None
               else if CHR ''_'' \<in> set digits \<and>
                 \<not> underscores_ok (prefixed \<and> base = 16) (if prefixed then 0 else 2)
                     (if prefixed then digits else s) then None
               else Some n)))"

text \<open>\<open>strconv.ParseInt(s, 0, 64)\<close>: an optional sign, a base prefix and underscores.\<close>

definition parse_int0 :: "string \<Rightarrow> int option" where
  "parse_int0 s =
     (let (neg, digits) = (case s of c # cs \<Rightarrow> if c = CHR ''+'' then (False, cs)
            else if c = CHR ''-'' then (True, cs) else (False, s) | [] \<Rightarrow> (False, []))
      in (case parse_uint0 digits of
        None \<Rightarrow> None
      | Some n \<Rightarrow>
          if neg then (if n \<le> 2 ^ 63 then Some (- int n) else None)
          else (if n < 2 ^ 63 then Some (int n) else None)))"

subsection \<open>Flags\<close>

definition string_flag :: "(string \<Rightarrow> 'c \<Rightarrow> 'c) \<Rightarrow> 'c flag" where
  "string_flag f = Value_flag (\<lambda>v c. Some (f v c))"

definition int_flag :: "(int \<Rightarrow> 'c \<Rightarrow> 'c) \<Rightarrow> 'c flag" where
  "int_flag f = Value_flag (\<lambda>v c. map_option (\<lambda>n. f n c) (parse_int0 v))"

text \<open>Splitting \<open>-name=value\<close>; the equals sign cannot come first.\<close>

fun cut_equals :: "string \<Rightarrow> string \<times> string option" where
  "cut_equals [] = ([], None)"
| "cut_equals (c # cs) =
     (if c = CHR ''='' then ([], Some cs) else (case cut_equals cs of (n, v) \<Rightarrow> (c # n, v)))"

definition flag_name :: "string \<Rightarrow> string \<times> string option" where
  "flag_name name =
     (case name of [] \<Rightarrow> ([], None)
      | c # cs \<Rightarrow> (case cut_equals cs of (n, v) \<Rightarrow> (c # n, v)))"

text \<open>What an argument is to the flag parser: the end of the flags, with or without being consumed, an
error, or a flag.\<close>

datatype flag_arg = Stop_before | Stop_after | Bad_flag | Flag_arg string "string option"

definition classify_arg :: "string \<Rightarrow> flag_arg" where
  "classify_arg s =
     (if length s < 2 \<or> s ! 0 \<noteq> CHR ''-'' then Stop_before
      else if s = ''--'' then Stop_after
      else (let name = (if s ! 1 = CHR ''-'' then drop 2 s else drop 1 s)
        in if name ! 0 = CHR ''-'' \<or> name ! 0 = CHR ''='' then Bad_flag
           else (case flag_name name of (n, v) \<Rightarrow> Flag_arg n v)))"

definition flag_result :: "string \<Rightarrow> string \<Rightarrow> 'c option \<Rightarrow> flag_error + 'c" where
  "flag_result name val x = (case x of None \<Rightarrow> Inl (Invalid_value name val) | Some c \<Rightarrow> Inr c)"

fun parse_flags :: "(string \<times> 'c flag) list \<Rightarrow> 'c \<Rightarrow> string list \<Rightarrow> flag_error + 'c \<times> string list" where
  "parse_flags fs c [] = Inr (c, [])"
| "parse_flags fs c (s # args) =
     (case classify_arg s of
        Stop_before \<Rightarrow> Inr (c, s # args)
      | Stop_after \<Rightarrow> Inr (c, args)
      | Bad_flag \<Rightarrow> Inl (Bad_syntax s)
      | Flag_arg name val \<Rightarrow>
          (case map_of fs name of
             None \<Rightarrow> Inl (if name = ''help'' \<or> name = ''h'' then Help_requested else Not_defined name)
           | Some (Bool_flag f) \<Rightarrow>
               (case val of
                  None \<Rightarrow> parse_flags fs (f True c) args
                | Some v \<Rightarrow>
                    bind_err (flag_result name v (map_option (\<lambda>b. f b c) (parse_bool v)))
                      (\<lambda>c. parse_flags fs c args))
           | Some (Value_flag f) \<Rightarrow>
               (case val of
                  Some v \<Rightarrow> bind_err (flag_result name v (f v c)) (\<lambda>c. parse_flags fs c args)
                | None \<Rightarrow>
                    (case args of
                       [] \<Rightarrow> Inl (Needs_argument name)
                     | v # rest \<Rightarrow>
                         bind_err (flag_result name v (f v c)) (\<lambda>c. parse_flags fs c rest)))))"

subsection \<open>What parsing leaves alone\<close>

text \<open>An argument list that does not begin with a dash is not touched.\<close>

lemma parse_flags_positional:
  "args = [] \<or> length (hd args) < 2 \<or> hd args ! 0 \<noteq> CHR ''-'' \<Longrightarrow> parse_flags fs c args = Inr (c, args)"
  by (cases args) (auto simp: classify_arg_def)

text \<open>What every flag of a set keeps, parsing keeps.\<close>

fun flag_keeps :: "('c \<Rightarrow> bool) \<Rightarrow> 'c flag \<Rightarrow> bool" where
  "flag_keeps P (Bool_flag f) \<longleftrightarrow> (\<forall>b c. P c \<longrightarrow> P (f b c))"
| "flag_keeps P (Value_flag f) \<longleftrightarrow> (\<forall>v c c'. P c \<longrightarrow> f v c = Some c' \<longrightarrow> P c')"

lemma flag_result_Inr: "flag_result n v x = Inr c \<longleftrightarrow> x = Some c"
  by (cases x) (simp_all add: flag_result_def)

lemma parse_flags_keeps:
  "parse_flags fs c args = Inr (c', rest) \<Longrightarrow> list_all (flag_keeps P) (map snd fs) \<Longrightarrow> P c \<Longrightarrow> P c'"
proof (induction fs c args rule: parse_flags.induct)
  case (2 fs c s args)
  show ?case
  proof (cases "classify_arg s")
    case (Flag_arg name val)
    show ?thesis
    proof (cases "map_of fs name")
      case None
      then show ?thesis using "2.prems" Flag_arg by (simp split: if_splits)
    next
      case (Some f)
      then have f: "flag_keeps P f" using "2.prems"(2) by (force simp: list_all_iff dest: map_of_SomeD)
      note IH = "2.IH" [OF Flag_arg Some]
      show ?thesis
      proof (cases f)
        case (Bool_flag g)
        then show ?thesis
          using f "2.prems" IH(1,2) [OF Bool_flag] by (cases val) (auto simp: Flag_arg Some bind_err_Inr_iff flag_result_Inr)
      next
        case (Value_flag g)
        show ?thesis
        proof (cases val)
          case None
          then show ?thesis
            using f "2.prems" IH(3) [OF Value_flag None] Value_flag
            by (cases args) (auto simp: Flag_arg Some bind_err_Inr_iff flag_result_Inr)
        next
          case val: (Some v)
          then show ?thesis
            using f "2.prems" IH(4) [OF Value_flag val] Value_flag
            by (auto simp: Flag_arg Some bind_err_Inr_iff flag_result_Inr)
        qed
      qed
    qed
  qed (use "2.prems" in simp_all)
qed simp

lemma flag_keeps_string: "flag_keeps P (string_flag f) \<longleftrightarrow> (\<forall>v c. P c \<longrightarrow> P (f v c))"
  by (simp add: string_flag_def)

lemma flag_keeps_int: "(\<And>n c. P c \<Longrightarrow> P (f n c)) \<Longrightarrow> flag_keeps P (int_flag f)"
  by (auto simp: int_flag_def)

end
