(* ===== verification/Cli_Parse.thy ===== *)
theory Cli_Parse
  imports Go_Flags Server_Protocol
begin

section \<open>The command line (internal/app/parse.go)\<close>

text \<open>
  The three programs (local, server, client) parse their arguments into one \<open>config\<close>. What the parser
  takes from its surroundings is a record \<open>cli_env\<close>: \<open>time.ParseDuration\<close> and \<open>strconv.ParseFloat\<close>, whose
  results are numbers and floats that the parser only stores and compares with zero, and the default
  paths of the server, which depend on the home directory. Durations are in nanoseconds.
\<close>

datatype cli_mode = No_mode | ModeLocal | ModeServer | ModeClient

datatype cli_action =
    No_action | ActionRun | ActionHelp | ActionDaemon | ActionList | ActionKill | ActionStop | ActionIdle
  | ActionSend | ActionText | ActionCommand | ActionKeys | ActionCtrlC | ActionRead | ActionFollow
  | ActionCreate | ActionClose | ActionRegister | ActionRotate | ActionRevoke

fun action_name :: "cli_action \<Rightarrow> string" where
  "action_name No_action = ''''"
| "action_name ActionRun = ''run''"
| "action_name ActionHelp = ''help''"
| "action_name ActionDaemon = ''daemon''"
| "action_name ActionList = ''list''"
| "action_name ActionKill = ''kill''"
| "action_name ActionStop = ''stop''"
| "action_name ActionIdle = ''idle''"
| "action_name ActionSend = ''send''"
| "action_name ActionText = ''text''"
| "action_name ActionCommand = ''command''"
| "action_name ActionKeys = ''keys''"
| "action_name ActionCtrlC = ''ctrl-c''"
| "action_name ActionRead = ''read''"
| "action_name ActionFollow = ''follow''"
| "action_name ActionCreate = ''create''"
| "action_name ActionClose = ''close''"
| "action_name ActionRegister = ''register''"
| "action_name ActionRotate = ''rotate''"
| "action_name ActionRevoke = ''revoke''"

record 'f config =
  cf_mode :: cli_mode
  cf_action :: cli_action
  cf_session :: string
  cf_pane :: string
  cf_tab :: string
  cf_command :: string
  cf_socket :: string
  cf_follow :: bool
  cf_wait :: int
  cf_read_count :: int
  cf_alias :: string
  cf_url :: string
  cf_token :: string
  cf_token_file :: string
  cf_client_name :: string
  cf_password :: string
  cf_password_file :: string
  cf_listen :: string
  cf_client_registry :: string
  cf_shell :: string
  cf_shutdown_timeout :: int
  cf_max_pre_auth :: int
  cf_max_connections :: int
  cf_max_per_client :: int
  cf_max_targets :: int
  cf_auth_rate :: 'f
  cf_auth_burst :: int

record 'f cli_env =
  ce_parse_duration :: "string \<Rightarrow> int option"
  ce_parse_float :: "string \<Rightarrow> 'f option"
  ce_zero_float :: 'f
  ce_default_rate :: 'f
  ce_server_paths :: "(string \<times> string) option"

datatype cli_error =
    Flag_error string flag_error
  | No_positional string
  | At_most_one_target string
  | Missing_command
  | Invalid_target string
  | Requires_one_target string
  | Requires_target_and_input string
  | Follow_with_wait string
  | Invalid_duration string
  | Duration_not_positive string
  | Negative_read_count
  | Requires_value string
  | Requires_nonempty_value string
  | Token_conflict
  | Password_conflict
  | Client_requires_operation
  | Alias_requires_operation
  | Unknown_operation string
  | Negative_pre_auth
  | Negative_limits
  | No_server_paths
  | Invalid_request_config invalid_request

definition empty_config :: "'f \<Rightarrow> 'f config" where
  "empty_config zero =
     \<lparr>cf_mode = No_mode, cf_action = No_action, cf_session = [], cf_pane = [], cf_tab = [], cf_command = [],
      cf_socket = [], cf_follow = False, cf_wait = 0, cf_read_count = 0, cf_alias = [], cf_url = [],
      cf_token = [], cf_token_file = [], cf_client_name = [], cf_password = [], cf_password_file = [],
      cf_listen = [], cf_client_registry = [], cf_shell = [], cf_shutdown_timeout = 0, cf_max_pre_auth = 0,
      cf_max_connections = 0, cf_max_per_client = 0, cf_max_targets = 0, cf_auth_rate = zero, cf_auth_burst = 0\<rparr>"

definition run_flags ::
  "string \<Rightarrow> (string \<times> 'c flag) list \<Rightarrow> 'c \<Rightarrow> string list \<Rightarrow> cli_error + 'c \<times> string list" where
  "run_flags name fs c args =
     (case parse_flags fs c args of Inl e \<Rightarrow> Inl (Flag_error name e) | Inr x \<Rightarrow> Inr x)"

subsection \<open>Targets and waits\<close>

text \<open>A target is a path of one to three non-empty parts. Parts that are missing keep their value, or are
cleared when the target may be partial.\<close>

definition applyTarget :: "'f config \<Rightarrow> string \<Rightarrow> bool \<Rightarrow> cli_error + 'f config" where
  "applyTarget cfg target partial =
     (let parts = split_on CHR ''/'' target in
      if 3 < length parts \<or> list_ex (\<lambda>p. p = []) parts then Inl (Invalid_target target)
      else Inr (cfg\<lparr>cf_session := parts ! 0,
        cf_pane := (if 2 \<le> length parts then parts ! 1 else if partial then [] else cf_pane cfg),
        cf_tab := (if 3 \<le> length parts then parts ! 2 else if partial then [] else cf_tab cfg)\<rparr>))"

definition applyTargetOnly :: "'f config \<Rightarrow> string list \<Rightarrow> string \<Rightarrow> cli_error + 'f config" where
  "applyTargetOnly cfg rest action =
     (if length rest \<noteq> 1 then Inl (Requires_one_target action) else applyTarget cfg (rest ! 0) False)"

definition applyCommandTarget :: "'f config \<Rightarrow> string list \<Rightarrow> string \<Rightarrow> cli_error + 'f config" where
  "applyCommandTarget cfg rest action =
     (if length rest < 2 then Inl (Requires_target_and_input action)
      else bind_err (applyTarget cfg (rest ! 0) False)
        (\<lambda>cfg. Inr (cfg\<lparr>cf_command := join '' '' (drop 1 rest)\<rparr>)))"

definition parseWait :: "'f cli_env \<Rightarrow> string \<Rightarrow> cli_error + int" where
  "parseWait env val =
     (if val = [] then Inr 0
      else (let v = (if is_digit (last val) then val @ ''ms'' else val) in
        (case ce_parse_duration env v of
           None \<Rightarrow> Inl (Invalid_duration v)
         | Some wait \<Rightarrow> if wait \<le> 0 then Inl (Duration_not_positive v) else Inr wait)))"

definition isHelpArg :: "string \<Rightarrow> bool" where
  "isHelpArg arg \<longleftrightarrow> arg = ''-h'' \<or> arg = ''--help''"

fun hasHelpArg :: "string list \<Rightarrow> bool" where
  "hasHelpArg [] = False"
| "hasHelpArg (arg # args) = (if isHelpArg arg then True else hasHelpArg args)"

definition help_config :: "'f config \<Rightarrow> 'f config" where
  "help_config cfg = cfg\<lparr>cf_action := ActionHelp\<rparr>"

subsection \<open>The local actions\<close>

definition socket_flag :: "string \<times> 'f config flag" where
  "socket_flag = (''socket'', string_flag (\<lambda>v cfg. cfg\<lparr>cf_socket := v\<rparr>))"

text \<open>Flags that also bind a local variable, the wait, work on a pair.\<close>

definition on_config :: "'f config flag \<Rightarrow> ('f config \<times> string) flag" where
  "on_config f =
     (case f of
        Bool_flag g \<Rightarrow> Bool_flag (\<lambda>b (cfg, w). (g b cfg, w))
      | Value_flag g \<Rightarrow> Value_flag (\<lambda>v (cfg, w). map_option (\<lambda>cfg. (cfg, w)) (g v cfg)))"

definition follow_flag :: "string \<times> 'f config flag" where
  "follow_flag = (''f'', Bool_flag (\<lambda>b cfg. cfg\<lparr>cf_follow := b\<rparr>))"

definition wait_flag :: "string \<times> ('f config \<times> string) flag" where
  "wait_flag = (''t'', string_flag (\<lambda>v (cfg, w). (cfg, v)))"

text \<open>\<open>parseSend\<close>, \<open>parseCommand\<close> and \<open>parseKeys\<close> are the same up to their name.\<close>

definition parse_input :: "'f cli_env \<Rightarrow> string \<Rightarrow> 'f config \<Rightarrow> string list \<Rightarrow> cli_error + 'f config" where
  "parse_input env name cfg args =
     (if hasHelpArg args then Inr (help_config cfg)
      else bind_err (run_flags name
          [map_prod id on_config socket_flag, map_prod id on_config follow_flag, wait_flag]
          (cfg\<lparr>cf_follow := False\<rparr>, []) args)
        (\<lambda>((cfg, wait), rest).
           if cf_follow cfg \<and> wait \<noteq> [] then Inl (Follow_with_wait name)
           else if wait \<noteq> [] then
             bind_err (parseWait env wait) (\<lambda>w. applyCommandTarget (cfg\<lparr>cf_wait := w\<rparr>) rest name)
           else applyCommandTarget cfg rest name))"

definition parseSend :: "'f cli_env \<Rightarrow> 'f config \<Rightarrow> string list \<Rightarrow> cli_error + 'f config" where
  "parseSend env cfg args = parse_input env ''send'' cfg args"

definition parseCommand :: "'f cli_env \<Rightarrow> 'f config \<Rightarrow> string list \<Rightarrow> cli_error + 'f config" where
  "parseCommand env cfg args = parse_input env ''command'' cfg args"

definition parseKeys :: "'f cli_env \<Rightarrow> 'f config \<Rightarrow> string list \<Rightarrow> cli_error + 'f config" where
  "parseKeys env cfg args = parse_input env ''keys'' cfg args"

definition parseText :: "'f config \<Rightarrow> string list \<Rightarrow> cli_error + 'f config" where
  "parseText cfg args =
     (if hasHelpArg args then Inr (help_config cfg)
      else bind_err (run_flags ''text'' [socket_flag] cfg args)
        (\<lambda>(cfg, rest). applyCommandTarget cfg rest ''text''))"

definition parseKill :: "'f config \<Rightarrow> string list \<Rightarrow> cli_error + 'f config" where
  "parseKill cfg args =
     (if hasHelpArg args then Inr (help_config cfg)
      else bind_err (run_flags ''kill'' [socket_flag] cfg args)
        (\<lambda>(cfg, rest).
           (case rest of
              [] \<Rightarrow> Inr (cfg\<lparr>cf_session := [], cf_pane := [], cf_tab := []\<rparr>)
            | [target] \<Rightarrow> applyTarget cfg target False
            | _ \<Rightarrow> Inl (At_most_one_target ''kill''))))"

definition parseIdle :: "'f cli_env \<Rightarrow> 'f config \<Rightarrow> string list \<Rightarrow> cli_error + 'f config" where
  "parseIdle env cfg args =
     (if hasHelpArg args then Inr (help_config cfg)
      else bind_err (run_flags ''idle'' [map_prod id on_config socket_flag, wait_flag] (cfg, ''500ms'') args)
        (\<lambda>((cfg, wait), rest).
           bind_err (parseWait env wait) (\<lambda>w. applyCommandTarget (cfg\<lparr>cf_wait := w\<rparr>) rest ''idle'')))"

definition count_flag :: "string \<times> 'f config flag" where
  "count_flag = (''n'', int_flag (\<lambda>n cfg. cfg\<lparr>cf_read_count := n\<rparr>))"

definition parseRead :: "'f config \<Rightarrow> string list \<Rightarrow> cli_error + 'f config" where
  "parseRead cfg args =
     (if hasHelpArg args then Inr (help_config cfg)
      else bind_err (run_flags ''read'' [count_flag] (cfg\<lparr>cf_read_count := 0\<rparr>) args)
        (\<lambda>(cfg, rest).
           if cf_read_count cfg < 0 then Inl Negative_read_count else applyTargetOnly cfg rest ''read''))"

definition parseFollow :: "'f config \<Rightarrow> string list \<Rightarrow> cli_error + 'f config" where
  "parseFollow cfg args =
     (if hasHelpArg args then Inr (help_config cfg)
      else applyTargetOnly (cfg\<lparr>cf_follow := True\<rparr>) args ''follow'')"

definition parseTargetAction :: "'f config \<Rightarrow> string list \<Rightarrow> string \<Rightarrow> cli_error + 'f config" where
  "parseTargetAction cfg args action =
     (if hasHelpArg args then Inr (help_config cfg)
      else bind_err (run_flags action [socket_flag] cfg args) (\<lambda>(cfg, rest). applyTargetOnly cfg rest action))"

subsection \<open>The local program\<close>

definition local_actions :: "(string \<times> cli_action) list" where
  "local_actions =
     [(''help'', ActionHelp), (''daemon'', ActionDaemon), (''list'', ActionList), (''kill'', ActionKill),
      (''stop'', ActionStop), (''idle'', ActionIdle), (''send'', ActionSend), (''text'', ActionText),
      (''command'', ActionCommand), (''keys'', ActionKeys), (''ctrl-c'', ActionCtrlC), (''read'', ActionRead),
      (''follow'', ActionFollow)]"

definition no_target :: "'f config \<Rightarrow> 'f config" where
  "no_target cfg = cfg\<lparr>cf_session := [], cf_pane := [], cf_tab := []\<rparr>"

definition list_target :: "'f config \<Rightarrow> string list \<Rightarrow> cli_error + 'f config" where
  "list_target cfg rest = (if length rest = 1 then applyTarget cfg (rest ! 0) True else Inr (no_target cfg))"

text \<open>An action word after the flags.\<close>

definition late_action :: "'f cli_env \<Rightarrow> 'f config \<Rightarrow> string list \<Rightarrow> (cli_error + 'f config) option" where
  "late_action env cfg rest =
     (case map_of local_actions (hd rest) of
        None \<Rightarrow> None
      | Some action \<Rightarrow>
          (let cfg = cfg\<lparr>cf_action := action\<rparr>; args = tl rest in
           (case action of
              ActionDaemon \<Rightarrow> Some (if length rest \<noteq> 1 then Inl (No_positional ''daemon'') else Inr cfg)
            | ActionList \<Rightarrow> Some (if 1 < length args then Inl (At_most_one_target ''list'') else list_target cfg args)
            | ActionKill \<Rightarrow> Some (parseKill cfg args)
            | ActionStop \<Rightarrow> Some (if length rest \<noteq> 1 then Inl (No_positional ''stop'') else Inr cfg)
            | ActionIdle \<Rightarrow> Some (parseIdle env cfg args)
            | ActionSend \<Rightarrow> Some (parseSend env cfg args)
            | ActionText \<Rightarrow> Some (parseText cfg args)
            | ActionCommand \<Rightarrow> Some (parseCommand env cfg args)
            | ActionKeys \<Rightarrow> Some (parseKeys env cfg args)
            | ActionCtrlC \<Rightarrow> Some (applyTargetOnly cfg args ''ctrl-c'')
            | ActionRead \<Rightarrow> Some (parseRead cfg args)
            | ActionFollow \<Rightarrow> Some (parseFollow cfg args)
            | _ \<Rightarrow> None)))"

text \<open>What follows the flags of the actions that share the main flag set: \<open>run\<close>, \<open>daemon\<close>, \<open>list\<close> and
\<open>stop\<close>.\<close>

definition after_flags :: "'f cli_env \<Rightarrow> 'f config \<Rightarrow> string list \<Rightarrow> cli_error + 'f config" where
  "after_flags env cfg rest =
     (if cf_action cfg = ActionRun \<and> rest \<noteq> [] \<and> late_action env cfg rest \<noteq> None then the (late_action env cfg rest)
      else if cf_action cfg = ActionRun then
        (if rest = [] then Inl Missing_command
         else if 2 \<le> length rest then
           bind_err (applyTarget cfg (hd rest) False) (\<lambda>cfg. Inr (cfg\<lparr>cf_command := join '' '' (tl rest)\<rparr>))
         else Inr (cfg\<lparr>cf_command := join '' '' rest\<rparr>))
      else if cf_action cfg = ActionList \<and> length rest \<le> 1 then list_target cfg rest
      else if rest \<noteq> [] then Inl (No_positional (action_name (cf_action cfg)))
      else Inr cfg)"

definition target_flags :: "(string \<times> 'f config flag) list" where
  "target_flags =
     [(''s'', string_flag (\<lambda>v cfg. cfg\<lparr>cf_session := v\<rparr>)), (''p'', string_flag (\<lambda>v cfg. cfg\<lparr>cf_pane := v\<rparr>)),
      (''t'', string_flag (\<lambda>v cfg. cfg\<lparr>cf_tab := v\<rparr>)), socket_flag]"

definition parse_local :: "'f cli_env \<Rightarrow> string list \<Rightarrow> cli_error + 'f config" where
  "parse_local env args =
     (let cfg = (empty_config (ce_zero_float env))
            \<lparr>cf_action := ActionRun, cf_session := ''default'', cf_pane := ''default'', cf_tab := ''default''\<rparr>
      in if args \<noteq> [] \<and> isHelpArg (hd args) then Inr (help_config cfg)
         else (let (action, args) = (case args of [] \<Rightarrow> (ActionRun, [])
                 | a # rest \<Rightarrow> (case map_of local_actions a of Some action \<Rightarrow> (action, rest) | None \<Rightarrow> (ActionRun, args)));
               cfg = cfg\<lparr>cf_action := action\<rparr>
           in (case action of
                 ActionHelp \<Rightarrow> Inr cfg
               | ActionKill \<Rightarrow> parseKill cfg args
               | ActionSend \<Rightarrow> parseSend env cfg args
               | ActionText \<Rightarrow> parseText cfg args
               | ActionCommand \<Rightarrow> parseCommand env cfg args
               | ActionKeys \<Rightarrow> parseKeys env cfg args
               | ActionIdle \<Rightarrow> parseIdle env cfg args
               | ActionRead \<Rightarrow> parseRead cfg args
               | ActionFollow \<Rightarrow> parseFollow cfg args
               | ActionCtrlC \<Rightarrow> parseTargetAction cfg args ''ctrl-c''
               | _ \<Rightarrow> bind_err (run_flags ''ptymux'' target_flags cfg args) (\<lambda>(cfg, rest). after_flags env cfg rest))))"

subsection \<open>The server program\<close>

definition seconds :: "int \<Rightarrow> int" where
  "seconds n = n * 1000000000"

definition applyServerPathDefaults :: "'f cli_env \<Rightarrow> 'f config \<Rightarrow> cli_error + 'f config" where
  "applyServerPathDefaults env cfg =
     (if cf_token_file cfg \<noteq> [] \<and> cf_client_registry cfg \<noteq> [] then Inr cfg
      else (case ce_server_paths env of
        None \<Rightarrow> Inl No_server_paths
      | Some (token, registry) \<Rightarrow>
          (let cfg = (if cf_token_file cfg = [] then cfg\<lparr>cf_token_file := token\<rparr> else cfg)
           in Inr (if cf_client_registry cfg = [] then cfg\<lparr>cf_client_registry := registry\<rparr> else cfg))))"

definition server_flags :: "'f cli_env \<Rightarrow> (string \<times> 'f config flag) list" where
  "server_flags env =
     [(''listen'', string_flag (\<lambda>v cfg. cfg\<lparr>cf_listen := v\<rparr>)),
      (''token-file'', string_flag (\<lambda>v cfg. cfg\<lparr>cf_token_file := v\<rparr>)),
      (''client-registry'', string_flag (\<lambda>v cfg. cfg\<lparr>cf_client_registry := v\<rparr>)),
      (''shell'', string_flag (\<lambda>v cfg. cfg\<lparr>cf_shell := v\<rparr>)),
      (''shutdown-timeout'', Value_flag (\<lambda>v cfg. map_option (\<lambda>d. cfg\<lparr>cf_shutdown_timeout := d\<rparr>) (ce_parse_duration env v))),
      (''max-pre-auth-connections'', int_flag (\<lambda>n cfg. cfg\<lparr>cf_max_pre_auth := n\<rparr>)),
      (''max-connections'', int_flag (\<lambda>n cfg. cfg\<lparr>cf_max_connections := n\<rparr>)),
      (''max-connections-per-client'', int_flag (\<lambda>n cfg. cfg\<lparr>cf_max_per_client := n\<rparr>)),
      (''max-targets-per-client'', int_flag (\<lambda>n cfg. cfg\<lparr>cf_max_targets := n\<rparr>)),
      (''auth-rate'', Value_flag (\<lambda>v cfg. map_option (\<lambda>x. cfg\<lparr>cf_auth_rate := x\<rparr>) (ce_parse_float env v))),
      (''auth-burst'', int_flag (\<lambda>n cfg. cfg\<lparr>cf_auth_burst := n\<rparr>))]"

definition parse_server :: "'f cli_env \<Rightarrow> string list \<Rightarrow> cli_error + 'f config" where
  "parse_server env args =
     (let cfg = (empty_config (ce_zero_float env))
            \<lparr>cf_mode := ModeServer, cf_listen := ''0.0.0.0:8443'', cf_shell := ''/bin/bash'',
             cf_shutdown_timeout := seconds 10, cf_max_pre_auth := 256, cf_max_connections := 256,
             cf_max_per_client := 16, cf_max_targets := 64, cf_auth_rate := ce_default_rate env, cf_auth_burst := 20\<rparr>
      in if hasHelpArg args then Inr (help_config cfg)
         else bind_err (run_flags ''server'' (server_flags env) cfg args)
           (\<lambda>(cfg, rest). if rest \<noteq> [] then Inl (No_positional ''server'') else applyServerPathDefaults env cfg))"

subsection \<open>The client program\<close>

definition remote_operations :: "string list" where
  "remote_operations = [''register'', ''rotate'', ''revoke'', ''create'', ''list'', ''send'', ''text'', ''keys'',
     ''read'', ''follow'', ''close'']"

definition isRemoteOperation :: "string \<Rightarrow> bool" where
  "isRemoteOperation val \<longleftrightarrow> val \<in> set remote_operations"

definition remoteOperationHasPayload :: "string \<Rightarrow> bool" where
  "remoteOperationHasPayload operation \<longleftrightarrow> operation \<in> set [''send'', ''text'', ''keys'']"

definition connection_options :: "(string \<times> (string \<Rightarrow> 'f config \<Rightarrow> 'f config)) list" where
  "connection_options =
     [(''--url'', \<lambda>v cfg. cfg\<lparr>cf_url := v\<rparr>), (''--token'', \<lambda>v cfg. cfg\<lparr>cf_token := v\<rparr>),
      (''--token-file'', \<lambda>v cfg. cfg\<lparr>cf_token_file := v\<rparr>), (''--name'', \<lambda>v cfg. cfg\<lparr>cf_client_name := v\<rparr>),
      (''--password'', \<lambda>v cfg. cfg\<lparr>cf_password := v\<rparr>), (''--password-file'', \<lambda>v cfg. cfg\<lparr>cf_password_file := v\<rparr>)]"

definition set_option ::
  "string \<Rightarrow> string \<Rightarrow> (string \<Rightarrow> 'f config \<Rightarrow> 'f config) \<Rightarrow> 'f config \<Rightarrow> cli_error + 'f config" where
  "set_option name val f cfg = (if val = [] then Inl (Requires_nonempty_value name) else Inr (f val cfg))"

fun extract_options ::
  "'f config \<Rightarrow> string \<Rightarrow> bool \<Rightarrow> string list \<Rightarrow> string list \<Rightarrow> cli_error + 'f config \<times> string list" where
  "extract_options cfg operation consumed remaining [] = Inr (cfg, remaining)"
| "extract_options cfg operation consumed remaining (arg # args) =
     (if arg = ''--'' then Inr (cfg, remaining @ args)
      else if operation \<noteq> [] \<and> remoteOperationHasPayload operation \<and> consumed
      then extract_options cfg operation consumed (remaining @ [arg]) args
      else (case cut_equals arg of
        (name, val) \<Rightarrow>
          (case map_of connection_options name of
             None \<Rightarrow>
               if operation = [] \<and> isRemoteOperation arg then extract_options cfg arg consumed (remaining @ [arg]) args
               else if operation \<noteq> [] \<and> remoteOperationHasPayload operation
               then extract_options cfg operation True (remaining @ [arg]) args
               else extract_options cfg operation consumed (remaining @ [arg]) args
           | Some f \<Rightarrow>
               (case val of
                  Some v \<Rightarrow> bind_err (set_option name v f cfg) (\<lambda>cfg. extract_options cfg operation consumed remaining args)
                | None \<Rightarrow>
                    (case args of
                       [] \<Rightarrow> Inl (Requires_value name)
                     | v # rest \<Rightarrow>
                         bind_err (set_option name v f cfg) (\<lambda>cfg. extract_options cfg operation consumed remaining rest))))))"

definition extractRemoteOptions :: "'f config \<Rightarrow> string list \<Rightarrow> cli_error + 'f config \<times> string list" where
  "extractRemoteOptions cfg args =
     bind_err (extract_options cfg [] False [] args)
       (\<lambda>(cfg, remaining).
          if cf_token cfg \<noteq> [] \<and> cf_token_file cfg \<noteq> [] then Inl Token_conflict
          else if cf_password cfg \<noteq> [] \<and> cf_password_file cfg \<noteq> [] then Inl Password_conflict
          else Inr (cfg, remaining))"

definition remote_operation :: "'f config \<Rightarrow> string \<Rightarrow> string list \<Rightarrow> cli_error + 'f config" where
  "remote_operation cfg operation args =
     (let plain = (\<lambda>action. if args \<noteq> [] then Inl (No_positional operation) else Inr (cfg\<lparr>cf_action := action\<rparr>));
          target = (\<lambda>action. applyTargetOnly (cfg\<lparr>cf_action := action\<rparr>) args operation);
          payload = (\<lambda>action. applyCommandTarget (cfg\<lparr>cf_action := action\<rparr>) args operation)
      in if operation = ''register'' then plain ActionRegister
         else if operation = ''rotate'' then plain ActionRotate
         else if operation = ''revoke'' then plain ActionRevoke
         else if operation = ''create'' then target ActionCreate
         else if operation = ''close'' then target ActionClose
         else if operation = ''list'' then
           (if 1 < length args then Inl (At_most_one_target ''list'')
            else list_target (cfg\<lparr>cf_action := ActionList\<rparr>) args)
         else if operation = ''send'' then payload ActionSend
         else if operation = ''text'' then payload ActionText
         else if operation = ''keys'' then payload ActionKeys
         else if operation = ''read'' then
           bind_err (run_flags ''client read'' [count_flag] (cfg\<lparr>cf_action := ActionRead, cf_read_count := 0\<rparr>) args)
             (\<lambda>(cfg, rest).
                if cf_read_count cfg < 0 then Inl Negative_read_count else applyTargetOnly cfg rest operation)
         else if operation = ''follow'' then
           applyTargetOnly (cfg\<lparr>cf_action := ActionFollow, cf_follow := True\<rparr>) args operation
         else Inl (Unknown_operation operation))"

definition parseRemoteClient :: "'f cli_env \<Rightarrow> string list \<Rightarrow> cli_error + 'f config" where
  "parseRemoteClient env args =
     (let cfg = (empty_config (ce_zero_float env))
            \<lparr>cf_mode := ModeClient, cf_session := ''default'', cf_pane := ''default'', cf_tab := ''default''\<rparr>
      in if args = [] \<or> hasHelpArg args \<or> hd args = ''help'' then Inr (help_config cfg)
         else bind_err (extractRemoteOptions cfg args)
           (\<lambda>(cfg, remaining).
              (case remaining of
                 [] \<Rightarrow> Inl Client_requires_operation
               | first # rest \<Rightarrow>
                   (case (if isRemoteOperation first then (cfg, remaining) else (cfg\<lparr>cf_alias := first\<rparr>, rest)) of
                      (cfg, []) \<Rightarrow> Inl Alias_requires_operation
                    | (cfg, operation # operationArgs) \<Rightarrow>
                        if \<not> isRemoteOperation operation then Inl (Unknown_operation operation)
                        else if hasHelpArg operationArgs then Inr (help_config cfg)
                        else remote_operation cfg operation operationArgs))))"

subsection \<open>Validation\<close>

text \<open>\<open>int64(cfg.Wait / time.Millisecond)\<close>: the quotient truncates towards zero.\<close>

definition serverRequestFromConfig :: "'f config \<Rightarrow> request" where
  "serverRequestFromConfig cfg =
     \<lparr>req_action = action_name (cf_action cfg), req_session = cf_session cfg, req_pane = cf_pane cfg,
      req_tab = cf_tab cfg, req_command = cf_command cfg, req_follow = cf_follow cfg,
      req_wait_millis = (if 0 \<le> cf_wait cfg then cf_wait cfg div 1000000 else - (- cf_wait cfg div 1000000)),
      req_read_count = cf_read_count cfg, req_stream_version = 0, req_stream_action = []\<rparr>"

definition request_actions :: "cli_action list" where
  "request_actions = [ActionRun, ActionList, ActionKill, ActionIdle, ActionSend, ActionText, ActionCommand, ActionKeys,
     ActionCtrlC, ActionRead, ActionFollow, ActionCreate, ActionClose]"

definition validateConfig :: "'f config \<Rightarrow> cli_error option" where
  "validateConfig cfg =
     (if cf_mode cfg = ModeServer then
        (if cf_max_pre_auth cfg < 0 then Some Negative_pre_auth
         else if cf_max_connections cfg < 0 \<or> cf_max_per_client cfg < 0 \<or> cf_max_targets cfg < 0
         then Some Negative_limits else None)
      else if cf_action cfg \<in> set request_actions then
        map_option Invalid_request_config (ValidateRequest (serverRequestFromConfig cfg))
      else None)"

definition validateParsedConfig :: "cli_error + 'f config \<Rightarrow> cli_error + 'f config" where
  "validateParsedConfig x =
     bind_err x (\<lambda>cfg.
       if cf_action cfg = ActionHelp then Inr cfg
       else (case validateConfig cfg of Some e \<Rightarrow> Inl e | None \<Rightarrow> Inr cfg))"

definition ParseLocal :: "'f cli_env \<Rightarrow> string list \<Rightarrow> cli_error + 'f config" where
  "ParseLocal env args =
     (let args = (if args \<noteq> [] \<and> hd args = ''local'' then tl args else args)
      in validateParsedConfig (bind_err (parse_local env args) (\<lambda>cfg. Inr (cfg\<lparr>cf_mode := ModeLocal\<rparr>))))"

definition ParseClient :: "'f cli_env \<Rightarrow> string list \<Rightarrow> cli_error + 'f config" where
  "ParseClient env args = validateParsedConfig (parseRemoteClient env args)"

definition ParseServer :: "'f cli_env \<Rightarrow> string list \<Rightarrow> cli_error + 'f config" where
  "ParseServer env args = validateParsedConfig (parse_server env args)"

definition Parse :: "'f cli_env \<Rightarrow> string list \<Rightarrow> cli_error + 'f config" where
  "Parse env args =
     (case args of
        [] \<Rightarrow> ParseLocal env args
      | a # rest \<Rightarrow>
          if a = ''local'' then ParseLocal env rest
          else if a = ''server'' then ParseServer env rest
          else if a = ''client'' then ParseClient env rest
          else ParseLocal env args)"

subsection \<open>What every way through the parser keeps\<close>

text \<open>
  A configuration that grew from one with action \<open>a\<close> and mode \<open>m\<close>: the action is \<open>a\<close> or help, a wait is
  never negative, and there is no wait when the output is followed.
\<close>

definition fresh_ok :: "cli_action \<Rightarrow> cli_mode \<Rightarrow> 'f config \<Rightarrow> bool" where
  "fresh_ok a m cfg \<longleftrightarrow> cf_action cfg = a \<and> cf_mode cfg = m \<and> cf_wait cfg = 0"

definition config_ok :: "cli_action \<Rightarrow> cli_mode \<Rightarrow> 'f config \<Rightarrow> bool" where
  "config_ok a m cfg \<longleftrightarrow> cf_action cfg \<in> {a, ActionHelp} \<and> cf_mode cfg = m \<and>
     0 \<le> cf_wait cfg \<and> (cf_follow cfg \<longrightarrow> cf_wait cfg = 0)"

lemma fresh_config_ok: "fresh_ok a m cfg \<Longrightarrow> config_ok a m cfg"
  by (simp add: fresh_ok_def config_ok_def)

lemma config_ok_help: "fresh_ok a m cfg \<Longrightarrow> config_ok a m (help_config cfg)"
  by (simp add: fresh_ok_def config_ok_def help_config_def)

lemma run_flags_keeps:
  assumes "run_flags name fs c args = Inr (c', rest)" "list_all (flag_keeps P) (map snd fs)" "P c"
  shows "P c'"
  using assms parse_flags_keeps [of fs c args c' rest P] by (simp add: run_flags_def split: sum.splits)

lemma applyTarget_keeps:
  assumes "applyTarget cfg t p = Inr cfg'" "config_ok a m cfg"
  shows "config_ok a m cfg'"
  using assms by (auto simp: applyTarget_def config_ok_def Let_def split: if_split_asm)

lemma applyTargetOnly_keeps: "applyTargetOnly cfg rest n = Inr cfg' \<Longrightarrow> config_ok a m cfg \<Longrightarrow> config_ok a m cfg'"
  by (auto simp: applyTargetOnly_def applyTarget_keeps split: if_split_asm)

lemma applyCommandTarget_keeps:
  assumes "applyCommandTarget cfg rest n = Inr cfg'" "config_ok a m cfg"
  shows "config_ok a m cfg'"
proof -
  obtain x where "applyTarget cfg (rest ! 0) False = Inr x" "cfg' = x\<lparr>cf_command := join '' '' (drop 1 rest)\<rparr>"
    using assms(1) by (auto simp: applyCommandTarget_def bind_err_Inr_iff split: if_split_asm)
  with applyTarget_keeps [OF _ assms(2)] show ?thesis by (fastforce simp: config_ok_def)
qed

lemma list_target_keeps: "list_target cfg rest = Inr cfg' \<Longrightarrow> config_ok a m cfg \<Longrightarrow> config_ok a m cfg'"
  by (auto simp: list_target_def applyTarget_keeps split: if_split_asm) (auto simp: config_ok_def no_target_def)

lemmas target_keeps = applyTarget_keeps applyTargetOnly_keeps applyCommandTarget_keeps list_target_keeps

lemma keeps_on_config: "flag_keeps P f \<Longrightarrow> flag_keeps (\<lambda>(cfg, w). P cfg) (on_config f)"
  by (cases f) (auto simp: on_config_def)

lemma keeps_flags:
  "flag_keeps (fresh_ok a m) (snd socket_flag)" "flag_keeps (fresh_ok a m) (snd follow_flag)"
  "flag_keeps (fresh_ok a m) (snd count_flag)" "flag_keeps (\<lambda>(cfg, w). P cfg) (snd wait_flag)"
  by (auto simp: socket_flag_def follow_flag_def count_flag_def wait_flag_def flag_keeps_string fresh_ok_def
      intro!: flag_keeps_int)

lemma help_or:
  assumes "(if hasHelpArg args then Inr (help_config cfg) else x) = Inr cfg'" "fresh_ok a m cfg"
    and "x = Inr cfg' \<Longrightarrow> config_ok a m cfg'"
  shows "config_ok a m cfg'"
  using assms config_ok_help by (cases "hasHelpArg args") auto

lemma flags_then:
  assumes "bind_err (run_flags name fs c args) k = Inr y" "P c" "list_all (flag_keeps P) (map snd fs)"
    and "\<And>c rest. P c \<Longrightarrow> k (c, rest) = Inr y \<Longrightarrow> Q"
  shows Q
proof -
  obtain c' rest where "run_flags name fs c args = Inr (c', rest)" "k (c', rest) = Inr y"
    using assms(1) unfolding bind_err_Inr_iff by auto
  with assms(4) show ?thesis using run_flags_keeps [OF _ assms(3,2)] by blast
qed

lemma parseWait_nonneg: "parseWait env w = Inr wait \<Longrightarrow> 0 \<le> wait"
  by (auto simp: parseWait_def Let_def split: if_split_asm option.split_asm)

lemma waited_ok:
  assumes "parseWait env w = Inr wait" "fresh_ok a m c" "\<not> cf_follow c"
  shows "config_ok a m (c\<lparr>cf_wait := wait\<rparr>)"
  using assms(2,3) parseWait_nonneg [OF assms(1)] by (simp add: fresh_ok_def config_ok_def)

text \<open>Every parser of an action.\<close>

lemma parse_input_keeps:
  assumes "parse_input env name cfg args = Inr cfg'" "fresh_ok a m cfg"
  shows "config_ok a m cfg'"
  using assms(1) unfolding parse_input_def
proof (rule help_or [OF _ assms(2)], elim flags_then [where P = "\<lambda>(cfg, w). fresh_ok a m cfg"])
  show "case (cfg\<lparr>cf_follow := False\<rparr>, []) of (cfg, w) \<Rightarrow> fresh_ok a m cfg" using assms(2) by (simp add: fresh_ok_def)
  show "list_all (flag_keeps (\<lambda>(cfg, w). fresh_ok a m cfg))
      (map snd [map_prod id on_config socket_flag, map_prod id on_config follow_flag, wait_flag])"
    by (simp add: keeps_flags keeps_on_config)
  fix cw rest
  assume c: "case cw of (cfg, w) \<Rightarrow> fresh_ok a m cfg"
    and k: "(\<lambda>((cfg, wait), rest).
       if cf_follow cfg \<and> wait \<noteq> [] then Inl (Follow_with_wait name)
       else if wait \<noteq> [] then bind_err (parseWait env wait) (\<lambda>w. applyCommandTarget (cfg\<lparr>cf_wait := w\<rparr>) rest name)
       else applyCommandTarget cfg rest name) (cw, rest) = Inr cfg'"
  obtain c w where cw: "cw = (c, w)" by fastforce
  show "config_ok a m cfg'"
  proof (cases "w = []")
    case True
    then show ?thesis using k c applyCommandTarget_keeps [OF _ fresh_config_ok] by (simp add: cw)
  next
    case False
    then have "\<not> cf_follow c" using k by (auto simp: cw)
    moreover from this False obtain wait where "parseWait env w = Inr wait"
        "applyCommandTarget (c\<lparr>cf_wait := wait\<rparr>) rest name = Inr cfg'"
      using k by (auto simp: cw bind_err_Inr_iff)
    ultimately show ?thesis using c waited_ok applyCommandTarget_keeps by (simp add: cw) blast
  qed
qed

lemma parseIdle_keeps:
  assumes "parseIdle env cfg args = Inr cfg'" "fresh_ok a m cfg" "\<not> cf_follow cfg"
  shows "config_ok a m cfg'"
  using assms(1) unfolding parseIdle_def
proof (rule help_or [OF _ assms(2)], elim flags_then [where P = "\<lambda>(cfg, w). fresh_ok a m cfg \<and> \<not> cf_follow cfg"])
  show "case (cfg, ''500ms'') of (cfg, w) \<Rightarrow> fresh_ok a m cfg \<and> \<not> cf_follow cfg" using assms(2,3) by simp
  show "list_all (flag_keeps (\<lambda>(cfg, w). fresh_ok a m cfg \<and> \<not> cf_follow cfg))
      (map snd [map_prod id on_config socket_flag, wait_flag])"
    by (simp add: socket_flag_def wait_flag_def on_config_def string_flag_def fresh_ok_def)
  fix cw rest
  assume c: "case cw of (cfg, w) \<Rightarrow> fresh_ok a m cfg \<and> \<not> cf_follow cfg"
    and k: "(\<lambda>((cfg, wait), rest).
       bind_err (parseWait env wait) (\<lambda>w. applyCommandTarget (cfg\<lparr>cf_wait := w\<rparr>) rest ''idle'')) (cw, rest) = Inr cfg'"
  obtain c w where cw: "cw = (c, w)" by fastforce
  from k obtain wait where "parseWait env w = Inr wait" "applyCommandTarget (c\<lparr>cf_wait := wait\<rparr>) rest ''idle'' = Inr cfg'"
    by (auto simp: cw bind_err_Inr_iff)
  then show "config_ok a m cfg'" using c waited_ok applyCommandTarget_keeps by (simp add: cw) blast
qed

lemma parseText_keeps:
  assumes "parseText cfg args = Inr cfg'" "fresh_ok a m cfg" shows "config_ok a m cfg'"
  using assms(1) unfolding parseText_def
  by (rule help_or [OF _ assms(2)], elim flags_then [where P = "fresh_ok a m"])
    (auto simp: assms(2) keeps_flags intro: applyCommandTarget_keeps fresh_config_ok)

lemma parseKill_keeps:
  assumes "parseKill cfg args = Inr cfg'" "fresh_ok a m cfg" shows "config_ok a m cfg'"
proof -
  have none: "fresh_ok a m c \<Longrightarrow> config_ok a m (c\<lparr>cf_session := [], cf_pane := [], cf_tab := []\<rparr>)" for c :: "'a config"
    by (simp add: config_ok_def fresh_ok_def)
  show ?thesis
    using assms(1) unfolding parseKill_def
    by (rule help_or [OF _ assms(2)], elim flags_then [where P = "fresh_ok a m"])
      (auto simp: assms(2) keeps_flags none intro: applyTarget_keeps fresh_config_ok split: list.split_asm)
qed

lemma parseRead_keeps:
  assumes "parseRead cfg args = Inr cfg'" "fresh_ok a m cfg" shows "config_ok a m cfg'"
proof -
  have "fresh_ok a m (cfg\<lparr>cf_read_count := 0\<rparr>)" using assms(2) by (simp add: fresh_ok_def)
  then show ?thesis
    using assms(1) unfolding parseRead_def
    by - (rule help_or [OF _ assms(2)], assumption, elim flags_then [where P = "fresh_ok a m"],
      auto simp: keeps_flags intro: applyTargetOnly_keeps fresh_config_ok split: if_split_asm)
qed

lemma parseFollow_keeps:
  assumes "parseFollow cfg args = Inr cfg'" "fresh_ok a m cfg" shows "config_ok a m cfg'"
proof -
  have "config_ok a m (cfg\<lparr>cf_follow := True\<rparr>)" using assms(2) by (simp add: fresh_ok_def config_ok_def)
  then show ?thesis
    using assms(1) unfolding parseFollow_def by - (rule help_or [OF _ assms(2)], assumption, rule applyTargetOnly_keeps)
qed

lemma parseTargetAction_keeps:
  assumes "parseTargetAction cfg args n = Inr cfg'" "fresh_ok a m cfg" shows "config_ok a m cfg'"
  using assms(1) unfolding parseTargetAction_def
  by (rule help_or [OF _ assms(2)], elim flags_then [where P = "fresh_ok a m"])
    (auto simp: assms(2) keeps_flags intro: applyTargetOnly_keeps fresh_config_ok)

text \<open>The three programs.\<close>

definition start_ok :: "cli_action \<Rightarrow> cli_mode \<Rightarrow> 'f config \<Rightarrow> bool" where
  "start_ok a m cfg \<longleftrightarrow> fresh_ok a m cfg \<and> \<not> cf_follow cfg"

lemma start_ok_action: "start_ok a m cfg \<Longrightarrow> start_ok b m (cfg\<lparr>cf_action := b\<rparr>)"
  by (simp add: start_ok_def fresh_ok_def)

lemma start_config_ok: "start_ok a m cfg \<Longrightarrow> config_ok a m cfg"
  by (simp add: start_ok_def fresh_config_ok)

lemma parsers_keep:
  assumes "start_ok a m cfg"
  shows "parseKill cfg args = Inr cfg' \<Longrightarrow> config_ok a m cfg'" "parseIdle env cfg args = Inr cfg' \<Longrightarrow> config_ok a m cfg'"
    "parseSend env cfg args = Inr cfg' \<Longrightarrow> config_ok a m cfg'" "parseText cfg args = Inr cfg' \<Longrightarrow> config_ok a m cfg'"
    "parseCommand env cfg args = Inr cfg' \<Longrightarrow> config_ok a m cfg'" "parseKeys env cfg args = Inr cfg' \<Longrightarrow> config_ok a m cfg'"
    "parseRead cfg args = Inr cfg' \<Longrightarrow> config_ok a m cfg'" "parseFollow cfg args = Inr cfg' \<Longrightarrow> config_ok a m cfg'"
    "parseTargetAction cfg args n = Inr cfg' \<Longrightarrow> config_ok a m cfg'"
    "applyTargetOnly cfg args n = Inr cfg' \<Longrightarrow> config_ok a m cfg'" "applyCommandTarget cfg args n = Inr cfg' \<Longrightarrow> config_ok a m cfg'"
    "list_target cfg args = Inr cfg' \<Longrightarrow> config_ok a m cfg'"
  using assms
  by (auto simp: start_ok_def parseSend_def parseCommand_def parseKeys_def
      intro: parseKill_keeps parseIdle_keeps parse_input_keeps parseText_keeps parseRead_keeps parseFollow_keeps
        parseTargetAction_keeps target_keeps fresh_config_ok)

definition local_outcomes :: "cli_action list" where
  "local_outcomes = ActionRun # map snd local_actions"

lemma late_action_keeps:
  assumes "late_action env cfg rest = Some (Inr cfg')" "start_ok a m cfg"
  shows "\<exists>b\<in>set local_outcomes. config_ok b m cfg'"
proof -
  obtain b where b: "map_of local_actions (hd rest) = Some b"
    using assms(1) by (auto simp: late_action_def split: option.split_asm)
  then have "b \<in> set local_outcomes" using map_of_SomeD [OF b] by (force simp: local_outcomes_def)
  moreover have s: "start_ok b m (cfg\<lparr>cf_action := b\<rparr>)" by (rule start_ok_action [OF assms(2)])
  have "config_ok b m cfg'"
    using assms(1) start_config_ok [OF s] parsers_keep [OF s]
    by (cases b) (simp_all add: late_action_def b Let_def split: if_split_asm)
  ultimately show ?thesis by blast
qed

lemma after_flags_keeps:
  assumes "after_flags env cfg rest = Inr cfg'" "start_ok a m cfg" "a \<in> set local_outcomes"
  shows "\<exists>b\<in>set local_outcomes. config_ok b m cfg'"
proof (cases "a = ActionRun \<and> rest \<noteq> [] \<and> late_action env cfg rest \<noteq> None")
  case True
  then have "late_action env cfg rest = Some (Inr cfg')"
    using assms(1,2) by (auto simp: after_flags_def start_ok_def fresh_ok_def)
  then show ?thesis using late_action_keeps assms(2) by blast
next
  case False
  have act: "cf_action cfg = a" using assms(2) by (simp add: start_ok_def fresh_ok_def)
  have "config_ok a m cfg'"
  proof (cases "a = ActionRun")
    case True
    note run = assms(1) [unfolded after_flags_def act]
    have cmd: "config_ok a m c \<Longrightarrow> config_ok a m (c\<lparr>cf_command := x\<rparr>)" for c :: "'a config" and x
      by (simp add: config_ok_def)
    show ?thesis
    proof (cases "2 \<le> length rest")
      case two: True
      then have "bind_err (applyTarget cfg (hd rest) False) (\<lambda>cfg. Inr (cfg\<lparr>cf_command := join '' '' (tl rest)\<rparr>)) = Inr cfg'"
        using run True False by (auto split: if_split_asm)
      then show ?thesis
        using cmd applyTarget_keeps [OF _ start_config_ok [OF assms(2)]] by (auto simp: bind_err_Inr_iff)
    next
      case one: False
      then have "cfg' = cfg\<lparr>cf_command := join '' '' rest\<rparr>" using run True False by (auto split: if_split_asm)
      then show ?thesis using cmd start_config_ok [OF assms(2)] by simp
    qed
  next
    case no_run: False
    then show ?thesis
      using assms(1) act parsers_keep(12) [OF assms(2)] start_config_ok [OF assms(2)]
      by (auto simp: after_flags_def split: if_split_asm)
  qed
  then show ?thesis using assms(3) by blast
qed

lemma target_flags_keep: "list_all (flag_keeps (start_ok a m)) (map snd target_flags)"
  by (simp add: target_flags_def socket_flag_def flag_keeps_string start_ok_def fresh_ok_def)

lemma parse_local_keeps:
  assumes "parse_local env args = Inr cfg"
  shows "\<exists>b\<in>set local_outcomes. config_ok b No_mode cfg"
proof -
  let ?c = "(empty_config (ce_zero_float env))
    \<lparr>cf_action := ActionRun, cf_session := ''default'', cf_pane := ''default'', cf_tab := ''default''\<rparr>"
  have start: "start_ok ActionRun No_mode ?c" by (simp add: start_ok_def fresh_ok_def empty_config_def)
  have run: "ActionRun \<in> set local_outcomes" by (simp add: local_outcomes_def)
  show ?thesis
  proof (cases "args \<noteq> [] \<and> isHelpArg (hd args)")
    case True
    then have "cfg = help_config ?c" using assms by (simp add: parse_local_def)
    then show ?thesis using run config_ok_help [of ActionRun No_mode ?c] start by (auto simp: start_ok_def)
  next
    case False
    define x where "x = (case args of [] \<Rightarrow> (ActionRun, [])
        | a # rest \<Rightarrow> (case map_of local_actions a of Some action \<Rightarrow> (action, rest) | None \<Rightarrow> (ActionRun, args)))"
    obtain b rest where b: "x = (b, rest)" by fastforce
    have member: "b \<in> set local_outcomes"
      using b run by (auto simp: x_def local_outcomes_def split: list.split_asm option.split_asm dest!: map_of_SomeD
          intro: rev_image_eqI)
    define c where "c = ?c\<lparr>cf_action := b\<rparr>"
    have s: "start_ok b No_mode c" unfolding c_def by (rule start_ok_action [OF start])
    have body: "(case b of ActionHelp \<Rightarrow> Inr c
         | ActionKill \<Rightarrow> parseKill c rest
         | ActionSend \<Rightarrow> parseSend env c rest
         | ActionText \<Rightarrow> parseText c rest
         | ActionCommand \<Rightarrow> parseCommand env c rest
         | ActionKeys \<Rightarrow> parseKeys env c rest
         | ActionIdle \<Rightarrow> parseIdle env c rest
         | ActionRead \<Rightarrow> parseRead c rest
         | ActionFollow \<Rightarrow> parseFollow c rest
         | ActionCtrlC \<Rightarrow> parseTargetAction c rest ''ctrl-c''
         | _ \<Rightarrow> bind_err (run_flags ''ptymux'' target_flags c rest)
             (\<lambda>(cfg, rest). after_flags env cfg rest)) = Inr cfg"
      using assms False b unfolding parse_local_def Let_def x_def c_def by (simp only: if_False split_conv)
    have flags: "\<exists>b\<in>set local_outcomes. config_ok b No_mode cfg"
      if "bind_err (run_flags ''ptymux'' target_flags c rest) (\<lambda>(cfg, rest). after_flags env cfg rest) = Inr cfg"
      using that by (rule flags_then [OF _ s target_flags_keep]) (use after_flags_keeps member in auto)
    have "config_ok b No_mode cfg \<or> bind_err (run_flags ''ptymux'' target_flags c rest)
        (\<lambda>(cfg, rest). after_flags env cfg rest) = Inr cfg"
      using body s start_config_ok [OF s] by (cases b; simp only: cli_action.case) (auto intro: parsers_keep)
    then show ?thesis using member flags by blast
  qed
qed

lemma connection_option_keeps:
  assumes "map_of connection_options name = Some f" "start_ok a m cfg"
  shows "start_ok a m (f v cfg)"
proof -
  have "list_all (\<lambda>(n, f). start_ok a m (f v cfg)) connection_options"
    using assms(2) by (simp add: connection_options_def start_ok_def fresh_ok_def)
  then show ?thesis using map_of_SomeD [OF assms(1)] by (fastforce simp: list_all_iff)
qed

lemma extract_options_keeps:
  fixes cfg cfg' :: "'f config"
  shows "extract_options cfg operation consumed remaining args = Inr (cfg', rest) \<Longrightarrow> start_ok a m cfg \<Longrightarrow> start_ok a m cfg'"
proof (induction "length args" arbitrary: cfg operation consumed remaining args rule: less_induct)
  case less
  show ?case
  proof (cases args)
    case (Cons arg as)
    note eq = less.prems(1) [unfolded Cons extract_options.simps]
    have IH: "start_ok a m cfg'"
      if "extract_options c op k r as' = Inr (cfg', rest)" "start_ok a m c" "length as' < length args" for c op k r as'
      using less.hyps [OF that(3,1,2)] .
    obtain name val where nv: "cut_equals arg = (name, val)" by fastforce
    consider (stop) "arg = ''--''" | (payload) "arg \<noteq> ''--''" "operation \<noteq> [] \<and> remoteOperationHasPayload operation \<and> consumed"
      | (option) "arg \<noteq> ''--''" "\<not> (operation \<noteq> [] \<and> remoteOperationHasPayload operation \<and> consumed)" by blast
    then show ?thesis
    proof cases
      case stop
      then show ?thesis using eq less.prems(2) by simp
    next
      case payload
      then show ?thesis using eq IH [OF _ less.prems(2)] Cons by simp
    next
      case option
      show ?thesis
      proof (cases "map_of (connection_options :: (string \<times> (string \<Rightarrow> 'f config \<Rightarrow> 'f config)) list) name")
        case None
        then obtain op k where "extract_options cfg op k (remaining @ [arg]) as = Inr (cfg', rest)"
          using eq option nv by (simp split: if_split_asm)
        then show ?thesis using IH [OF _ less.prems(2)] Cons by simp
      next
        case (Some f)
        have keeps: "start_ok a m c" if "set_option name v f cfg = Inr c" for v c
          using that connection_option_keeps [OF Some less.prems(2)] by (auto simp: set_option_def split: if_split_asm)
        obtain v c as' where "set_option name v f cfg = Inr c" "extract_options c operation consumed remaining as' = Inr (cfg', rest)"
          "length as' < length args"
          using eq option nv Some Cons by (cases val; cases as) (auto simp: bind_err_Inr_iff simp del: extract_options.simps(2))
        then show ?thesis using IH keeps by blast
      qed
    qed
  qed (use less.prems in simp)
qed

definition client_outcomes :: "cli_action list" where
  "client_outcomes = [ActionRegister, ActionRotate, ActionRevoke, ActionCreate, ActionClose, ActionList, ActionSend,
     ActionText, ActionKeys, ActionRead, ActionFollow]"

lemma remote_operation_keeps:
  assumes "remote_operation cfg operation args = Inr cfg'" "start_ok a m cfg"
  shows "\<exists>b\<in>set client_outcomes. config_ok b m cfg'"
proof -
  note s = start_ok_action [OF assms(2)]
  have read: "config_ok ActionRead m cfg'"
    if "bind_err (run_flags ''client read'' [count_flag] (cfg\<lparr>cf_action := ActionRead, cf_read_count := 0\<rparr>) args)
         (\<lambda>(cfg, rest). if cf_read_count cfg < 0 then Inl Negative_read_count else applyTargetOnly cfg rest operation) = Inr cfg'"
    using that
  proof (rule flags_then [where P = "fresh_ok ActionRead m"])
    show "fresh_ok ActionRead m (cfg\<lparr>cf_action := ActionRead, cf_read_count := 0\<rparr>)"
      using assms(2) by (simp add: start_ok_def fresh_ok_def)
  qed (auto simp: keeps_flags intro: applyTargetOnly_keeps fresh_config_ok split: if_split_asm)
  have follow: "config_ok ActionFollow m (cfg\<lparr>cf_action := ActionFollow, cf_follow := True\<rparr>)"
    using assms(2) by (simp add: start_ok_def fresh_ok_def config_ok_def)
  show ?thesis
    using assms(1) parsers_keep(10-12) [OF s] start_config_ok [OF s] read applyTargetOnly_keeps [OF _ follow]
    unfolding remote_operation_def Let_def client_outcomes_def
    by (simp only: split: if_split_asm) (simp_all, (blast | metis)+)
qed

lemma parseRemoteClient_keeps:
  assumes "parseRemoteClient env args = Inr cfg"
  shows "\<exists>b\<in>set (ActionHelp # client_outcomes). config_ok b ModeClient cfg"
proof -
  let ?c = "(empty_config (ce_zero_float env))
    \<lparr>cf_mode := ModeClient, cf_session := ''default'', cf_pane := ''default'', cf_tab := ''default''\<rparr>"
  have c: "start_ok No_action ModeClient ?c" by (simp add: start_ok_def fresh_ok_def empty_config_def)
  have helped: "config_ok ActionHelp ModeClient (help_config c)" if "start_ok No_action ModeClient c" for c :: "'a config"
    using that by (simp add: start_ok_def fresh_ok_def config_ok_def help_config_def)
  show ?thesis
  proof (cases "args = [] \<or> hasHelpArg args \<or> hd args = ''help''")
    case True
    then have "cfg = help_config ?c" using assms by (simp add: parseRemoteClient_def Let_def)
    then show ?thesis using helped [OF c] by auto
  next
    case False
    then obtain c1 remaining where x: "extractRemoteOptions ?c args = Inr (c1, remaining)"
      and "(case remaining of [] \<Rightarrow> Inl Client_requires_operation
         | first # rest \<Rightarrow>
           (case (if isRemoteOperation first then (c1, remaining) else (c1\<lparr>cf_alias := first\<rparr>, rest)) of
              (cfg, []) \<Rightarrow> Inl Alias_requires_operation
            | (cfg, operation # operationArgs) \<Rightarrow>
                if \<not> isRemoteOperation operation then Inl (Unknown_operation operation)
                else if hasHelpArg operationArgs then Inr (help_config cfg)
                else remote_operation cfg operation operationArgs)) = Inr cfg"
      using assms unfolding parseRemoteClient_def Let_def by (auto simp: bind_err_Inr_iff)
    then obtain first rest where r: "remaining = first # rest"
      and k: "(case (if isRemoteOperation first then (c1, first # rest) else (c1\<lparr>cf_alias := first\<rparr>, rest)) of
          (cfg, []) \<Rightarrow> Inl Alias_requires_operation
        | (cfg, operation # operationArgs) \<Rightarrow>
            if \<not> isRemoteOperation operation then Inl (Unknown_operation operation)
            else if hasHelpArg operationArgs then Inr (help_config cfg)
            else remote_operation cfg operation operationArgs) = Inr cfg"
      by (cases remaining) (simp_all cong del: if_weak_cong)
    have "start_ok No_action ModeClient c1"
      using x extract_options_keeps [OF _ c] by (auto simp: extractRemoteOptions_def bind_err_Inr_iff split: if_split_asm)
    then have c2: "start_ok No_action ModeClient (if isRemoteOperation first then c1 else c1\<lparr>cf_alias := first\<rparr>)"
      by (simp add: start_ok_def fresh_ok_def)
    define c2' where "c2' = (if isRemoteOperation first then c1 else c1\<lparr>cf_alias := first\<rparr>)"
    have "cfg = help_config c2' \<or> (\<exists>op args'. remote_operation c2' op args' = Inr cfg)"
      using k by (cases rest) (auto simp: c2'_def split: if_split_asm)
    then show ?thesis
      using remote_operation_keeps [OF _ c2 [folded c2'_def]] helped [OF c2 [folded c2'_def]] by auto
  qed
qed

lemma parse_server_keeps:
  assumes "parse_server env args = Inr cfg"
  shows "cf_mode cfg = ModeServer \<and> cf_action cfg \<in> {No_action, ActionHelp} \<and> cf_wait cfg = 0 \<and> \<not> cf_follow cfg"
proof -
  let ?P = "\<lambda>cfg. cf_mode cfg = ModeServer \<and> cf_action cfg = No_action \<and> cf_wait cfg = 0 \<and> \<not> cf_follow cfg"
  have paths: "?P c \<Longrightarrow> applyServerPathDefaults env c = Inr cfg \<Longrightarrow> ?P cfg" for c
    by (auto simp: applyServerPathDefaults_def Let_def split: if_split_asm option.split_asm)
  have flags: "list_all (flag_keeps ?P) (map snd (server_flags env))"
    by (auto simp: server_flags_def flag_keeps_string intro!: flag_keeps_int)
  show ?thesis
  proof (cases "hasHelpArg args")
    case True
    then show ?thesis using assms by (auto simp: parse_server_def Let_def help_config_def empty_config_def)
  next
    case False
    then show ?thesis
      using assms unfolding parse_server_def Let_def
      by - (simp only: if_False, elim flags_then [where P = ?P], simp add: empty_config_def, rule flags,
        use paths in \<open>fastforce split: if_split_asm\<close>)
  qed
qed

subsection \<open>Input reaches the server as typed\<close>

text \<open>A complete target path: the target it denotes.\<close>

lemma applyTarget_path:
  assumes "target_ok s p t"
  shows "applyTarget cfg (join ''/'' [s, p, t]) partial = Inr (cfg\<lparr>cf_session := s, cf_pane := p, cf_tab := t\<rparr>)"
proof -
  have "s \<noteq> []" "p \<noteq> []" "t \<noteq> []" using assms by (auto simp: target_ok_def component_ok_def)
  then have n: "\<not> (3 < length [s, p, t] \<or> list_ex (\<lambda>p. p = []) [s, p, t])" by simp
  have i: "[s, p, t] ! 0 = s" "[s, p, t] ! 1 = p" "[s, p, t] ! 2 = t" "2 \<le> length [s, p, t]" "3 \<le> length [s, p, t]"
    by simp_all
  show ?thesis
    unfolding applyTarget_def Let_def target_path_split [OF assms] by (simp only: n i if_False if_True)
qed

lemma hasHelpArg_iff: "hasHelpArg args \<longleftrightarrow> (\<exists>a\<in>set args. isHelpArg a)"
  by (induction args) auto

lemma path_hd:
  assumes "s \<noteq> []"
  shows "join ''/'' [s, p, t] \<noteq> []" "hd (join ''/'' [s, p, t]) = hd s"
  using assms by simp_all

lemma dash_words:
  "x \<noteq> [] \<Longrightarrow> hd x \<noteq> CHR ''-'' \<Longrightarrow> \<not> isHelpArg x" "x \<noteq> [] \<Longrightarrow> hd x \<noteq> CHR ''-'' \<Longrightarrow> x \<noteq> ''--''"
  by (auto simp: isHelpArg_def)

definition input_config ::
  "'f config \<Rightarrow> string \<Rightarrow> string \<Rightarrow> string \<Rightarrow> string list \<Rightarrow> 'f config" where
  "input_config cfg s p t ws = cfg\<lparr>cf_session := s, cf_pane := p, cf_tab := t, cf_command := join '' '' ws\<rparr>"

lemma applyCommandTarget_path:
  assumes "target_ok s p t" "ws \<noteq> []"
  shows "applyCommandTarget cfg (join ''/'' [s, p, t] # ws) n = Inr (input_config cfg s p t ws)"
  using assms(2) by (cases ws) (simp_all add: applyCommandTarget_def input_config_def applyTarget_path [OF assms(1)] del: join.simps)

lemma run_flags_positional:
  "args \<noteq> [] \<Longrightarrow> hd args \<noteq> [] \<Longrightarrow> hd (hd args) \<noteq> CHR ''-'' \<Longrightarrow> run_flags n fs c args = Inr (c, args)"
  by (simp add: run_flags_def parse_flags_positional hd_conv_nth)

lemma input_parsers:
  assumes "target_ok s p t" "hd s \<noteq> CHR ''-''" "ws \<noteq> []" "\<not> hasHelpArg ws"
  shows "parse_input env n cfg (join ''/'' [s, p, t] # ws) = Inr (input_config (cfg\<lparr>cf_follow := False\<rparr>) s p t ws)"
    "parseText cfg (join ''/'' [s, p, t] # ws) = Inr (input_config cfg s p t ws)"
proof -
  have s: "s \<noteq> []" using assms(1) by (simp add: target_ok_def component_ok_def)
  have h: "\<not> hasHelpArg (join ''/'' [s, p, t] # ws)"
    using dash_words(1) [OF path_hd(1) [OF s]] path_hd(2) [OF s] assms(2,4) by (simp del: join.simps)
  have f: "run_flags n fs c (join ''/'' [s, p, t] # ws) = Inr (c, join ''/'' [s, p, t] # ws)" for n fs and c :: 'x
    using run_flags_positional [of "join ''/'' [s, p, t] # ws"] path_hd [OF s] assms(2) by (simp del: join.simps)
  show "parse_input env n cfg (join ''/'' [s, p, t] # ws) = Inr (input_config (cfg\<lparr>cf_follow := False\<rparr>) s p t ws)"
    using h by (simp add: parse_input_def f applyCommandTarget_path [OF assms(1,3)] del: join.simps hasHelpArg.simps)
  show "parseText cfg (join ''/'' [s, p, t] # ws) = Inr (input_config cfg s p t ws)"
    using h by (simp add: parseText_def f applyCommandTarget_path [OF assms(1,3)] del: join.simps hasHelpArg.simps)
qed

lemma ValidateRequest_complete:
  assumes "req_action req \<in> set target_actions" "target_ok (req_session req) (req_pane req) (req_tab req)"
    and "valid_utf8 (req_command req)" "length (req_command req) \<le> 131072" "0 \<le> req_read_count req"
    and "req_read_count req \<le> 4096" "0 \<le> req_wait_millis req"
  shows "ValidateRequest req = None"
proof -
  have a: "ValidateAction a = None" if "a \<in> set target_actions" for a
  proof -
    have "list_all (\<lambda>a. ValidateAction a = None) target_actions"
      by (simp add: target_actions_def ValidateAction_def valid_utf8_ascii bound_simps rune_error_def)
    then show ?thesis using that by (simp add: list_all_iff)
  qed
  have d: "x \<notin> set [''daemon'', ''stop'']" "x \<noteq> ''list''" "x \<noteq> ''kill''" if "x \<in> set target_actions" for x
    using that by (auto simp: target_actions_def)
  show ?thesis
    unfolding ValidateRequest_def
    using assms a [OF assms(1)] d [OF assms(1)]
    by (simp add: ValidateCommand_def ValidateReadCount_def bound_simps ValidateCompleteTarget_iff)
qed

text \<open>The request that an input of the words \<open>ws\<close> to a target asks for.\<close>

definition input_request :: "string \<Rightarrow> string \<Rightarrow> string \<Rightarrow> string \<Rightarrow> string list \<Rightarrow> request" where
  "input_request a s p t ws =
     \<lparr>req_action = a, req_session = s, req_pane = p, req_tab = t, req_command = join '' '' ws, req_follow = False,
      req_wait_millis = 0, req_read_count = 0, req_stream_version = 0, req_stream_action = []\<rparr>"

definition blank_config :: "'f config \<Rightarrow> bool" where
  "blank_config cfg \<longleftrightarrow> \<not> cf_follow cfg \<and> cf_wait cfg = 0 \<and> cf_read_count cfg = 0"

lemma input_config_request:
  "blank_config cfg \<Longrightarrow> serverRequestFromConfig (input_config cfg s p t ws) = input_request (action_name (cf_action cfg)) s p t ws"
  by (simp add: blank_config_def serverRequestFromConfig_def input_config_def input_request_def)

lemma input_validated:
  assumes "blank_config cfg" "cf_mode cfg \<noteq> ModeServer" "cf_action cfg \<in> {ActionSend, ActionText, ActionCommand, ActionKeys}"
    and "target_ok s p t" "valid_utf8 (join '' '' ws)" "length (join '' '' ws) \<le> 131072"
  shows "validateParsedConfig (Inr (input_config cfg s p t ws)) = Inr (input_config cfg s p t ws)"
proof -
  have n: "action_name (cf_action cfg) \<in> set target_actions" "cf_action cfg \<noteq> ActionHelp"
    using assms(3) by (auto simp: target_actions_def)
  have "ValidateRequest (serverRequestFromConfig (input_config cfg s p t ws)) = None"
    unfolding input_config_request [OF assms(1)]
    by (rule ValidateRequest_complete) (use n assms in \<open>simp_all add: input_request_def\<close>)
  moreover have "cf_mode (input_config cfg s p t ws) = cf_mode cfg" "cf_action (input_config cfg s p t ws) = cf_action cfg"
    by (simp_all add: input_config_def)
  ultimately show ?thesis
    using n(2) assms(2) by (simp add: validateParsedConfig_def validateConfig_def)
qed

text \<open>In the arguments of the client, the first \<open>--\<close> is removed wherever it stands.\<close>

definition drop_dashes :: "string list \<Rightarrow> string list" where
  "drop_dashes ws = takeWhile (\<lambda>w. w \<noteq> ''--'') ws @ drop 1 (dropWhile (\<lambda>w. w \<noteq> ''--'') ws)"

lemma extract_payload:
  "operation \<noteq> [] \<Longrightarrow> remoteOperationHasPayload operation \<Longrightarrow>
   extract_options cfg operation True remaining ws = Inr (cfg, remaining @ drop_dashes ws)"
  by (induction ws arbitrary: remaining) (simp_all add: drop_dashes_def)

lemma extract_input:
  fixes cfg :: "'f config"
  assumes "operation \<in> {''send'', ''text'', ''keys''}" "path \<noteq> []" "hd path \<noteq> CHR ''-''"
  shows "extract_options cfg [] False [] (operation # path # ws) = Inr (cfg, operation # path # drop_dashes ws)"
proof -
  have n: "map_of (connection_options :: (string \<times> (string \<Rightarrow> 'f config \<Rightarrow> 'f config)) list) (fst (cut_equals x)) = None" if "x \<noteq> []" "hd x \<noteq> CHR ''-''" for x
  proof -
    obtain c cs where x: "x = c # cs" using \<open>x \<noteq> []\<close> by (cases x) auto
    have c: "c \<noteq> CHR ''-''" using that(2) x by simp
    have "fst (cut_equals x) = [] \<or> (\<exists>ns. fst (cut_equals x) = c # ns)" by (auto simp: x split: prod.splits)
    then show ?thesis using c by (auto simp: connection_options_def)
  qed
  have o: "operation \<noteq> []" "remoteOperationHasPayload operation" "isRemoteOperation operation" "hd operation \<noteq> CHR ''-''"
    using assms(1) by (auto simp: remoteOperationHasPayload_def isRemoteOperation_def remote_operations_def)
  note d = dash_words(2) [OF o(1,4)] dash_words(2) [OF assms(2,3)]
  obtain a b where ab: "cut_equals operation = (a, b)" by fastforce
  obtain a' b' where ab': "cut_equals path = (a', b')" by fastforce
  show ?thesis
    using o d n [OF o(1,4)] n [OF assms(2,3)] ab ab' by (simp add: extract_payload)
qed

text \<open>A wait below a millisecond is accepted by \<open>parseWait\<close>, but it is no wait in the request.\<close>

lemma short_wait_lost:
  assumes "parseWait env v = Inr w" "w < 1000000"
  shows "req_wait_millis (serverRequestFromConfig (cfg\<lparr>cf_wait := w\<rparr>)) = 0"
  using parseWait_nonneg [OF assms(1)] assms(2) by (simp add: serverRequestFromConfig_def)

subsection \<open>Properties\<close>

text \<open>C27: Every configuration that \<open>Parse\<close> returns is consistent. Its mode is one of the three programs
and its action one that the program has: for the local program all but the actions of a remote client, for the client
the eight operations and registration, rotation and revocation; a server has none but help. It never has a negative
wait, nor a wait together with following the output; the limits of a server are not negative; and for every action
but help, starting and stopping the daemon, registration, rotation and revocation the request that is built from it
for the daemon or the remote server passes the validation of the server.\<close>

lemma parse_well_formed:
  fixes cfg :: "'f config"
  assumes "Parse env args = Inr cfg"
  shows "(case cf_mode cfg of
      ModeLocal \<Rightarrow> cf_action cfg \<in> {ActionHelp, ActionRun, ActionDaemon, ActionList, ActionKill, ActionStop, ActionIdle,
        ActionSend, ActionText, ActionCommand, ActionKeys, ActionCtrlC, ActionRead, ActionFollow}
    | ModeClient \<Rightarrow> cf_action cfg \<in> {ActionHelp, ActionRegister, ActionRotate, ActionRevoke, ActionCreate, ActionClose,
        ActionList, ActionSend, ActionText, ActionKeys, ActionRead, ActionFollow}
    | ModeServer \<Rightarrow> cf_action cfg \<in> {No_action, ActionHelp}
    | No_mode \<Rightarrow> False) \<and>
    0 \<le> cf_wait cfg \<and> (cf_follow cfg \<longrightarrow> cf_wait cfg = 0) \<and>
    (cf_mode cfg = ModeServer \<and> cf_action cfg \<noteq> ActionHelp \<longrightarrow>
      0 \<le> cf_max_pre_auth cfg \<and> 0 \<le> cf_max_connections cfg \<and> 0 \<le> cf_max_per_client cfg \<and> 0 \<le> cf_max_targets cfg) \<and>
    (cf_action cfg \<notin> {No_action, ActionHelp, ActionDaemon, ActionStop, ActionRegister, ActionRotate, ActionRevoke} \<longrightarrow>
      ValidateRequest (serverRequestFromConfig cfg) = None)"
proof (intro conjI impI)
  let ?lc = "(\<exists>b\<in>set local_outcomes. config_ok b ModeLocal cfg) \<or> (\<exists>b\<in>set (ActionHelp # client_outcomes). config_ok b ModeClient cfg)"
  let ?sv = "cf_mode cfg = ModeServer \<and> cf_action cfg \<in> {No_action, ActionHelp} \<and> cf_wait cfg = 0 \<and> \<not> cf_follow cfg"
  have valid: "x = Inr cfg \<and> (cf_action cfg = ActionHelp \<or> validateConfig cfg = None)" if "validateParsedConfig x = Inr cfg" for x
    using that by (auto simp: validateParsedConfig_def bind_err_Inr_iff split: if_split_asm option.split_asm)
  have loc: "\<exists>b\<in>set local_outcomes. config_ok b ModeLocal cfg"
    if "bind_err (parse_local env xs) (\<lambda>cfg. Inr (cfg\<lparr>cf_mode := ModeLocal\<rparr>)) = Inr cfg" for xs
    using that parse_local_keeps [of env xs] by (fastforce simp: bind_err_Inr_iff config_ok_def)
  have rc: "\<exists>b\<in>set (ActionHelp # client_outcomes). config_ok b ModeClient cfg" if "parseRemoteClient env xs = Inr cfg" for xs
    by (rule parseRemoteClient_keeps [OF that])
  have sv: ?sv if "parse_server env xs = Inr cfg" for xs by (rule parse_server_keeps [OF that])
  have "(?lc \<or> ?sv) \<and> (cf_action cfg = ActionHelp \<or> validateConfig cfg = None)"
    using assms
    by (cases args) (auto simp: Parse_def ParseLocal_def ParseClient_def ParseServer_def Let_def
        simp del: list.set split: if_split_asm dest!: valid dest: loc rc sv)
  then have w: "?lc \<or> ?sv" and v: "cf_action cfg = ActionHelp \<or> validateConfig cfg = None" by auto
  show "case cf_mode cfg of
      ModeLocal \<Rightarrow> cf_action cfg \<in> {ActionHelp, ActionRun, ActionDaemon, ActionList, ActionKill, ActionStop, ActionIdle,
        ActionSend, ActionText, ActionCommand, ActionKeys, ActionCtrlC, ActionRead, ActionFollow}
    | ModeClient \<Rightarrow> cf_action cfg \<in> {ActionHelp, ActionRegister, ActionRotate, ActionRevoke, ActionCreate, ActionClose,
        ActionList, ActionSend, ActionText, ActionKeys, ActionRead, ActionFollow}
    | ModeServer \<Rightarrow> cf_action cfg \<in> {No_action, ActionHelp} | No_mode \<Rightarrow> False"
    using w by (auto simp: config_ok_def local_outcomes_def local_actions_def client_outcomes_def)
  show "0 \<le> cf_wait cfg" using w by (auto simp: config_ok_def)
  show "cf_wait cfg = 0" if "cf_follow cfg" using w that by (auto simp: config_ok_def)
  {
    assume "cf_mode cfg = ModeServer \<and> cf_action cfg \<noteq> ActionHelp"
    with v have "0 \<le> cf_max_pre_auth cfg \<and> 0 \<le> cf_max_connections cfg \<and> 0 \<le> cf_max_per_client cfg \<and> 0 \<le> cf_max_targets cfg"
      by (auto simp: validateConfig_def split: if_split_asm)
  }
  then show "0 \<le> cf_max_pre_auth cfg" "0 \<le> cf_max_connections cfg" "0 \<le> cf_max_per_client cfg" "0 \<le> cf_max_targets cfg"
    if "cf_mode cfg = ModeServer \<and> cf_action cfg \<noteq> ActionHelp" using that by blast+
  show "ValidateRequest (serverRequestFromConfig cfg) = None"
    if a: "cf_action cfg \<notin> {No_action, ActionHelp, ActionDaemon, ActionStop, ActionRegister, ActionRotate, ActionRevoke}"
  proof -
    have "cf_action cfg \<in> set request_actions" using a by (cases "cf_action cfg") (simp_all add: request_actions_def)
    moreover have "cf_action cfg \<noteq> ActionHelp" "cf_action cfg \<noteq> No_action" using a by auto
    moreover from this have "cf_mode cfg \<noteq> ModeServer" using w by (auto simp: config_ok_def)
    ultimately show ?thesis using v by (simp add: validateConfig_def)
  qed
qed

text \<open>What is typed reaches the daemon: \<open>send\<close>, \<open>text\<close>, \<open>command\<close> and \<open>keys\<close> with a valid target path
that does not begin with a dash and words that are not help options make exactly the request for this
target with the words joined by blanks, whatever else the words are, options and \<open>--\<close> included.\<close>

lemma local_input_verbatim:
  assumes "target_ok s p t" "hd s \<noteq> CHR ''-''" "ws \<noteq> []" "\<not> hasHelpArg ws"
    and "valid_utf8 (join '' '' ws)" "length (join '' '' ws) \<le> 131072"
    and "(w, a) \<in> {(''send'', ActionSend), (''text'', ActionText), (''command'', ActionCommand), (''keys'', ActionKeys)}"
  shows "\<exists>cfg. ParseLocal env (w # join ''/'' [s, p, t] # ws) = Inr cfg \<and> cf_mode cfg = ModeLocal \<and> cf_action cfg = a \<and>
    serverRequestFromConfig cfg = input_request w s p t ws"
proof -
  let ?c = "(empty_config (ce_zero_float env))
    \<lparr>cf_session := ''default'', cf_pane := ''default'', cf_tab := ''default'', cf_action := a\<rparr>"
  let ?l = "?c\<lparr>cf_mode := ModeLocal\<rparr>"
  have c: "blank_config ?l" "cf_mode ?l = ModeLocal" "cf_action ?l = a" "action_name a = w" "?c\<lparr>cf_follow := False\<rparr> = ?c"
    "a \<in> {ActionSend, ActionText, ActionCommand, ActionKeys}"
    using assms(7) by (auto simp: blank_config_def empty_config_def)
  have pl: "parse_local env (w # join ''/'' [s, p, t] # ws) = Inr (input_config ?c s p t ws)"
    using assms(7) c(5)
    by (auto simp: parse_local_def local_actions_def isHelpArg_def parseSend_def parseCommand_def parseKeys_def
        input_parsers [OF assms(1-4)] simp del: join.simps)
  have m: "(input_config ?c s p t ws)\<lparr>cf_mode := ModeLocal\<rparr> = input_config ?l s p t ws"
    by (simp add: input_config_def)
  have w: "w \<noteq> ''local''" using assms(7) by auto
  have v: "validateParsedConfig (Inr (input_config ?l s p t ws)) = Inr (input_config ?l s p t ws)"
    using c(6) by (intro input_validated [OF c(1) _ _ assms(1,5,6)]) simp_all
  have "ParseLocal env (w # join ''/'' [s, p, t] # ws) = Inr (input_config ?l s p t ws)"
    using w by (simp add: ParseLocal_def pl m v del: join.simps)
  moreover have "serverRequestFromConfig (input_config ?l s p t ws) = input_request w s p t ws"
    unfolding input_config_request [OF c(1)] c(3,4) ..
  moreover have "cf_mode (input_config ?l s p t ws) = ModeLocal" "cf_action (input_config ?l s p t ws) = a"
    by (simp_all add: input_config_def)
  ultimately show ?thesis by blast
qed

text \<open>The client sends the words after the target without reading options in them, but it removes the
first \<open>--\<close> among them, so that \<open>send work git checkout -- file\<close> runs another command on the remote target
than on a local one.\<close>

lemma remote_input_loses_dashes:
  fixes env :: "'f cli_env"
  assumes "target_ok s p t" "hd s \<noteq> CHR ''-''" "drop_dashes ws \<noteq> []" "\<not> hasHelpArg ws"
    and "valid_utf8 (join '' '' (drop_dashes ws))" "length (join '' '' (drop_dashes ws)) \<le> 131072"
    and "(w, a) \<in> {(''send'', ActionSend), (''text'', ActionText), (''keys'', ActionKeys)}"
  shows "\<exists>cfg. ParseClient env (w # join ''/'' [s, p, t] # ws) = Inr cfg \<and> cf_mode cfg = ModeClient \<and> cf_action cfg = a \<and>
    serverRequestFromConfig cfg = input_request w s p t (drop_dashes ws)"
proof -
  let ?c = "(empty_config (ce_zero_float env))
    \<lparr>cf_mode := ModeClient, cf_session := ''default'', cf_pane := ''default'', cf_tab := ''default''\<rparr>"
  let ?p = "join ''/'' [s, p, t]"
  let ?l = "?c\<lparr>cf_action := a\<rparr>"
  have s: "s \<noteq> []" using assms(1) by (simp add: target_ok_def component_ok_def)
  note path = path_hd [OF s, of p t]
  have wop: "w \<in> {''send'', ''text'', ''keys''}" "isRemoteOperation w" "\<not> isHelpArg w" "w \<noteq> ''help''"
    using assms(7) by (auto simp: isRemoteOperation_def remote_operations_def isHelpArg_def)
  have ph: "\<not> isHelpArg ?p" using dash_words(1) [OF path(1)] path(2) assms(2) by simp
  have "set (drop_dashes ws) \<subseteq> set ws"
    by (auto simp: drop_dashes_def dest: set_takeWhileD in_set_dropD set_dropWhileD)
  then have nh: "\<not> hasHelpArg (w # ?p # ws)" "\<not> hasHelpArg (?p # drop_dashes ws)"
    using assms(4) wop(3) ph by (auto simp: hasHelpArg_iff simp del: join.simps)
  have x: "extractRemoteOptions ?c (w # ?p # ws) = Inr (?c, w # ?p # drop_dashes ws)"
    using extract_input [OF wop(1) path(1), of ?c ws] path(2) assms(2)
    by (simp add: extractRemoteOptions_def empty_config_def del: join.simps extract_options.simps)
  have op: "remote_operation ?c w (?p # drop_dashes ws) = Inr (input_config ?l s p t (drop_dashes ws))"
    using assms(7) by (auto simp: remote_operation_def applyCommandTarget_path [OF assms(1,3)] simp del: join.simps)
  have v: "validateParsedConfig (Inr (input_config ?l s p t (drop_dashes ws))) = Inr (input_config ?l s p t (drop_dashes ws))"
    by (rule input_validated) (use assms in \<open>auto simp: blank_config_def empty_config_def\<close>)
  have "ParseClient env (w # ?p # ws) = Inr (input_config ?l s p t (drop_dashes ws))"
    using nh wop x op v by (simp add: ParseClient_def parseRemoteClient_def Let_def del: join.simps hasHelpArg.simps)
  moreover have "serverRequestFromConfig (input_config ?l s p t (drop_dashes ws)) = input_request w s p t (drop_dashes ws)"
    using assms(7) by (subst input_config_request) (auto simp: blank_config_def empty_config_def)
  moreover have "cf_mode (input_config ?l s p t (drop_dashes ws)) = ModeClient" "cf_action (input_config ?l s p t (drop_dashes ws)) = a"
    by (simp_all add: input_config_def)
  ultimately show ?thesis by blast
qed

subsection \<open>Witnesses\<close>

definition sample_env :: "nat cli_env" where
  "sample_env = \<lparr>ce_parse_duration = (\<lambda>s. if s = ''250ms'' then Some 250000000 else None), ce_parse_float = (\<lambda>_. None),
     ce_zero_float = 0, ce_default_rate = 5, ce_server_paths = Some (''token'', ''clients'')\<rparr>"

lemma sample_target: "target_ok ''work'' ''main'' ''build''"
  by (simp add: target_ok_def plain_component)

lemma sample_path: "join ''/'' [''work'', ''main'', ''build''] = ''work/main/build''"
  by simp

lemma local_input_verbatim_witness:
  "\<exists>cfg. ParseLocal sample_env [''send'', ''work/main/build'', ''git'', ''--'', ''x''] = Inr cfg \<and> cf_mode cfg = ModeLocal \<and>
    cf_action cfg = ActionSend \<and>
    serverRequestFromConfig cfg = input_request ''send'' ''work'' ''main'' ''build'' [''git'', ''--'', ''x'']"
  by (rule local_input_verbatim [OF sample_target, of "[''git'', ''--'', ''x'']" "''send''" ActionSend sample_env, unfolded sample_path])
    (simp_all add: isHelpArg_def valid_utf8_ascii rune_error_def)

lemma remote_input_loses_dashes_witness:
  "\<exists>cfg. ParseClient sample_env [''send'', ''work/main/build'', ''git'', ''--'', ''x''] = Inr cfg \<and> cf_mode cfg = ModeClient \<and>
    cf_action cfg = ActionSend \<and>
    serverRequestFromConfig cfg = input_request ''send'' ''work'' ''main'' ''build'' [''git'', ''x'']"
proof -
  have d: "drop_dashes [''git'', ''--'', ''x''] = [''git'', ''x'']" by (simp add: drop_dashes_def)
  show ?thesis
    by (rule remote_input_loses_dashes [OF sample_target, of "[''git'', ''--'', ''x'']" "''send''" ActionSend sample_env,
          unfolded d sample_path])
      (simp_all add: isHelpArg_def valid_utf8_ascii rune_error_def)
qed

lemma list_parses:
  "\<exists>cfg. Parse sample_env [''list''] = Inr cfg \<and> cf_mode cfg = ModeLocal \<and> cf_action cfg = ActionList"
proof -
  let ?cfg = "(empty_config (0::nat))\<lparr>cf_mode := ModeLocal, cf_action := ActionList\<rparr>"
  have "ValidateRequest (serverRequestFromConfig ?cfg) = None"
    by (simp add: ValidateRequest_def serverRequestFromConfig_def empty_config_def ValidateAction_def ValidateCommand_def
        ValidateReadCount_def ValidateTargetPrefix_iff valid_utf8_ascii bound_simps rune_error_def)
  moreover have "cf_mode ?cfg \<noteq> ModeServer" by simp
  ultimately have "validateConfig ?cfg = None" unfolding validateConfig_def by simp
  then have "Parse sample_env [''list''] = Inr ?cfg"
    by (simp add: Parse_def ParseLocal_def parse_local_def isHelpArg_def local_actions_def run_flags_def after_flags_def
        validateParsedConfig_def empty_config_def sample_env_def list_target_def no_target_def)
  then show ?thesis by simp
qed

lemma parse_well_formed_witness:
  "\<exists>cfg. Parse sample_env [''list''] = Inr cfg \<and> cf_mode cfg = ModeLocal \<and> cf_action cfg = ActionList \<and>
     ValidateRequest (serverRequestFromConfig cfg) = None"
proof -
  obtain cfg where p: "Parse sample_env [''list''] = Inr cfg" "cf_mode cfg = ModeLocal" "cf_action cfg = ActionList"
    using list_parses by blast
  then show ?thesis using parse_well_formed [OF p(1)] by auto
qed

end
