(* ===== verification/Remote_Protocol.thy ===== *)
theory Remote_Protocol
  imports Server_Protocol Target_Service
begin

section \<open>The remote protocol (internal/remote/protocol.go)\<close>

text \<open>
  Requests and responses between a remote client and the server, their validation, and the translation of
  a request for the service of the client.
\<close>

definition ProtocolVersion :: int where "ProtocolVersion = 1"
definition MaxRequestIDBytes :: nat where "MaxRequestIDBytes = 128"

datatype error_code =
    ErrorAuthenticationFailed | ErrorBadRequest | ErrorClientNameUnavailable | ErrorConnectionLimit | ErrorInternal
  | ErrorInvalidOperation | ErrorOriginNotAllowed | ErrorRateLimited | ErrorServerShuttingDown | ErrorSlowConnection
  | ErrorTargetLimit | ErrorTargetNotFound

record protocol_error =
  pe_code :: error_code
  pe_message :: string

record remote_target =
  tg_session :: string
  tg_pane :: string
  tg_tab :: string

record remote_request =
  rq_version :: int
  rq_id :: string
  rq_operation :: string
  rq_target :: remote_target
  rq_input :: string
  rq_read_count :: int

datatype response_type = ResponseTypeResponse | ResponseTypeFollowStarted | ResponseTypeFollowEnded

record remote_response =
  rp_version :: int
  rp_type :: response_type
  rp_id :: string
  rp_output :: string
  rp_exit_code :: int
  rp_snapshot :: snapshot
  rp_error :: "protocol_error option"

definition OperationCreate :: string where "OperationCreate = ''create''"
definition OperationList :: string where "OperationList = ''list''"
definition OperationSend :: string where "OperationSend = ''send''"
definition OperationText :: string where "OperationText = ''text''"
definition OperationKeys :: string where "OperationKeys = ''keys''"
definition OperationRead :: string where "OperationRead = ''read''"
definition OperationFollow :: string where "OperationFollow = ''follow''"
definition OperationClose :: string where "OperationClose = ''close''"

lemmas operations = OperationCreate_def OperationList_def OperationSend_def OperationText_def OperationKeys_def
  OperationRead_def OperationFollow_def OperationClose_def

definition validRequestID :: "string \<Rightarrow> bool" where
  "validRequestID i \<longleftrightarrow> i \<noteq> [] \<and> valid_utf8 i \<and> length i \<le> MaxRequestIDBytes"

definition protocol_error :: "error_code \<Rightarrow> string \<Rightarrow> protocol_error" where
  "protocol_error code message = \<lparr>pe_code = code, pe_message = message\<rparr>"

definition target_operations :: "string list" where
  "target_operations = [OperationCreate, OperationSend, OperationText, OperationKeys, OperationRead, OperationFollow, OperationClose]"

definition validateRequest :: "remote_request \<Rightarrow> protocol_error option" where
  "validateRequest req =
     (let t = rq_target req;
          invalid = (\<lambda>e. if e = (None :: invalid_request option) then None else Some (protocol_error ErrorBadRequest ''invalid target''))
      in if rq_version req \<noteq> ProtocolVersion then Some (protocol_error ErrorBadRequest ''unsupported protocol version'')
         else if \<not> validRequestID (rq_id req) then
           Some (protocol_error ErrorBadRequest ''request ID must be valid UTF-8 and at most 128 bytes'')
         else if \<not> valid_utf8 (rq_operation req) \<or> MaxActionBytes < length (rq_operation req) then
           Some (protocol_error ErrorInvalidOperation [])
         else if ValidateCommand (rq_input req) \<noteq> None then
           Some (protocol_error ErrorBadRequest ''input exceeds the allowed limit or is invalid'')
         else if ValidateReadCount (rq_read_count req) \<noteq> None then
           Some (protocol_error ErrorBadRequest ''read count is outside the allowed range'')
         else if rq_operation req = OperationList then
           invalid (ValidateTargetPrefix (tg_session t) (tg_pane t) (tg_tab t))
         else if rq_operation req \<in> set target_operations then
           invalid (ValidateCompleteTarget (tg_session t) (tg_pane t) (tg_tab t))
         else Some (protocol_error ErrorInvalidOperation []))"

definition serverRequest :: "remote_request \<Rightarrow> request" where
  "serverRequest req =
     \<lparr>req_action = rq_operation req, req_session = tg_session (rq_target req), req_pane = tg_pane (rq_target req),
      req_tab = tg_tab (rq_target req), req_command = rq_input req, req_follow = False, req_wait_millis = 0,
      req_read_count = rq_read_count req, req_stream_version = 0, req_stream_action = []\<rparr>"

definition empty_snapshot :: snapshot where
  "empty_snapshot = \<lparr>sn_sessions = []\<rparr>"

definition plain_response :: "response_type \<Rightarrow> string \<Rightarrow> protocol_error option \<Rightarrow> remote_response" where
  "plain_response t i e = \<lparr>rp_version = ProtocolVersion, rp_type = t, rp_id = i, rp_output = [], rp_exit_code = 0,
     rp_snapshot = empty_snapshot, rp_error = e\<rparr>"

definition remote_errorResponse :: "string \<Rightarrow> error_code \<Rightarrow> string \<Rightarrow> remote_response" where
  "remote_errorResponse i code message = plain_response ResponseTypeResponse i (Some (protocol_error code message))"

definition followEndResponse :: "string \<Rightarrow> error_code \<Rightarrow> string \<Rightarrow> remote_response" where
  "followEndResponse i code message = plain_response ResponseTypeFollowEnded i (Some (protocol_error code message))"

subsection \<open>What passes validation\<close>

lemma operation_actions: "set (OperationList # target_operations) \<subseteq> set (''list'' # target_actions)"
  by (simp add: target_operations_def target_actions_def operations)

lemma operation_facts:
  assumes "op \<in> set (OperationList # target_operations)"
  shows "ValidateAction op = None" "op \<notin> set [''daemon'', ''stop'']" "op \<noteq> ''kill''" "op = OperationList \<longleftrightarrow> op = ''list''"
proof -
  have "list_all (\<lambda>op. ValidateAction op = None \<and> op \<notin> set [''daemon'', ''stop''] \<and> op \<noteq> ''kill'' \<and> (op = OperationList \<longleftrightarrow> op = ''list''))
      (OperationList # target_operations)"
    by (simp add: target_operations_def operations ValidateAction_def valid_utf8_ascii bound_simps rune_error_def)
  then have f: "ValidateAction op = None \<and> op \<notin> set [''daemon'', ''stop''] \<and> op \<noteq> ''kill'' \<and> (op = OperationList \<longleftrightarrow> op = ''list'')"
    using assms unfolding list_all_iff by blast
  then show "ValidateAction op = None" "op \<notin> set [''daemon'', ''stop'']" "op \<noteq> ''kill''" "op = OperationList \<longleftrightarrow> op = ''list''"
    by auto
qed

lemma validateRequest_iff:
  "validateRequest req = None \<longleftrightarrow> rq_version req = ProtocolVersion \<and> validRequestID (rq_id req) \<and>
     rq_operation req \<in> set (OperationList # target_operations) \<and> ValidateRequest (serverRequest req) = None"
proof -
  have u: "valid_utf8 op \<and> \<not> MaxActionBytes < length op" if "ValidateAction op = None" for op
    using that by (simp add: ValidateAction_def split: if_split_asm)
  have t: "op \<in> set target_actions" if "op \<in> set target_operations" for op
    using operation_actions that by (auto simp: target_operations_def target_actions_def operations)
  show ?thesis
  proof (cases "rq_operation req \<in> set (OperationList # target_operations)")
    case True
    note f = operation_facts [OF True]
    have "rq_operation req = OperationList \<or> rq_operation req \<in> set target_operations" using True by simp
    then show ?thesis
      using True f u [OF f(1)] t [of "rq_operation req"]
      by (auto simp: validateRequest_def Let_def ValidateRequest_def serverRequest_def case_error_None)
  next
    case False
    then show ?thesis by (auto simp: validateRequest_def Let_def)
  qed
qed

text \<open>C29: A remote request passes validation exactly when its version is 1, its ID is valid UTF-8 of 1 to 128
bytes, its operation is one of the eight that the protocol has, and the request that the server makes of it for the
service passes the validation of the service: nothing that the service refuses as malformed gets past the
connection, and nothing that it accepts is refused.\<close>

lemma validateRequest_accepts:
  "validateRequest req = None \<longleftrightarrow>
     rq_version req = 1 \<and> rq_id req \<noteq> [] \<and> valid_utf8 (rq_id req) \<and> length (rq_id req) \<le> 128 \<and>
     rq_operation req \<in> {''create'', ''list'', ''send'', ''text'', ''keys'', ''read'', ''follow'', ''close''} \<and>
     ValidateRequest (serverRequest req) = None"
proof -
  have "set (OperationList # target_operations) = {''create'', ''list'', ''send'', ''text'', ''keys'', ''read'', ''follow'', ''close''}"
    by (auto simp: target_operations_def operations)
  then show ?thesis
    unfolding validateRequest_iff by (simp add: ProtocolVersion_def validRequestID_def MaxRequestIDBytes_def conj_assoc)
qed

end
