(* ===== verification/Go_Base64.thy ===== *)
theory Go_Base64
  imports Go_Library
begin

section \<open>The package encoding/base64\<close>

text \<open>
  \<open>base64.RawURLEncoding\<close>: the URL alphabet without padding. The decoder skips line breaks and, as it is
  not strict, does not look at the bits that a last incomplete group leaves over.
\<close>

definition b64_char :: "nat \<Rightarrow> char" where
  "b64_char n =
     (if n < 26 then char_of (65 + n) else if n < 52 then char_of (71 + n)
      else if n < 62 then char_of (n - 4) else if n = 62 then CHR ''-'' else CHR ''_'')"

definition b64_value :: "char \<Rightarrow> nat option" where
  "b64_value c =
     (let n = bval c in
      if 65 \<le> n \<and> n \<le> 90 then Some (n - 65) else if 97 \<le> n \<and> n \<le> 122 then Some (n - 71)
      else if 48 \<le> n \<and> n \<le> 57 then Some (n + 4) else if n = 45 then Some 62 else if n = 95 then Some 63 else None)"

fun b64_groups :: "nat list \<Rightarrow> nat list" where
  "b64_groups [] = []"
| "b64_groups [a] = [a div 4, a mod 4 * 16]"
| "b64_groups [a, b] = [a div 4, a mod 4 * 16 + b div 16, b mod 16 * 4]"
| "b64_groups (a # b # c # r) =
     [a div 4, a mod 4 * 16 + b div 16, b mod 16 * 4 + c div 64, c mod 64] @ b64_groups r"

fun b64_ungroup :: "nat list \<Rightarrow> nat list option" where
  "b64_ungroup [] = Some []"
| "b64_ungroup [x] = None"
| "b64_ungroup [x, y] = Some [x * 4 + y div 16]"
| "b64_ungroup [x, y, z] = Some [x * 4 + y div 16, y mod 16 * 16 + z div 4]"
| "b64_ungroup (x # y # z # w # r) =
     map_option (\<lambda>s. [x * 4 + y div 16, y mod 16 * 16 + z div 4, z mod 4 * 64 + w] @ s) (b64_ungroup r)"

definition b64_encode :: "string \<Rightarrow> string" where
  "b64_encode s = map b64_char (b64_groups (map bval s))"

definition b64_decode :: "string \<Rightarrow> string option" where
  "b64_decode s =
     (let vs = map b64_value (filter (\<lambda>c. c \<noteq> chr_cr \<and> c \<noteq> chr_lf) s) in
      if None \<in> set vs then None else map_option (map char_of) (b64_ungroup (map the vs)))"

subsection \<open>Round trip\<close>

lemma b64_value_char:
  assumes "n < 64"
  shows "b64_value (b64_char n) = Some n"
proof -
  consider "n < 26" | "26 \<le> n" "n < 52" | "52 \<le> n" "n < 62" | "n = 62" | "n = 63" using assms by linarith
  then show ?thesis
    by cases (auto simp: b64_char_def b64_value_def bval_char_of Let_def)
qed

lemma b64_char_no_break: "n < 64 \<Longrightarrow> b64_char n \<noteq> chr_cr \<and> b64_char n \<noteq> chr_lf"
  by (auto dest!: b64_value_char simp: b64_value_def)

lemma b64_groups_less: "list_all (\<lambda>n. n < 256) s \<Longrightarrow> list_all (\<lambda>n. n < 64) (b64_groups s)"
  by (induction s rule: b64_groups.induct) (auto simp: less_mult_imp_div_less)

lemma b64_ungroup_groups: "list_all (\<lambda>n. n < 256) s \<Longrightarrow> b64_ungroup (b64_groups s) = Some s"
  by (induction s rule: b64_groups.induct) (auto simp: mult.commute)

lemma b64_decode_encode [simp]: "b64_decode (b64_encode s) = Some s"
proof -
  let ?g = "b64_groups (map bval s)"
  have b: "list_all (\<lambda>n. n < 256) (map bval s)" by (simp add: list_all_iff)
  note g = b64_groups_less [OF b, unfolded list_all_iff]
  have f: "filter (\<lambda>c. c \<noteq> chr_cr \<and> c \<noteq> chr_lf) (map b64_char ?g) = map b64_char ?g"
    using g b64_char_no_break by (auto simp: filter_id_conv)
  have v: "map b64_value (map b64_char ?g) = map Some ?g"
    using g b64_value_char by simp
  show ?thesis
    unfolding b64_decode_def b64_encode_def f v Let_def
    using b64_ungroup_groups [OF b] by (simp add: comp_def image_iff)
qed

lemma b64_encode_inject: "b64_encode s = b64_encode t \<longleftrightarrow> s = t"
  by (metis b64_decode_encode option.inject)

end
