(* ===== verification/Remote_Registry.thy ===== *)
theory Remote_Registry
  imports Go_Base64 "HOL-Library.AList" "HOL-Library.Word"
begin

section \<open>The client registry (internal/remote/registry.go)\<close>

text \<open>
  The registry keeps one record per client name, with the digest of its password, and writes all of them
  to one file at every change. Times are nanoseconds since the zero time of package \<open>time\<close>. SHA-256 is an
  argument \<open>sha\<close>; random bytes, the clock and the results of the system calls are read from a record
  \<open>reg_env\<close>. The file is kept as the value that \<open>encoding/json\<close> writes and reads back.
\<close>

definition registryVersion :: int where "registryVersion = 1"
definition maxRegistrySize :: int where "maxRegistrySize = 4 * 1048576"

datatype client_status = ClientPending | ClientActive | ClientRevoked | Other_status string

record stored_client =
  sc_owner :: string
  sc_name :: string
  sc_digest :: string
  sc_generation :: "64 word"
  sc_status :: client_status
  sc_created :: int
  sc_updated :: int
  sc_revoked :: "int option"

record client_record =
  cr_owner :: string
  cr_name :: string
  cr_generation :: "64 word"
  cr_status :: client_status
  cr_created :: int
  cr_updated :: int
  cr_revoked :: "int option"

record principal =
  pr_owner :: string
  pr_name :: string
  pr_generation :: "64 word"

record registry_file =
  rf_version :: int
  rf_clients :: "stored_client list option"

text \<open>A file: whether it is a regular one, its permissions, its size, and its content when it decodes.\<close>

record disk_file =
  df_regular :: bool
  df_perm :: "12 word"
  df_size :: int
  df_data :: "registry_file option"

type_synonym clients = "(string \<times> stored_client) list"

record registry =
  rg_clients :: clients
  rg_closed :: bool
  rg_disk :: "disk_file option"

datatype io_stage =
    Create_temp | Chmod_temp | Write_temp | Sync_temp | Close_temp | Rename_temp | Sync_directory
  | Inspect_parent | Create_parent | Not_a_directory | Chmod_parent
  | Open_lock | Chmod_lock | Lock_busy | Stat_file | Open_file | Inspect_file | Unlock | Close_lock

datatype client_error =
    Bad_owner_id | Bad_digest | Bad_generation | Bad_timestamps | Pending_revoked | Active_revoked
  | Bad_revocation | Bad_status | Bad_name

datatype registry_error =
    ErrAuthenticationFailed
  | ErrClientNameUnavailable
  | ErrInvalidClientName
  | ErrRegistryClosed
  | No_random_owner
  | No_random_password
  | Registry_too_large
  | Io_error io_stage
  | Empty_path
  | Not_regular string
  | Insecure_permissions string
  | Bad_json
  | Unsupported_version
  | Clients_not_array
  | Invalid_record client_error
  | Duplicate_name string
  | Duplicate_owner string

text \<open>An operation fails, succeeds, or succeeds with an error that came after the file was replaced
(\<open>committedRegistryError\<close>).\<close>

datatype 'a outcome = Failed registry_error | Done 'a | Committed 'a registry_error

fun registryMutationCommitted :: "'a outcome \<Rightarrow> bool" where
  "registryMutationCommitted (Committed x e) = True"
| "registryMutationCommitted x = False"

fun outcome_value :: "'a outcome \<Rightarrow> 'a option" where
  "outcome_value (Failed e) = None"
| "outcome_value (Done x) = Some x"
| "outcome_value (Committed x e) = Some x"

record persist_io =
  pio_size :: int
  pio_create :: bool
  pio_chmod :: bool
  pio_write :: bool
  pio_sync :: bool
  pio_close :: bool
  pio_rename :: bool
  pio_dirsync :: bool

record reg_env =
  re_owner :: "string option"
  re_password :: "string option"
  re_now :: int
  re_io :: persist_io

subsection \<open>Names and credentials\<close>

definition asciiAlphanumeric :: "char \<Rightarrow> bool" where
  "asciiAlphanumeric c \<longleftrightarrow>
     bval CHR ''a'' \<le> bval c \<and> bval c \<le> bval CHR ''z'' \<or> bval CHR ''0'' \<le> bval c \<and> bval c \<le> bval CHR ''9''"

definition ValidClientName :: "string \<Rightarrow> bool" where
  "ValidClientName name \<longleftrightarrow>
     1 \<le> length name \<and> length name \<le> 64 \<and>
     list_all (\<lambda>c. asciiAlphanumeric c \<or> c = CHR ''.'' \<or> c = CHR ''_'' \<or> c = CHR ''-'') name"

definition randomToken :: "string option \<Rightarrow> string option" where
  "randomToken bytes = map_option b64_encode bytes"

definition digestString :: "(string \<Rightarrow> string) \<Rightarrow> string \<Rightarrow> string" where
  "digestString sha password = b64_encode (sha password)"

definition dummyDigest :: "(string \<Rightarrow> string) \<Rightarrow> string" where
  "dummyDigest sha = sha ''ptymux remote registry dummy credential''"

definition credentialMatches :: "(string \<Rightarrow> string) \<Rightarrow> string \<Rightarrow> string \<Rightarrow> bool \<Rightarrow> bool" where
  "credentialMatches sha encodedDigest password valid =
     (let (expected, valid) =
        (if valid then
           (case b64_decode encodedDigest of
              Some decoded \<Rightarrow> if length decoded = 32 then (decoded, True) else (dummyDigest sha, False)
            | None \<Rightarrow> (dummyDigest sha, False))
         else (dummyDigest sha, False))
      in sha password = expected \<and> valid)"

definition publicRecord :: "stored_client \<Rightarrow> client_record" where
  "publicRecord c =
     \<lparr>cr_owner = sc_owner c, cr_name = sc_name c, cr_generation = sc_generation c, cr_status = sc_status c,
      cr_created = sc_created c, cr_updated = sc_updated c, cr_revoked = sc_revoked c\<rparr>"

definition principalFor :: "stored_client \<Rightarrow> principal" where
  "principalFor c = \<lparr>pr_owner = sc_owner c, pr_name = sc_name c, pr_generation = sc_generation c\<rparr>"

text \<open>The zero value that a lookup of a missing name gives.\<close>

definition zero_client :: stored_client where
  "zero_client = \<lparr>sc_owner = [], sc_name = [], sc_digest = [], sc_generation = 0, sc_status = Other_status [],
     sc_created = 0, sc_updated = 0, sc_revoked = None\<rparr>"

definition client_of :: "clients \<Rightarrow> string \<Rightarrow> stored_client" where
  "client_of cs name = (case map_of cs name of Some c \<Rightarrow> c | None \<Rightarrow> zero_client)"

definition authenticateLocked :: "(string \<Rightarrow> string) \<Rightarrow> clients \<Rightarrow> string \<Rightarrow> string \<Rightarrow> registry_error + principal" where
  "authenticateLocked sha cs name password =
     (let client = client_of cs name; exists = (map_of cs name \<noteq> None) in
      if credentialMatches sha (sc_digest client) password
           (exists \<and> sc_status client = ClientActive \<and> ValidClientName name)
      then Inr (principalFor client) else Inl ErrAuthenticationFailed)"

definition Authenticate :: "(string \<Rightarrow> string) \<Rightarrow> registry \<Rightarrow> string \<Rightarrow> string \<Rightarrow> registry_error + principal" where
  "Authenticate sha r name password =
     (if rg_closed r then Inl ErrRegistryClosed else authenticateLocked sha (rg_clients r) name password)"

subsection \<open>Writing the file\<close>

definition file_of :: "clients \<Rightarrow> registry_file" where
  "file_of cs = \<lparr>rf_version = registryVersion, rf_clients = Some (map (client_of cs) (sort (map fst cs)))\<rparr>"

text \<open>The file is written beside the registry and renamed; what is on disk changes with the rename.\<close>

definition persist :: "persist_io \<Rightarrow> clients \<Rightarrow> registry \<Rightarrow> registry \<times> bool \<times> registry_error option" where
  "persist io cs r =
     (if maxRegistrySize < pio_size io then (r, False, Some Registry_too_large)
      else if \<not> pio_create io then (r, False, Some (Io_error Create_temp))
      else if \<not> pio_chmod io then (r, False, Some (Io_error Chmod_temp))
      else if \<not> pio_write io then (r, False, Some (Io_error Write_temp))
      else if \<not> pio_sync io then (r, False, Some (Io_error Sync_temp))
      else if \<not> pio_close io then (r, False, Some (Io_error Close_temp))
      else if \<not> pio_rename io then (r, False, Some (Io_error Rename_temp))
      else (let r = r\<lparr>rg_disk := Some \<lparr>df_regular = True, df_perm = 384, df_size = pio_size io, df_data = Some (file_of cs)\<rparr>\<rparr>
        in if \<not> pio_dirsync io then (r, True, Some (Io_error Sync_directory)) else (r, True, None)))"

definition persistAndPublish :: "persist_io \<Rightarrow> clients \<Rightarrow> 'a \<Rightarrow> registry \<Rightarrow> registry \<times> 'a outcome" where
  "persistAndPublish io cs x r =
     (case persist io cs r of
        (r, replaced, err) \<Rightarrow>
          if replaced then
            (r\<lparr>rg_clients := cs\<rparr>, case err of None \<Rightarrow> Done x | Some e \<Rightarrow> Committed x e)
          else (r, case err of None \<Rightarrow> Done x | Some e \<Rightarrow> Failed e))"

subsection \<open>Operations\<close>

definition Register ::
  "(string \<Rightarrow> string) \<Rightarrow> reg_env \<Rightarrow> string \<Rightarrow> registry \<Rightarrow> registry \<times> (client_record \<times> string) outcome" where
  "Register sha env name r =
     (if \<not> ValidClientName name then (r, Failed ErrInvalidClientName)
      else if rg_closed r then (r, Failed ErrRegistryClosed)
      else if map_of (rg_clients r) name \<noteq> None \<and> sc_status (client_of (rg_clients r) name) \<noteq> ClientRevoked
      then (r, Failed ErrClientNameUnavailable)
      else (case randomToken (re_owner env) of
        None \<Rightarrow> (r, Failed No_random_owner)
      | Some ownerID \<Rightarrow>
          (case randomToken (re_password env) of
             None \<Rightarrow> (r, Failed No_random_password)
           | Some password \<Rightarrow>
               (let now = re_now env;
                    client = \<lparr>sc_owner = ownerID, sc_name = name, sc_digest = digestString sha password,
                      sc_generation = 1, sc_status = ClientActive, sc_created = now, sc_updated = now, sc_revoked = None\<rparr>
                in persistAndPublish (re_io env) (AList.update name client (rg_clients r)) (publicRecord client, password) r))))"

definition PrepareRegistration ::
  "(string \<Rightarrow> string) \<Rightarrow> reg_env \<Rightarrow> string \<Rightarrow> string \<Rightarrow> registry \<Rightarrow> registry \<times> (client_record \<times> string) outcome" where
  "PrepareRegistration sha env name password r =
     (let existing = client_of (rg_clients r) name; exists = (map_of (rg_clients r) name \<noteq> None);
          pending = (exists \<and> sc_status existing = ClientPending)
      in if \<not> ValidClientName name then (r, Failed ErrInvalidClientName)
         else if rg_closed r then (r, Failed ErrRegistryClosed)
         else if exists \<and> sc_status existing = ClientActive then (r, Failed ErrClientNameUnavailable)
         else if password \<noteq> [] then
           (if \<not> credentialMatches sha (sc_digest existing) password pending then (r, Failed ErrAuthenticationFailed)
            else (r, Done (publicRecord existing, password)))
         else (case (if pending then Some (sc_owner existing) else randomToken (re_owner env)) of
           None \<Rightarrow> (r, Failed No_random_owner)
         | Some ownerID \<Rightarrow>
             (case randomToken (re_password env) of
                None \<Rightarrow> (r, Failed No_random_password)
              | Some freshPassword \<Rightarrow>
                  (let now = re_now env;
                       createdAt = (if pending then sc_created existing else 0);
                       client = \<lparr>sc_owner = ownerID, sc_name = name, sc_digest = digestString sha freshPassword,
                         sc_generation = 1, sc_status = ClientPending,
                         sc_created = (if createdAt = 0 then now else createdAt), sc_updated = now, sc_revoked = None\<rparr>
                   in persistAndPublish (re_io env) (AList.update name client (rg_clients r))
                        (publicRecord client, freshPassword) r))))"

definition CommitRegistration ::
  "(string \<Rightarrow> string) \<Rightarrow> reg_env \<Rightarrow> string \<Rightarrow> string \<Rightarrow> registry \<Rightarrow> registry \<times> principal outcome" where
  "CommitRegistration sha env name password r =
     (if rg_closed r then (r, Failed ErrRegistryClosed)
      else (let client = client_of (rg_clients r) name; exists = (map_of (rg_clients r) name \<noteq> None) in
        if \<not> credentialMatches sha (sc_digest client) password
             (exists \<and> sc_status client = ClientPending \<and> ValidClientName name)
        then (r, Failed ErrAuthenticationFailed)
        else (let client = client\<lparr>sc_status := ClientActive, sc_updated := re_now env\<rparr>
          in persistAndPublish (re_io env) (AList.update name client (rg_clients r)) (principalFor client) r)))"

definition Rotate ::
  "(string \<Rightarrow> string) \<Rightarrow> reg_env \<Rightarrow> string \<Rightarrow> string \<Rightarrow> registry \<Rightarrow> registry \<times> (string \<times> principal) outcome" where
  "Rotate sha env name currentPassword r =
     (if rg_closed r then (r, Failed ErrRegistryClosed)
      else (case authenticateLocked sha (rg_clients r) name currentPassword of
        Inl e \<Rightarrow> (r, Failed e)
      | Inr prin \<Rightarrow>
          (case randomToken (re_password env) of
             None \<Rightarrow> (r, Failed No_random_password)
           | Some password \<Rightarrow>
               (let client = client_of (rg_clients r) name;
                    client = client\<lparr>sc_digest := digestString sha password, sc_generation := sc_generation client + 1,
                      sc_updated := re_now env\<rparr>
                in persistAndPublish (re_io env) (AList.update name client (rg_clients r))
                     (password, prin\<lparr>pr_generation := sc_generation client\<rparr>) r))))"

definition Revoke :: "(string \<Rightarrow> string) \<Rightarrow> reg_env \<Rightarrow> string \<Rightarrow> string \<Rightarrow> registry \<Rightarrow> registry \<times> unit outcome" where
  "Revoke sha env name currentPassword r =
     (if rg_closed r then (r, Failed ErrRegistryClosed)
      else (case authenticateLocked sha (rg_clients r) name currentPassword of
        Inl e \<Rightarrow> (r, Failed e)
      | Inr prin \<Rightarrow>
          (let client = (client_of (rg_clients r) name)
                 \<lparr>sc_status := ClientRevoked, sc_updated := re_now env, sc_revoked := Some (re_now env)\<rparr>
           in persistAndPublish (re_io env) (AList.update name client (rg_clients r)) () r)))"

definition Registry_Close :: "bool \<Rightarrow> bool \<Rightarrow> registry \<Rightarrow> registry \<times> registry_error option" where
  "Registry_Close unlocked closed r =
     (if rg_closed r then (r, None)
      else (r\<lparr>rg_closed := True\<rparr>,
        if \<not> unlocked then Some (Io_error Unlock) else if \<not> closed then Some (Io_error Close_lock) else None))"

subsection \<open>Opening\<close>

definition decoded_length :: "string \<Rightarrow> nat option" where
  "decoded_length s = map_option length (b64_decode s)"

definition validateStoredClient :: "stored_client \<Rightarrow> client_error option" where
  "validateStoredClient c =
     (if \<not> ValidClientName (sc_name c) then Some Bad_name
      else if decoded_length (sc_owner c) \<noteq> Some 16 \<and> decoded_length (sc_owner c) \<noteq> Some 32 then Some Bad_owner_id
      else if decoded_length (sc_digest c) \<noteq> Some 32 then Some Bad_digest
      else if sc_generation c = 0 then Some Bad_generation
      else if sc_created c = 0 \<or> sc_updated c = 0 \<or> sc_updated c < sc_created c then Some Bad_timestamps
      else (case sc_status c of
          ClientPending \<Rightarrow> if sc_revoked c \<noteq> None then Some Pending_revoked else None
        | ClientActive \<Rightarrow> if sc_revoked c \<noteq> None then Some Active_revoked else None
        | ClientRevoked \<Rightarrow>
            (case sc_revoked c of None \<Rightarrow> Some Bad_revocation
             | Some t \<Rightarrow> if t < sc_created c \<or> sc_updated c < t then Some Bad_revocation else None)
        | Other_status s \<Rightarrow> Some Bad_status))"

fun load_clients :: "string list \<Rightarrow> clients \<Rightarrow> stored_client list \<Rightarrow> registry_error + clients" where
  "load_clients owners cs [] = Inr cs"
| "load_clients owners cs (c # rest) =
     (case validateStoredClient c of
        Some e \<Rightarrow> Inl (Invalid_record e)
      | None \<Rightarrow>
          (if map_of cs (sc_name c) \<noteq> None then Inl (Duplicate_name (sc_name c))
           else if sc_owner c \<in> set owners then Inl (Duplicate_owner (sc_owner c))
           else load_clients (sc_owner c # owners) (AList.update (sc_name c) c cs) rest))"

text \<open>The group and other bits \<open>0077\<close> of the permissions must be clear.\<close>

definition validateRegularFile :: "disk_file \<Rightarrow> string \<Rightarrow> registry_error option" where
  "validateRegularFile f description =
     (if \<not> df_regular f then Some (Not_regular description)
      else if and (df_perm f) 63 \<noteq> 0 then Some (Insecure_permissions description) else None)"

definition load :: "bool \<Rightarrow> disk_file option \<Rightarrow> registry_error + clients" where
  "load opened disk =
     (case disk of
        None \<Rightarrow> Inr []
      | Some f \<Rightarrow>
          (if \<not> opened then Inl (Io_error Open_file)
           else (case validateRegularFile f ''registry'' of
             Some e \<Rightarrow> Inl e
           | None \<Rightarrow>
               (if maxRegistrySize < df_size f then Inl Registry_too_large
                else (case df_data f of
                  None \<Rightarrow> Inl Bad_json
                | Some file \<Rightarrow>
                    (if rf_version file \<noteq> registryVersion then Inl Unsupported_version
                     else (case rf_clients file of
                       None \<Rightarrow> Inl Clients_not_array
                     | Some cs \<Rightarrow> load_clients [] [] cs)))))))"

text \<open>The directory of the file: what \<open>Lstat\<close> says of it.\<close>

datatype dir_info = Dir_missing | Dir_error | Dir_info bool bool "12 word"

definition ensureSecureDirectory :: "dir_info \<Rightarrow> bool \<Rightarrow> dir_info \<Rightarrow> bool \<Rightarrow> registry_error option" where
  "ensureSecureDirectory info made again chmod =
     (if info = Dir_missing \<and> \<not> made then Some (Io_error Create_parent)
      else (case (if info = Dir_missing then again else info) of
        Dir_info symlink directory perm \<Rightarrow>
          if symlink \<or> \<not> directory then Some (Io_error Not_a_directory)
          else if perm \<noteq> 448 \<and> \<not> chmod then Some (Io_error Chmod_parent) else None
      | _ \<Rightarrow> Some (Io_error Inspect_parent)))"

definition openLockFile :: "disk_file option \<Rightarrow> bool \<Rightarrow> bool \<Rightarrow> registry_error option" where
  "openLockFile file chmod locked =
     (case file of
        None \<Rightarrow> Some (Io_error Open_lock)
      | Some f \<Rightarrow>
          (case validateRegularFile f ''registry lock'' of
             Some e \<Rightarrow> Some e
           | None \<Rightarrow> if \<not> chmod then Some (Io_error Chmod_lock) else if \<not> locked then Some (Io_error Lock_busy) else None))"

text \<open>\<open>OpenRegistry\<close>, given what securing the directory, locking and opening came to: a registry that has no
file yet writes an empty one.\<close>

definition OpenRegistry ::
  "string \<Rightarrow> registry_error option \<Rightarrow> registry_error option \<Rightarrow> bool \<Rightarrow> persist_io \<Rightarrow> disk_file option \<Rightarrow>
   disk_file option \<times> (registry_error + registry)" where
  "OpenRegistry path directory lock opened io disk =
     (if path = [] then (disk, Inl Empty_path)
      else (case directory of Some e \<Rightarrow> (disk, Inl e)
      | None \<Rightarrow>
          (case lock of Some e \<Rightarrow> (disk, Inl e)
           | None \<Rightarrow>
               (case load opened disk of
                  Inl e \<Rightarrow> (disk, Inl e)
                | Inr cs \<Rightarrow>
                    (let r = \<lparr>rg_clients = cs, rg_closed = False, rg_disk = disk\<rparr> in
                     if disk = None then
                       (case persist io cs r of
                          (r, _, Some e) \<Rightarrow> (rg_disk r, Inl e)
                        | (r, _, None) \<Rightarrow> (rg_disk r, Inr r))
                     else (disk, Inr r))))))"

subsection \<open>The invariant\<close>

text \<open>
  One valid record per name, no owner twice, and a file on disk that \<open>OpenRegistry\<close> accepts and reads as
  exactly these records.
\<close>

definition clients_ok :: "clients \<Rightarrow> bool" where
  "clients_ok cs \<longleftrightarrow> distinct (map fst cs) \<and>
     (\<forall>n c. map_of cs n = Some c \<longrightarrow> sc_name c = n \<and> validateStoredClient c = None) \<and>
     (\<forall>n m c d. map_of cs n = Some c \<longrightarrow> map_of cs m = Some d \<longrightarrow> sc_owner c = sc_owner d \<longrightarrow> n = m)"

definition disk_ok :: "clients \<Rightarrow> disk_file option \<Rightarrow> bool" where
  "disk_ok cs disk \<longleftrightarrow>
     disk \<noteq> None \<and> (case load True disk of Inl e \<Rightarrow> False | Inr cs' \<Rightarrow> map_of cs' = map_of cs)"

definition registry_ok :: "registry \<Rightarrow> bool" where
  "registry_ok r \<longleftrightarrow> clients_ok (rg_clients r) \<and> disk_ok (rg_clients r) (rg_disk r)"

lemma clients_ok_Nil [simp]: "clients_ok []"
  by (simp add: clients_ok_def)

lemma clients_ok_update:
  assumes "clients_ok cs" "sc_name c = n" "validateStoredClient c = None"
    and "\<And>m d. map_of cs m = Some d \<Longrightarrow> sc_owner d = sc_owner c \<Longrightarrow> m = n"
  shows "clients_ok (AList.update n c cs)"
  using assms unfolding clients_ok_def by (auto simp: update_conv' distinct_update split: if_split_asm)

lemma persistAndPublish_outcomes:
  assumes "persistAndPublish io cs x r = (r', out)"
  shows "out = Done x \<and> rg_clients r' = cs \<or> (\<exists>e. out = Committed x e) \<and> rg_clients r' = cs \<or> (\<exists>e. out = Failed e) \<and> r' = r"
  using assms by (auto simp: persistAndPublish_def persist_def Let_def split: if_split_asm)

lemma persistAndPublish_closed: "persistAndPublish io cs x r = (r', out) \<Longrightarrow> rg_closed r' = rg_closed r"
  by (auto simp: persistAndPublish_def persist_def Let_def split: if_split_asm)

subsection \<open>Reading back what was written\<close>

lemma client_of_Some: "map_of cs n = Some c \<Longrightarrow> client_of cs n = c"
  by (simp add: client_of_def)

lemma update_new_key: "map_of cs k = None \<Longrightarrow> AList.update k v cs = cs @ [(k, v)]"
  by (induction cs) (auto split: if_split_asm)

lemma load_clients_all:
  assumes "\<forall>c\<in>set xs. validateStoredClient c = None" "distinct (map sc_name xs)" "distinct (map sc_owner xs)"
    and "\<forall>c\<in>set xs. map_of acc (sc_name c) = None \<and> sc_owner c \<notin> set owners"
  shows "load_clients owners acc xs = Inr (acc @ map (\<lambda>c. (sc_name c, c)) xs)"
  using assms
proof (induction xs arbitrary: owners acc)
  case (Cons x xs)
  have ne: "sc_name c \<noteq> sc_name x \<and> sc_owner c \<noteq> sc_owner x" if "c \<in> set xs" for c
    using Cons.prems(2,3) imageI [OF that, of sc_name] imageI [OF that, of sc_owner] by auto
  have "load_clients (sc_owner x # owners) (acc @ [(sc_name x, x)]) xs =
      Inr ((acc @ [(sc_name x, x)]) @ map (\<lambda>c. (sc_name c, c)) xs)"
    using Cons.prems ne by (intro Cons.IH) (simp_all add: map_add_def)
  then show ?case using Cons.prems by (simp add: update_new_key)
qed simp

lemma load_clients_invalid:
  assumes "c \<in> set xs" "validateStoredClient c \<noteq> None"
  shows "\<exists>e. load_clients owners acc xs = Inl e"
  using assms
proof (induction xs arbitrary: owners acc)
  case (Cons x xs)
  show ?case
  proof (cases "x = c")
    case True
    then show ?thesis using Cons.prems(2) by auto
  next
    case False
    then have "\<exists>e. load_clients (sc_owner x # owners) (AList.update (sc_name x) x acc) xs = Inl e"
      using Cons by simp
    then show ?thesis by (auto split: option.split)
  qed
qed simp

lemma file_names: "set (sort (map fst cs)) = fst ` set cs" "distinct (map fst cs) \<Longrightarrow> distinct (sort (map fst cs))"
  by simp_all

lemma clients_ok_lookup: "clients_ok cs \<Longrightarrow> n \<in> fst ` set cs \<Longrightarrow>
  \<exists>c. map_of cs n = Some c \<and> client_of cs n = c \<and> sc_name c = n \<and> validateStoredClient c = None"
  unfolding clients_ok_def client_of_def by (auto simp: map_of_eq_None_iff dest: weak_map_of_SomeI) 

lemma load_file_of:
  assumes "clients_ok cs"
  shows "\<exists>cs'. load_clients [] [] (map (client_of cs) (sort (map fst cs))) = Inr cs' \<and> map_of cs' = map_of cs"
proof -
  let ?ns = "sort (map fst cs)"
  let ?xs = "map (client_of cs) ?ns"
  have d: "distinct ?ns" using assms by (simp add: clients_ok_def)
  have look: "\<exists>c. map_of cs n = Some c \<and> client_of cs n = c \<and> sc_name c = n \<and> validateStoredClient c = None"
    if "n \<in> set ?ns" for n using clients_ok_lookup [OF assms] that by simp
  have names: "map sc_name ?xs = ?ns" using look by (force intro: map_idI simp del: set_sort)
  have owners: "distinct (map sc_owner ?xs)"
  proof -
    have "inj_on (\<lambda>n. sc_owner (client_of cs n)) (set ?ns)"
    proof (rule inj_onI)
      fix n m
      assume n: "n \<in> set ?ns" and m: "m \<in> set ?ns" and eq: "sc_owner (client_of cs n) = sc_owner (client_of cs m)"
      show "n = m" using look [OF n] look [OF m] eq assms unfolding clients_ok_def by metis
    qed
    then show ?thesis using d by (simp add: distinct_map comp_def)
  qed
  have loaded: "load_clients [] [] ?xs = Inr (map (\<lambda>c. (sc_name c, c)) ?xs)"
    using load_clients_all [of ?xs "[]" "[]"] look d owners names by (auto simp del: set_sort)
  have named: "map (\<lambda>c. (sc_name c, c)) ?xs = map (\<lambda>n. (n, client_of cs n)) ?ns"
    using look by (force simp del: set_sort)
  have "map_of (map (\<lambda>n. (n, client_of cs n)) ?ns) n = map_of cs n" for n
  proof (cases "n \<in> set ?ns")
    case True
    then show ?thesis using look [OF True] by (auto simp: map_of_map_restrict restrict_map_def simp del: set_sort)
  next
    case False
    then have "map_of cs n = None" by (simp add: map_of_eq_None_iff)
    then show ?thesis using False by (simp add: map_of_map_restrict)
  qed
  then have "map_of (map (\<lambda>n. (n, client_of cs n)) ?ns) = map_of cs" by (rule ext)
  then show ?thesis using loaded unfolding named by blast
qed

lemma written_file_ok:
  assumes "clients_ok cs" "bytes \<le> maxRegistrySize"
  shows "disk_ok cs (Some \<lparr>df_regular = True, df_perm = 384, df_size = bytes, df_data = Some (file_of cs)\<rparr>)"
  using load_file_of [OF assms(1)] assms(2) by (auto simp: disk_ok_def load_def file_of_def validateRegularFile_def)

lemma persistAndPublish_keeps:
  assumes "persistAndPublish io cs x r = (r', out)" "registry_ok r" "clients_ok cs"
  shows "registry_ok r'"
  using assms written_file_ok [OF assms(3), of "pio_size io"]
  by (auto simp: persistAndPublish_def persist_def Let_def registry_ok_def split: if_split_asm)

text \<open>Whatever the file was, what is loaded from it is good.\<close>

lemma load_clients_ok:
  assumes "load_clients owners acc xs = Inr cs" "clients_ok acc" "set owners = sc_owner ` snd ` set acc"
  shows "clients_ok cs"
  using assms
proof (induction xs arbitrary: owners acc)
  case (Cons x xs)
  have new: "validateStoredClient x = None" "map_of acc (sc_name x) = None" "sc_owner x \<notin> set owners"
    "load_clients (sc_owner x # owners) (AList.update (sc_name x) x acc) xs = Inr cs"
    using Cons.prems(1) by (auto split: option.split_asm if_split_asm)
  have "sc_owner d \<in> set owners" if "map_of acc m = Some d" for m d
    unfolding Cons.prems(3) using map_of_SomeD [OF that] by force
  then have "clients_ok (AList.update (sc_name x) x acc)"
    using new(1,3) Cons.prems(2) by (intro clients_ok_update) metis+
  moreover have "set (sc_owner x # owners) = sc_owner ` snd ` set (AList.update (sc_name x) x acc)"
    using Cons.prems(3) by (simp add: update_new_key [OF new(2)])
  ultimately show ?case using Cons.IH new(4) by blast
qed simp

lemma load_ok:
  assumes "load opened disk = Inr cs"
  shows "clients_ok cs \<and> (disk \<noteq> None \<longrightarrow> load True disk = Inr cs)"
  using assms load_clients_ok [of "[]" "[]" _ cs]
  by (auto simp: load_def split: option.split_asm if_split_asm)

lemma opened_ok:
  assumes "snd (OpenRegistry path directory lock opened io disk) = Inr r"
  shows "registry_ok r \<and> \<not> rg_closed r"
  using assms load_ok [of opened disk] written_file_ok [of "[]" "pio_size io"]
  by (auto simp: OpenRegistry_def Let_def registry_ok_def disk_ok_def persist_def load_def
      split: if_split_asm option.split_asm sum.split_asm)

subsection \<open>Every operation keeps the invariant\<close>

text \<open>All operations on one registry; the results are the subject of the properties below.\<close>

datatype registry_call =
    Register_call string
  | Prepare_call string string
  | Commit_call string string
  | Rotate_call string string
  | Revoke_call string string
  | Close_call bool bool

fun run_call :: "(string \<Rightarrow> string) \<Rightarrow> reg_env \<Rightarrow> registry_call \<Rightarrow> registry \<Rightarrow> registry" where
  "run_call sha env (Register_call n) r = fst (Register sha env n r)"
| "run_call sha env (Prepare_call n p) r = fst (PrepareRegistration sha env n p r)"
| "run_call sha env (Commit_call n p) r = fst (CommitRegistration sha env n p r)"
| "run_call sha env (Rotate_call n p) r = fst (Rotate sha env n p r)"
| "run_call sha env (Revoke_call n p) r = fst (Revoke sha env n p r)"
| "run_call sha env (Close_call u c) r = fst (Registry_Close u c r)"

text \<open>
  What the calls rely on: digests of 32 bytes, 16 random bytes that no owner has, a clock that is set and
  has not gone back behind a time that the registry holds, and a generation that has not reached its
  maximum.
\<close>

definition env_ok :: "(string \<Rightarrow> string) \<Rightarrow> reg_env \<Rightarrow> registry \<Rightarrow> bool" where
  "env_ok sha env r \<longleftrightarrow> (\<forall>s. length (sha s) = 32) \<and>
     (\<forall>bytes. re_owner env = Some bytes \<longrightarrow> length bytes = 16 \<and>
        (\<forall>c\<in>snd ` set (rg_clients r). sc_owner c \<noteq> b64_encode bytes)) \<and>
     re_now env \<noteq> 0 \<and>
     (\<forall>c\<in>snd ` set (rg_clients r). sc_created c \<le> re_now env \<and> sc_generation c + 1 \<noteq> 0)"

lemma decoded_length_encode [simp]: "decoded_length (b64_encode s) = Some (length s)"
  by (simp add: decoded_length_def)

lemma lookup_snd: "map_of cs n = Some c \<Longrightarrow> c \<in> snd ` set cs"
  by (force dest: map_of_SomeD)

lemma validated_client:
  assumes "validateStoredClient c = None"
  shows "ValidClientName (sc_name c)" "decoded_length (sc_owner c) = Some 16 \<or> decoded_length (sc_owner c) = Some 32"
    "sc_generation c \<noteq> 0" "sc_created c \<noteq> 0"
  using assms by (auto simp: validateStoredClient_def split: if_split_asm)

lemma fresh_client_valid:
  assumes "env_ok sha env r" "ValidClientName n" "sc_owner c = b64_encode bytes" "length bytes = 16"
    and "sc_name c = n" "sc_digest c = digestString sha pw" "sc_generation c = 1" "sc_status c \<in> {ClientActive, ClientPending}"
    and "sc_created c = re_now env" "sc_updated c = re_now env" "sc_revoked c = None"
  shows "validateStoredClient c = None"
  using assms by (auto simp: validateStoredClient_def digestString_def env_ok_def)

lemma update_same_owner:
  assumes "clients_ok cs" "map_of cs n = Some c" "sc_name d = n" "sc_owner d = sc_owner c" "validateStoredClient d = None"
  shows "clients_ok (AList.update n d cs)"
  using assms by (intro clients_ok_update) (auto simp: clients_ok_def)

lemma update_fresh_owner:
  assumes "clients_ok (rg_clients r)" "env_ok sha env r" "re_owner env = Some bytes" "sc_owner c = b64_encode bytes"
    and "sc_name c = n" "validateStoredClient c = None"
  shows "clients_ok (AList.update n c (rg_clients r))"
  using assms by (intro clients_ok_update) (force simp: env_ok_def dest: lookup_snd)+

lemma authenticated:
  assumes "authenticateLocked sha cs n p = Inr prin"
  shows "\<exists>c. map_of cs n = Some c \<and> client_of cs n = c \<and> sc_status c = ClientActive \<and> ValidClientName n \<and>
    prin = principalFor c \<and> b64_decode (sc_digest c) = Some (sha p)"
  using assms
  by (auto simp: authenticateLocked_def credentialMatches_def client_of_def Let_def split: if_split_asm option.split_asm)

text \<open>A call leaves the registry alone, or it stores and publishes a good set of clients.\<close>

definition change_ok :: "registry \<Rightarrow> registry \<times> 'a outcome \<Rightarrow> bool" where
  "change_ok r res \<longleftrightarrow> fst res = r \<or> (\<exists>io cs x. res = persistAndPublish io cs x r \<and> clients_ok cs)"

lemma change_keeps: "change_ok r res \<Longrightarrow> registry_ok r \<Longrightarrow> registry_ok (fst res)"
  unfolding change_ok_def by (metis persistAndPublish_keeps prod.collapse)

lemma change_same [intro]: "change_ok r (r, out)"
  by (simp add: change_ok_def)

lemma change_publish [intro]: "clients_ok cs \<Longrightarrow> change_ok r (persistAndPublish io cs x r)"
  by (auto simp: change_ok_def)

lemma registry_ok_clients: "registry_ok r \<Longrightarrow> clients_ok (rg_clients r)"
  by (simp add: registry_ok_def)

lemma Register_change:
  assumes "registry_ok r" "env_ok sha env r"
  shows "change_ok r (Register sha env n r)"
proof -
  have fresh: "clients_ok (AList.update n \<lparr>sc_owner = b64_encode b, sc_name = n, sc_digest = digestString sha pw,
      sc_generation = 1, sc_status = ClientActive, sc_created = re_now env, sc_updated = re_now env, sc_revoked = None\<rparr> (rg_clients r))"
    if "re_owner env = Some b" "ValidClientName n" for b pw
    using that assms(2) by (intro update_fresh_owner [OF registry_ok_clients [OF assms(1)] assms(2) that(1)] fresh_client_valid [OF assms(2)])
      (auto simp: env_ok_def)
  show ?thesis
    using fresh by (auto simp: Register_def Let_def randomToken_def split: option.split)
qed

lemma PrepareRegistration_change:
  assumes "registry_ok r" "env_ok sha env r"
  shows "change_ok r (PrepareRegistration sha env n p r)"
proof -
  note ok = registry_ok_clients [OF assms(1)]
  let ?new = "\<lambda>owner created pw. \<lparr>sc_owner = owner, sc_name = n, sc_digest = digestString sha pw,
      sc_generation = 1, sc_status = ClientPending, sc_created = created, sc_updated = re_now env, sc_revoked = None\<rparr>"
  have fresh: "clients_ok (AList.update n (?new (b64_encode b) (re_now env) pw) (rg_clients r))"
    if "re_owner env = Some b" "ValidClientName n" for b pw
    using that assms(2) by (intro update_fresh_owner [OF ok assms(2) that(1)] fresh_client_valid [OF assms(2)])
      (auto simp: env_ok_def)
  have again: "sc_created c \<noteq> 0 \<and> clients_ok (AList.update n (?new (sc_owner c) (sc_created c) pw) (rg_clients r))"
    if c: "map_of (rg_clients r) n = Some c" and "ValidClientName n" for c pw
  proof -
    have v: "validateStoredClient c = None" using ok c by (simp add: clients_ok_def)
    note vc = validated_client [OF v]
    have "sc_created c \<le> re_now env" "re_now env \<noteq> 0" "\<forall>s. length (sha s) = 32"
      using assms(2) lookup_snd [OF c] by (auto simp: env_ok_def)
    then have "validateStoredClient (?new (sc_owner c) (sc_created c) pw) = None"
      using vc that(2) by (auto simp: validateStoredClient_def digestString_def)
    then show ?thesis using update_same_owner [OF ok c] vc(4) by simp
  qed
  show ?thesis
    using fresh again by (auto simp: PrepareRegistration_def Let_def randomToken_def client_of_def split: option.split)
qed

lemma credential_pending:
  assumes "credentialMatches sha (sc_digest (client_of cs n)) p ((\<exists>y. map_of cs n = Some y) \<and> sc_status (client_of cs n) = s \<and> V)"
  shows "\<exists>c. map_of cs n = Some c \<and> client_of cs n = c \<and> sc_status c = s \<and> b64_decode (sc_digest c) = Some (sha p)"
  using assms by (auto simp: credentialMatches_def client_of_def Let_def split: if_split_asm option.split_asm)

text \<open>A record that is updated in place: its owner stays, and what changes must stay valid.\<close>

lemma in_place_change:
  assumes "registry_ok r" "env_ok sha env r" "map_of (rg_clients r) n = Some c" "sc_status c \<in> {ClientActive, ClientPending}"
    and "sc_owner d = sc_owner c" "sc_name d = sc_name c" "sc_created d = sc_created c" "sc_updated d = re_now env"
    and "sc_digest d = sc_digest c \<or> (\<exists>pw. sc_digest d = digestString sha pw)"
    and "sc_generation d = sc_generation c \<or> sc_generation d = sc_generation c + 1"
    and "sc_status d \<in> {ClientActive, ClientPending} \<and> sc_revoked d = sc_revoked c \<or>
      sc_status d = ClientRevoked \<and> sc_revoked d = Some (re_now env)"
  shows "clients_ok (AList.update n d (rg_clients r))"
proof -
  note ok = registry_ok_clients [OF assms(1)]
  have v: "validateStoredClient c = None" "sc_name c = n" using ok assms(3) by (auto simp: clients_ok_def)
  have e: "sc_created c \<le> re_now env" "re_now env \<noteq> 0" "sc_generation c + 1 \<noteq> 0" "\<forall>pw. length (sha pw) = 32"
    using assms(2) lookup_snd [OF assms(3)] by (auto simp: env_ok_def)
  have r: "sc_revoked c = None" "decoded_length (sc_digest c) = Some 32"
    using v(1) assms(4) by (auto simp: validateStoredClient_def split: if_split_asm)
  have "validateStoredClient d = None"
    using assms(5-11) validated_client [OF v(1)] e r
    by (auto simp: validateStoredClient_def digestString_def)
  then show ?thesis using update_same_owner [OF ok assms(3)] assms(5,6) v(2) by simp
qed

lemma CommitRegistration_change:
  assumes "registry_ok r" "env_ok sha env r"
  shows "change_ok r (CommitRegistration sha env n p r)"
  using in_place_change [OF assms]
  by (auto simp: CommitRegistration_def Let_def dest!: credential_pending intro!: change_publish)

lemma Rotate_change:
  assumes "registry_ok r" "env_ok sha env r"
  shows "change_ok r (Rotate sha env n p r)"
  by (auto simp: Rotate_def Let_def dest!: authenticated intro!: change_publish split: sum.split option.split)
    (rule in_place_change [OF assms], assumption, auto)

lemma Revoke_change:
  assumes "registry_ok r" "env_ok sha env r"
  shows "change_ok r (Revoke sha env n p r)"
  using in_place_change [OF assms]
  by (auto simp: Revoke_def Let_def dest!: authenticated intro!: change_publish split: sum.split)

lemma run_call_keeps:
  assumes "registry_ok r" "env_ok sha env r"
  shows "registry_ok (run_call sha env call r)"
proof (cases call)
  case (Close_call u c)
  then show ?thesis using assms(1) by (simp add: Registry_Close_def registry_ok_def)
qed (use assms change_keeps [OF Register_change] change_keeps [OF PrepareRegistration_change]
  change_keeps [OF CommitRegistration_change] change_keeps [OF Rotate_change] change_keeps [OF Revoke_change] in simp_all)

fun run_calls :: "(string \<Rightarrow> string) \<Rightarrow> (reg_env \<times> registry_call) list \<Rightarrow> registry \<Rightarrow> registry" where
  "run_calls sha [] r = r"
| "run_calls sha ((env, call) # calls) r = run_calls sha calls (run_call sha env call r)"

fun envs_ok :: "(string \<Rightarrow> string) \<Rightarrow> (reg_env \<times> registry_call) list \<Rightarrow> registry \<Rightarrow> bool" where
  "envs_ok sha [] r = True"
| "envs_ok sha ((env, call) # calls) r \<longleftrightarrow> env_ok sha env r \<and> envs_ok sha calls (run_call sha env call r)"

lemma run_calls_keep: "registry_ok r \<Longrightarrow> envs_ok sha calls r \<Longrightarrow> registry_ok (run_calls sha calls r)"
  by (induction calls arbitrary: r) (auto simp: run_call_keeps)

subsection \<open>Credentials\<close>

lemma Authenticate_iff:
  assumes "registry_ok r" "\<forall>s. length (sha s) = 32"
  shows "Authenticate sha r n p = Inr prin \<longleftrightarrow> \<not> rg_closed r \<and>
    (\<exists>c. map_of (rg_clients r) n = Some c \<and> sc_status c = ClientActive \<and> b64_decode (sc_digest c) = Some (sha p) \<and>
      prin = principalFor c)"
proof -
  have name: "ValidClientName n" if "map_of (rg_clients r) n = Some c" for c
    using that registry_ok_clients [OF assms(1)] validated_client(1) [of c] by (auto simp: clients_ok_def)
  show ?thesis
    using assms(2) name
    by (auto simp: Authenticate_def authenticateLocked_def credentialMatches_def client_of_def Let_def
        split: option.split if_split_asm)
qed

lemma Authenticate_Inl: "Authenticate sha r n p = Inl e \<Longrightarrow> e \<in> {ErrAuthenticationFailed, ErrRegistryClosed}"
  by (auto simp: Authenticate_def authenticateLocked_def Let_def split: if_split_asm)

text \<open>What a call that took effect stored under its name.\<close>

lemma published:
  assumes "persistAndPublish io (AList.update n c cs) x r = (r', out)" "outcome_value out = Some y"
  shows "map_of (rg_clients r') n = Some c \<and> y = x \<and> rg_closed r' = rg_closed r \<and>
    (\<forall>m. m \<noteq> n \<longrightarrow> map_of (rg_clients r') m = map_of cs m)"
  using persistAndPublish_outcomes [OF assms(1)] persistAndPublish_closed [OF assms(1)] assms(2)
  by (auto simp: update_conv')

lemma Register_effect:
  assumes "Register sha env n r = (r', out)" "outcome_value out = Some (rec, pw)"
  shows "\<exists>c bytes. map_of (rg_clients r') n = Some c \<and> sc_status c = ClientActive \<and> sc_digest c = digestString sha pw \<and>
    sc_name c = n \<and> sc_generation c = 1 \<and> re_owner env = Some bytes \<and> sc_owner c = b64_encode bytes \<and>
    rec = publicRecord c \<and> \<not> rg_closed r' \<and>
    (\<forall>d. map_of (rg_clients r) n = Some d \<longrightarrow> sc_status d = ClientRevoked) \<and>
    (\<forall>m. m \<noteq> n \<longrightarrow> map_of (rg_clients r') m = map_of (rg_clients r) m)"
  using assms
  by (auto simp: Register_def Let_def randomToken_def client_of_def split: if_split_asm option.split_asm dest!: published)

lemma Rotate_effect:
  assumes "Rotate sha env n p r = (r', out)" "outcome_value out = Some (pw, prin)"
  shows "\<exists>c d. map_of (rg_clients r) n = Some c \<and> b64_decode (sc_digest c) = Some (sha p) \<and>
    map_of (rg_clients r') n = Some d \<and> sc_status d = ClientActive \<and> sc_digest d = digestString sha pw \<and>
    sc_owner d = sc_owner c \<and> sc_name d = sc_name c \<and> sc_generation d = sc_generation c + 1 \<and>
    prin = principalFor d \<and> \<not> rg_closed r' \<and>
    (\<forall>m. m \<noteq> n \<longrightarrow> map_of (rg_clients r') m = map_of (rg_clients r) m)"
  using assms
  by (auto simp: Rotate_def Let_def principalFor_def split: if_split_asm option.split_asm sum.split_asm
      dest!: published authenticated)

lemma Revoke_effect:
  assumes "Revoke sha env n p r = (r', out)" "outcome_value out = Some ()"
  shows "\<exists>d. map_of (rg_clients r') n = Some d \<and> sc_status d = ClientRevoked \<and> \<not> rg_closed r' \<and>
    (\<forall>m. m \<noteq> n \<longrightarrow> map_of (rg_clients r') m = map_of (rg_clients r) m)"
  using assms
  by (auto simp: Revoke_def Let_def split: if_split_asm sum.split_asm dest!: published)

lemma published_disk:
  assumes "persistAndPublish io cs x r = (r', out)" "outcome_value out = Some y"
  shows "\<exists>size \<le> maxRegistrySize.
    rg_disk r' = Some \<lparr>df_regular = True, df_perm = 384, df_size = size, df_data = Some (file_of cs)\<rparr>"
  using assms by (auto simp: persistAndPublish_def persist_def Let_def split: if_split_asm)

lemma invalid_record_unloadable:
  assumes "persistAndPublish io (AList.update n c cs) x r = (r', out)" "outcome_value out = Some y"
    and "validateStoredClient c \<noteq> None"
  shows "\<exists>e. load True (rg_disk r') = Inl e"
proof -
  let ?cs = "AList.update n c cs"
  have "map_of ?cs n = Some c" by (simp add: update_conv')
  then have "c = client_of ?cs n" "n \<in> fst ` set ?cs" by (simp add: client_of_def) (metis update_conv' fun_upd_same
      map_of_eq_None_iff option.distinct(1))
  then have "c \<in> set (map (client_of ?cs) (sort (map fst ?cs)))" by simp
  then obtain e where "load_clients [] [] (map (client_of ?cs) (sort (map fst ?cs))) = Inl e"
    using load_clients_invalid [OF _ assms(3)] by blast
  then show ?thesis
    using published_disk [OF assms(1,2)]
    by (auto simp: load_def file_of_def validateRegularFile_def registryVersion_def)
qed

subsection \<open>Properties\<close>

text \<open>C7: A registry that was opened and then used reads back, after any restart, as exactly the clients that it has in
memory, whether its calls succeeded, failed at any stage of writing the file, or failed after the file was
replaced; and these are valid records with distinct names and owners. The calls may be any, but what they get
from the environment is not (\<open>envs_ok\<close>): digests have 32 bytes, a random owner is 16 bytes that no client has yet, no
generation is at its maximum, and the clock is set and never behind the time at which a client was created.
Without the last condition the property fails, as \<open>rotation_after_clock_step_unloadable\<close> shows.\<close>

lemma registry_survives_restart:
  assumes "snd (OpenRegistry path directory lock opened io disk) = Inr r0" "envs_ok sha calls r0"
  shows "let r = run_calls sha calls r0 in
    clients_ok (rg_clients r) \<and> (\<exists>cs. load True (rg_disk r) = Inr cs \<and> map_of cs = map_of (rg_clients r))"
proof -
  have "registry_ok (run_calls sha calls r0)"
    using run_calls_keep [OF _ assms(2)] opened_ok [OF assms(1)] by blast
  then show ?thesis by (auto simp: registry_ok_def disk_ok_def Let_def split: sum.split_asm)
qed

text \<open>C6: Credentials follow the calls. After a registration took effect, the name authenticates with the
new password and no other digest, as a new owner of generation one. After a rotation it authenticates
exactly with the new password, as the same owner and the next generation, so the old password is refused.
After a revocation it authenticates with no password. No call touches what other names authenticate with.\<close>

lemma credentials_follow_calls:
  assumes "registry_ok r" "env_ok sha env r"
  shows "(\<forall>r' out rec pw. Register sha env n r = (r', out) \<and> outcome_value out = Some (rec, pw) \<longrightarrow>
      (\<forall>q prin. Authenticate sha r' n q = Inr prin \<longleftrightarrow>
        sha q = sha pw \<and> prin = \<lparr>pr_owner = cr_owner rec, pr_name = n, pr_generation = 1\<rparr>) \<and>
      (\<forall>c\<in>snd ` set (rg_clients r). sc_owner c \<noteq> cr_owner rec) \<and>
      (\<forall>m q. m \<noteq> n \<longrightarrow> Authenticate sha r' m q = Authenticate sha r m q)) \<and>
    (\<forall>r' out p pw prin. Rotate sha env n p r = (r', out) \<and> outcome_value out = Some (pw, prin) \<longrightarrow>
      (\<forall>q x. Authenticate sha r' n q = Inr x \<longleftrightarrow> sha q = sha pw \<and> x = prin) \<and>
      (\<exists>old. Authenticate sha r n p = Inr old \<and> pr_owner prin = pr_owner old \<and>
        pr_generation prin = pr_generation old + 1) \<and>
      (\<forall>m q. m \<noteq> n \<longrightarrow> Authenticate sha r' m q = Authenticate sha r m q)) \<and>
    (\<forall>r' out p. Revoke sha env n p r = (r', out) \<and> outcome_value out = Some () \<longrightarrow>
      (\<forall>q. Authenticate sha r' n q = Inl ErrAuthenticationFailed) \<and>
      (\<forall>m q. m \<noteq> n \<longrightarrow> Authenticate sha r' m q = Authenticate sha r m q))"
proof (intro conjI allI ballI impI; elim conjE)
  have sha: "\<forall>s. length (sha s) = 32" using assms(2) by (simp add: env_ok_def)
  have others: "Authenticate sha r' m q = Authenticate sha r m q"
    if "map_of (rg_clients r') m = map_of (rg_clients r) m" "rg_closed r' = rg_closed r" for r' m q
    using that by (simp add: Authenticate_def authenticateLocked_def client_of_def)
  note iff = Authenticate_iff [OF _ sha]
  {
    fix r' out rec pw
    assume call: "Register sha env n r = (r', out)" "outcome_value out = Some (rec, pw)"
    have open_r: "\<not> rg_closed r" using call by (auto simp: Register_def split: if_split_asm)
    have ok: "registry_ok r'" using change_keeps [OF Register_change [OF assms] assms(1)] call(1) by (metis fst_conv)
    note eff = Register_effect [OF call]
    show "Authenticate sha r' n q = Inr prin \<longleftrightarrow>
        sha q = sha pw \<and> prin = \<lparr>pr_owner = cr_owner rec, pr_name = n, pr_generation = 1\<rparr>" for q prin
      using eff unfolding iff [OF ok] by (auto simp: principalFor_def publicRecord_def digestString_def)
    show "sc_owner c \<noteq> cr_owner rec" if "c \<in> snd ` set (rg_clients r)" for c
      using eff assms(2) that unfolding env_ok_def publicRecord_def by fastforce
    show "Authenticate sha r' m q = Authenticate sha r m q" if "m \<noteq> n" for m q
      using eff open_r that by (intro others) auto
  next
    fix r' out p pw prin
    assume call: "Rotate sha env n p r = (r', out)" "outcome_value out = Some (pw, prin)"
    have open_r: "\<not> rg_closed r" using call by (auto simp: Rotate_def split: if_split_asm)
    have ok: "registry_ok r'" using change_keeps [OF Rotate_change [OF assms] assms(1)] call(1) by (metis fst_conv)
    note eff = Rotate_effect [OF call]
    show "Authenticate sha r' n q = Inr x \<longleftrightarrow> sha q = sha pw \<and> x = prin" for q x
      using eff unfolding iff [OF ok] by (auto simp: digestString_def)
    obtain old where old: "authenticateLocked sha (rg_clients r) n p = Inr old"
      using call open_r by (auto simp: Rotate_def split: sum.split_asm)
    then show "\<exists>old. Authenticate sha r n p = Inr old \<and> pr_owner prin = pr_owner old \<and> pr_generation prin = pr_generation old + 1"
      using eff open_r authenticated [OF old] by (auto simp: Authenticate_def principalFor_def)
    show "Authenticate sha r' m q = Authenticate sha r m q" if "m \<noteq> n" for m q
      using eff open_r that by (intro others) auto
  next
    fix r' out p
    assume call: "Revoke sha env n p r = (r', out)" "outcome_value out = Some ()"
    have open_r: "\<not> rg_closed r" using call by (auto simp: Revoke_def split: if_split_asm)
    note eff = Revoke_effect [OF call]
    show "Authenticate sha r' n q = Inl ErrAuthenticationFailed" for q
      using eff by (auto simp: Authenticate_def authenticateLocked_def credentialMatches_def client_of_def)
    show "Authenticate sha r' m q = Authenticate sha r m q" if "m \<noteq> n" for m q
      using eff open_r that by (intro others) auto
  }
qed

text \<open>When the clock is set back before the time at which a client was registered, a rotation of this
client succeeds and writes a file that no later start of the server loads.\<close>

lemma rotation_after_clock_step_unloadable:
  assumes "Rotate sha env n p r = (r', out)" "outcome_value out = Some (pw, prin)"
    and "re_now env < sc_created (client_of (rg_clients r) n)"
  shows "\<exists>e. load True (rg_disk r') = Inl e"
proof -
  obtain c x where pub: "persistAndPublish (re_io env) (AList.update n c (rg_clients r)) x r = (r', out)"
    and c: "sc_created c = sc_created (client_of (rg_clients r) n)" "sc_updated c = re_now env"
    using assms(1,2) by (auto simp: Rotate_def Let_def split: if_split_asm sum.split_asm option.split_asm)
  have "validateStoredClient c \<noteq> None"
    using assms(3) c by (auto simp: validateStoredClient_def)
  then show ?thesis by (rule invalid_record_unloadable [OF pub assms(2)])
qed

subsection \<open>Witnesses\<close>

definition sample_sha :: "string \<Rightarrow> string" where
  "sample_sha s = take 32 (s @ replicate 32 CHR ''x'')"

lemma length_sample_sha: "length (sample_sha s) = 32"
  by (simp add: sample_sha_def min_def)

definition sample_io :: persist_io where
  "sample_io = \<lparr>pio_size = 100, pio_create = True, pio_chmod = True, pio_write = True, pio_sync = True, pio_close = True,
     pio_rename = True, pio_dirsync = True\<rparr>"

definition sample_reg_env :: "char \<Rightarrow> int \<Rightarrow> reg_env" where
  "sample_reg_env c now =
     \<lparr>re_owner = Some (replicate 16 c), re_password = Some (replicate 32 c), re_now = now, re_io = sample_io\<rparr>"

definition empty_registry :: registry where
  "empty_registry = \<lparr>rg_clients = [], rg_closed = False, rg_disk = Some
     \<lparr>df_regular = True, df_perm = 384, df_size = 100, df_data = Some (file_of [])\<rparr>\<rparr>"

lemma open_sample: "snd (OpenRegistry ''clients.json'' None None True sample_io None) = Inr empty_registry"
  by (simp add: OpenRegistry_def load_def persist_def sample_io_def empty_registry_def maxRegistrySize_def)

lemma sample_env_ok: "env_ok sample_sha (sample_reg_env c 5) empty_registry"
  by (simp add: env_ok_def length_sample_sha sample_reg_env_def empty_registry_def)

lemma registry_survives_restart_witness:
  "let r = run_calls sample_sha [(sample_reg_env CHR ''a'' 5, Register_call ''box'')] empty_registry in
    clients_ok (rg_clients r) \<and> (\<exists>cs. load True (rg_disk r) = Inr cs \<and> map_of cs = map_of (rg_clients r))"
  by (rule registry_survives_restart [OF open_sample]) (simp add: sample_env_ok)

definition box_client :: stored_client where
  "box_client = \<lparr>sc_owner = b64_encode (replicate 16 CHR ''a''), sc_name = ''box'',
     sc_digest = digestString sample_sha (b64_encode (replicate 32 CHR ''a'')), sc_generation = 1, sc_status = ClientActive,
     sc_created = 5, sc_updated = 5, sc_revoked = None\<rparr>"

definition box_registry :: registry where
  "box_registry = empty_registry\<lparr>rg_clients := [(''box'', box_client)],
     rg_disk := Some \<lparr>df_regular = True, df_perm = 384, df_size = 100, df_data = Some (file_of [(''box'', box_client)])\<rparr>\<rparr>"

lemma valid_box: "ValidClientName ''box''"
  by (simp add: ValidClientName_def asciiAlphanumeric_def)

lemma register_box:
  "Register sample_sha (sample_reg_env CHR ''a'' 5) ''box'' empty_registry =
     (box_registry, Done (publicRecord box_client, b64_encode (replicate 32 CHR ''a'')))"
  by (simp add: Register_def valid_box empty_registry_def randomToken_def sample_reg_env_def Let_def persistAndPublish_def
      persist_def sample_io_def maxRegistrySize_def box_registry_def box_client_def)

lemma credentials_follow_calls_witness:
  "\<exists>prin. Authenticate sample_sha box_registry ''box'' (b64_encode (replicate 32 CHR ''a'')) = Inr prin \<and> pr_name prin = ''box''"
proof -
  have "registry_ok empty_registry" using opened_ok [OF open_sample] by simp
  from conjunct1 [OF credentials_follow_calls [OF this sample_env_ok, where n = "''box''"]] register_box
  show ?thesis by (metis outcome_value.simps(2) principal.select_convs(2))
qed

lemma rotate_box: "\<exists>r' pw prin. Rotate sample_sha (sample_reg_env CHR ''b'' 3) ''box'' (b64_encode (replicate 32 CHR ''a'')) box_registry =
    (r', Done (pw, prin))"
proof -
  have "authenticateLocked sample_sha (rg_clients box_registry) ''box'' (b64_encode (replicate 32 CHR ''a'')) =
      Inr (principalFor box_client)"
    by (simp add: authenticateLocked_def client_of_def box_registry_def box_client_def valid_box credentialMatches_def digestString_def length_sample_sha)
  then show ?thesis
    by (simp add: Rotate_def box_registry_def empty_registry_def randomToken_def sample_reg_env_def Let_def persistAndPublish_def
        persist_def sample_io_def maxRegistrySize_def)
qed

lemma rotation_after_clock_step_unloadable_witness:
  "\<exists>r' out e. Rotate sample_sha (sample_reg_env CHR ''b'' 3) ''box'' (b64_encode (replicate 32 CHR ''a'')) box_registry = (r', out) \<and>
    load True (rg_disk r') = Inl e"
proof -
  obtain r' pw prin where r: "Rotate sample_sha (sample_reg_env CHR ''b'' 3) ''box'' (b64_encode (replicate 32 CHR ''a'')) box_registry =
      (r', Done (pw, prin))" using rotate_box by blast
  have "re_now (sample_reg_env CHR ''b'' 3) < sc_created (client_of (rg_clients box_registry) ''box'')"
    by (simp add: sample_reg_env_def client_of_def box_registry_def box_client_def)
  from rotation_after_clock_step_unloadable [OF r _ this] r show ?thesis by auto
qed

end
