(* ===== verification/Remote_Connection.thy ===== *)
theory Remote_Connection
  imports Remote_Protocol Remote_Registry
begin

section \<open>One WebSocket connection (internal/remote/server.go, internal/remote/client.go)\<close>

text \<open>
  The server answers on a connection through a queue of bounded size, which one goroutine writes to the
  wire. The operations come first, as functions of the connection, then the interleavings of the goroutine
  with the ones that send or close, then the client that reads a followed target from the wire. The
  encoding of a response as JSON, \<open>enc\<close>, and its decoding, \<open>dec\<close>, are arguments.
\<close>

definition defaultOutgoingQueueBytes :: int where "defaultOutgoingQueueBytes = 1048576"
definition maxWebSocketMessageBytes :: int where "maxWebSocketMessageBytes = 1048576"

datatype message_type = TextMessage | BinaryMessage

record outbound_message =
  om_type :: message_type
  om_data :: string

record byte_queue =
  bq_items :: "outbound_message list"
  bq_bytes :: int
  bq_maxBytes :: int
  bq_notify :: bool

datatype close_code = CloseGoingAway | ClosePolicyViolation | CloseInternalServerErr

record ws_close =
  cl_code :: close_code
  cl_reason :: string

record ws_connection =
  wc_principal :: principal
  wc_queue :: byte_queue
  wc_done :: bool
  wc_closeReq :: "ws_close option"
  wc_once :: bool
  wc_following :: bool

definition newByteQueue :: "int \<Rightarrow> byte_queue" where
  "newByteQueue maxBytes = \<lparr>bq_items = [], bq_bytes = 0, bq_maxBytes = maxBytes, bq_notify = False\<rparr>"

definition newWSConnection :: "principal \<Rightarrow> int \<Rightarrow> ws_connection" where
  "newWSConnection p queueBytes =
     \<lparr>wc_principal = p, wc_queue = newByteQueue queueBytes, wc_done = False, wc_closeReq = None, wc_once = False,
      wc_following = False\<rparr>"

text \<open>\<open>tryPush\<close>: its locked part, and the notification after it.\<close>

definition push_locked :: "byte_queue \<Rightarrow> outbound_message \<Rightarrow> byte_queue option" where
  "push_locked q m =
     (if bq_maxBytes q - bq_bytes q < int (length (om_data m)) then None
      else Some (q\<lparr>bq_items := bq_items q @ [m], bq_bytes := bq_bytes q + int (length (om_data m))\<rparr>))"

definition tryPush :: "byte_queue \<Rightarrow> outbound_message \<Rightarrow> byte_queue \<times> bool" where
  "tryPush q m = (case push_locked q m of None \<Rightarrow> (q, False) | Some q \<Rightarrow> (q\<lparr>bq_notify := True\<rparr>, True))"

definition queue_pop :: "byte_queue \<Rightarrow> byte_queue \<times> outbound_message option" where
  "queue_pop q =
     (case bq_items q of
        [] \<Rightarrow> (q, None)
      | m # ms \<Rightarrow> (q\<lparr>bq_items := ms, bq_bytes := bq_bytes q - int (length (om_data m))\<rparr>, Some m))"

definition enqueue :: "ws_connection \<Rightarrow> outbound_message \<Rightarrow> ws_connection \<times> bool" where
  "enqueue c m =
     (if wc_done c then (c, False) else (case tryPush (wc_queue c) m of (q, ok) \<Rightarrow> (c\<lparr>wc_queue := q\<rparr>, ok)))"

definition signalClose :: "ws_connection \<Rightarrow> close_code \<Rightarrow> string \<Rightarrow> ws_connection" where
  "signalClose c code reason =
     (if wc_once c then c
      else c\<lparr>wc_once := True, wc_done := True, wc_queue := (wc_queue c)\<lparr>bq_notify := True\<rparr>,
        wc_closeReq := (case wc_closeReq c of None \<Rightarrow> Some \<lparr>cl_code = code, cl_reason = reason\<rparr> | Some r \<Rightarrow> Some r)\<rparr>)"

definition connection_stop :: "ws_connection \<Rightarrow> ws_connection" where
  "connection_stop c = (if wc_once c then c else c\<lparr>wc_once := True, wc_done := True\<rparr>)"

definition enqueueResponse :: "(remote_response \<Rightarrow> string) \<Rightarrow> ws_connection \<Rightarrow> remote_response \<Rightarrow> ws_connection" where
  "enqueueResponse enc c r =
     (case enqueue c \<lparr>om_type = TextMessage, om_data = enc r\<rparr> of
        (c, True) \<Rightarrow> c
      | (c, False) \<Rightarrow> signalClose c ClosePolicyViolation ''slow_connection'')"

text \<open>The writer of a followed target: the number of bytes taken and whether there was an error.\<close>

definition followWriter_Write :: "ws_connection \<Rightarrow> string \<Rightarrow> ws_connection \<times> int \<times> bool" where
  "followWriter_Write c bytes =
     (if bytes = [] then (c, 0, False)
      else (case enqueue c \<lparr>om_type = BinaryMessage, om_data = bytes\<rparr> of
        (c, True) \<Rightarrow> (c, int (length bytes), False)
      | (c, False) \<Rightarrow> (signalClose c ClosePolicyViolation ''slow_connection'', 0, True)))"

subsection \<open>The writing goroutine and its environment\<close>

text \<open>
  Where \<open>writeLoop\<close> stands. The state also has the messages that senders are about to push after they saw
  the connection open, the number of senders between their push and their notification, how far
  \<open>signalClose\<close> has come (1: the request is sent, 2: \<open>done\<close> is closed, 3: finished), what is on the wire,
  and, for the specification, all messages that the queue accepted and whether a write has failed.
\<close>

datatype writer_pc = W_check | W_pop | W_send outbound_message | W_wait | W_close ws_close | W_end

datatype wire_frame = Data_frame outbound_message | Close_frame ws_close | Ping_frame

record ws_state =
  ws_conn :: ws_connection
  ws_pc :: writer_pc
  ws_pushing :: "outbound_message list"
  ws_notifying :: nat
  ws_signal :: nat
  ws_wire :: "wire_frame list"
  ws_accepted :: "outbound_message list"
  ws_failed :: bool

abbreviation ws_queue :: "ws_state \<Rightarrow> byte_queue" where "ws_queue s \<equiv> wc_queue (ws_conn s)"

definition set_queue :: "ws_state \<Rightarrow> byte_queue \<Rightarrow> ws_state" where
  "set_queue s q = s\<lparr>ws_conn := (ws_conn s)\<lparr>wc_queue := q\<rparr>\<rparr>"

definition new_ws_state :: "principal \<Rightarrow> int \<Rightarrow> ws_state" where
  "new_ws_state p queueBytes =
     \<lparr>ws_conn = newWSConnection p queueBytes, ws_pc = W_check, ws_pushing = [], ws_notifying = 0, ws_signal = 0,
      ws_wire = [], ws_accepted = [], ws_failed = False\<rparr>"

inductive ws_step :: "ws_state \<Rightarrow> ws_state \<Rightarrow> bool" where
  start_enqueue: "\<not> wc_done (ws_conn s) \<Longrightarrow> ws_step s (s\<lparr>ws_pushing := m # ws_pushing s\<rparr>)"
| push: "m \<in> set (ws_pushing s) \<Longrightarrow> push_locked (ws_queue s) m = Some q \<Longrightarrow>
    ws_step s ((set_queue s q)\<lparr>ws_pushing := remove1 m (ws_pushing s), ws_notifying := Suc (ws_notifying s),
      ws_accepted := ws_accepted s @ [m]\<rparr>)"
| push_full: "m \<in> set (ws_pushing s) \<Longrightarrow> push_locked (ws_queue s) m = None \<Longrightarrow>
    ws_step s (s\<lparr>ws_pushing := remove1 m (ws_pushing s)\<rparr>)"
| notify: "ws_notifying s = Suc n \<Longrightarrow>
    ws_step s ((set_queue s ((ws_queue s)\<lparr>bq_notify := True\<rparr>))\<lparr>ws_notifying := n\<rparr>)"
| stop: "\<not> wc_once (ws_conn s) \<Longrightarrow> ws_step s (s\<lparr>ws_conn := connection_stop (ws_conn s)\<rparr>)"
| signal_request: "\<not> wc_once (ws_conn s) \<Longrightarrow>
    ws_step s (s\<lparr>ws_conn := (ws_conn s)\<lparr>wc_once := True, wc_closeReq := Some r\<rparr>, ws_signal := 1\<rparr>)"
| signal_done: "ws_signal s = 1 \<Longrightarrow> ws_step s (s\<lparr>ws_conn := (ws_conn s)\<lparr>wc_done := True\<rparr>, ws_signal := 2\<rparr>)"
| signal_notify: "ws_signal s = 2 \<Longrightarrow>
    ws_step s ((set_queue s ((ws_queue s)\<lparr>bq_notify := True\<rparr>))\<lparr>ws_signal := 3\<rparr>)"
| check_close: "ws_pc s = W_check \<Longrightarrow> wc_closeReq (ws_conn s) = Some r \<Longrightarrow>
    ws_step s (s\<lparr>ws_conn := (ws_conn s)\<lparr>wc_closeReq := None\<rparr>, ws_pc := W_close r\<rparr>)"
| check_open: "ws_pc s = W_check \<Longrightarrow> wc_closeReq (ws_conn s) = None \<Longrightarrow> ws_step s (s\<lparr>ws_pc := W_pop\<rparr>)"
| pop: "ws_pc s = W_pop \<Longrightarrow> queue_pop (ws_queue s) = (q, Some m) \<Longrightarrow> ws_step s ((set_queue s q)\<lparr>ws_pc := W_send m\<rparr>)"
| pop_empty: "ws_pc s = W_pop \<Longrightarrow> queue_pop (ws_queue s) = (q, None) \<Longrightarrow> ws_step s (s\<lparr>ws_pc := W_wait\<rparr>)"
| send: "ws_pc s = W_send m \<Longrightarrow> ws_step s (s\<lparr>ws_pc := W_check, ws_wire := ws_wire s @ [Data_frame m]\<rparr>)"
| send_fails: "ws_pc s = W_send m \<Longrightarrow> ws_step s (s\<lparr>ws_pc := W_end, ws_failed := True\<rparr>)"
| wait_close: "ws_pc s = W_wait \<Longrightarrow> wc_closeReq (ws_conn s) = Some r \<Longrightarrow>
    ws_step s (s\<lparr>ws_conn := (ws_conn s)\<lparr>wc_closeReq := None\<rparr>, ws_pc := W_close r\<rparr>)"
| wait_done: "ws_pc s = W_wait \<Longrightarrow> wc_done (ws_conn s) \<Longrightarrow> ws_step s (s\<lparr>ws_pc := W_end\<rparr>)"
| wait_notify: "ws_pc s = W_wait \<Longrightarrow> bq_notify (ws_queue s) \<Longrightarrow>
    ws_step s ((set_queue s ((ws_queue s)\<lparr>bq_notify := False\<rparr>))\<lparr>ws_pc := W_check\<rparr>)"
| wait_ping: "ws_pc s = W_wait \<Longrightarrow> ws_step s (s\<lparr>ws_pc := W_check, ws_wire := ws_wire s @ [Ping_frame]\<rparr>)"
| ping_fails: "ws_pc s = W_wait \<Longrightarrow> ws_step s (s\<lparr>ws_pc := W_end, ws_failed := True\<rparr>)"
| close_frame: "ws_pc s = W_close r \<Longrightarrow> ws_step s (s\<lparr>ws_pc := W_end, ws_wire := ws_wire s @ [Close_frame r]\<rparr>)"
| close_fails: "ws_pc s = W_close r \<Longrightarrow> ws_step s (s\<lparr>ws_pc := W_end, ws_failed := True\<rparr>)"

inductive ws_reachable :: "principal \<Rightarrow> int \<Rightarrow> ws_state \<Rightarrow> bool" for p queueBytes where
  ws_start: "ws_reachable p queueBytes (new_ws_state p queueBytes)"
| ws_next: "ws_reachable p queueBytes s \<Longrightarrow> ws_step s t \<Longrightarrow> ws_reachable p queueBytes t"

text \<open>The payload messages on the wire.\<close>

fun wire_data :: "wire_frame list \<Rightarrow> outbound_message list" where
  "wire_data [] = []"
| "wire_data (Data_frame m # fs) = m # wire_data fs"
| "wire_data (f # fs) = wire_data fs"

fun is_close :: "wire_frame \<Rightarrow> bool" where
  "is_close (Close_frame r) = True"
| "is_close f = False"

fun in_hand :: "writer_pc \<Rightarrow> outbound_message list" where
  "in_hand (W_send m) = [m]"
| "in_hand pc = []"

lemma wire_data_append [simp]: "wire_data (fs @ gs) = wire_data fs @ wire_data gs"
  by (induction fs rule: wire_data.induct) auto

definition queue_size :: "outbound_message list \<Rightarrow> int" where
  "queue_size ms = sum_list (map (\<lambda>m. int (length (om_data m))) ms)"

lemma queue_size_nonneg: "0 \<le> queue_size ms"
  by (induction ms) (auto simp: queue_size_def)

text \<open>The invariant, in three parts: the bytes, the order, and what wakes the goroutine.\<close>

definition bytes_ok :: "int \<Rightarrow> ws_state \<Rightarrow> bool" where
  "bytes_ok n s \<longleftrightarrow> bq_maxBytes (ws_queue s) = n \<and> bq_bytes (ws_queue s) = queue_size (bq_items (ws_queue s)) \<and>
     bq_bytes (ws_queue s) \<le> n"

definition order_ok :: "ws_state \<Rightarrow> bool" where
  "order_ok s \<longleftrightarrow>
     (ws_pc s \<noteq> W_end \<longrightarrow> ws_accepted s = wire_data (ws_wire s) @ in_hand (ws_pc s) @ bq_items (ws_queue s) \<and>
        list_all (\<lambda>f. \<not> is_close f) (ws_wire s)) \<and>
     prefix (wire_data (ws_wire s)) (ws_accepted s) \<and> list_all (\<lambda>f. \<not> is_close f) (butlast (ws_wire s))"

definition wakeup_ok :: "ws_state \<Rightarrow> bool" where
  "wakeup_ok s \<longleftrightarrow>
     (ws_pc s = W_wait \<and> bq_items (ws_queue s) \<noteq> [] \<longrightarrow> bq_notify (ws_queue s) \<or> 0 < ws_notifying s) \<and>
     (0 < ws_signal s \<and> wc_closeReq (ws_conn s) = None \<longrightarrow> (\<exists>r. ws_pc s = W_close r) \<or> ws_pc s = W_end) \<and>
     (wc_once (ws_conn s) \<longleftrightarrow> 0 < ws_signal s \<or> wc_done (ws_conn s)) \<and>
     (0 < ws_signal s \<longrightarrow> (wc_done (ws_conn s) \<longleftrightarrow> 2 \<le> ws_signal s))"

lemmas connection_defs = set_queue_def push_locked_def queue_pop_def connection_stop_def

lemma ws_step_bytes: "ws_step s t \<Longrightarrow> bytes_ok n s \<Longrightarrow> bytes_ok n t"
  by (induction rule: ws_step.induct)
    (auto simp: bytes_ok_def connection_defs queue_size_def split: if_split_asm list.split_asm)

lemma ws_step_order: "ws_step s t \<Longrightarrow> order_ok s \<Longrightarrow> order_ok t"
  by (induction rule: ws_step.induct)
    (auto simp: order_ok_def connection_defs butlast_append prefix_append list_all_iff split: if_split_asm list.split_asm
      dest: in_set_butlastD)

lemma ws_step_wakeup: "ws_step s t \<Longrightarrow> wakeup_ok s \<Longrightarrow> wakeup_ok t"
  by (induction rule: ws_step.induct) (auto simp: wakeup_ok_def connection_defs split: if_split_asm list.split_asm)

lemma ws_start_ok: "0 \<le> n \<Longrightarrow> bytes_ok n (new_ws_state p n)" "order_ok (new_ws_state p n)" "wakeup_ok (new_ws_state p n)"
  by (simp_all add: bytes_ok_def order_ok_def wakeup_ok_def new_ws_state_def newWSConnection_def newByteQueue_def queue_size_def)

lemma ws_reachable_ok:
  assumes "ws_reachable p n s" "0 \<le> n"
  shows "bytes_ok n s \<and> order_ok s \<and> wakeup_ok s"
  using assms(1)
proof (induction rule: ws_reachable.induct)
  case ws_start
  then show ?case using ws_start_ok assms(2) by blast
next
  case (ws_next s t)
  then show ?case using ws_step_bytes ws_step_order ws_step_wakeup by blast
qed

subsection \<open>Properties\<close>

text \<open>C5: On a remote connection, for every interleaving of senders, closers and the writing goroutine, the
payload on the wire is a prefix of what the queue accepted, in the same order and with nothing skipped
while the goroutine runs; the queue never holds more bytes than its limit; a close frame is the last frame;
and the goroutine never sleeps through a message or a close: when it waits and there is something to do, one
of its wake-up conditions holds or is about to be set.\<close>

lemma connection_delivers_in_order:
  assumes "ws_reachable p n s" "0 \<le> n"
  shows "prefix (wire_data (ws_wire s)) (ws_accepted s) \<and>
    (ws_pc s \<noteq> W_end \<longrightarrow> ws_accepted s = wire_data (ws_wire s) @ in_hand (ws_pc s) @ bq_items (ws_queue s)) \<and>
    queue_size (bq_items (ws_queue s)) \<le> n \<and> 0 \<le> bq_bytes (ws_queue s) \<and>
    list_all (\<lambda>f. \<not> is_close f) (butlast (ws_wire s)) \<and>
    (ws_pc s = W_wait \<and> (bq_items (ws_queue s) \<noteq> [] \<or> wc_once (ws_conn s)) \<longrightarrow>
      bq_notify (ws_queue s) \<or> 0 < ws_notifying s \<or> wc_closeReq (ws_conn s) \<noteq> None \<or> wc_done (ws_conn s))"
proof -
  have "bytes_ok n s" "order_ok s" "wakeup_ok s" using ws_reachable_ok [OF assms] by auto
  moreover from this(3) have "wc_once (ws_conn s) \<longrightarrow> ws_pc s = W_wait \<longrightarrow> wc_closeReq (ws_conn s) \<noteq> None \<or> wc_done (ws_conn s)"
    by (auto simp: wakeup_ok_def)
  ultimately show ?thesis
    using queue_size_nonneg [of "bq_items (ws_queue s)"] by (auto simp: bytes_ok_def order_ok_def wakeup_ok_def)
qed

text \<open>The reason of a close can get lost without any failure: when \<open>signalClose\<close> runs between the
goroutine's look at the queue and its \<open>select\<close>, both the close request and the closed \<open>done\<close> are ready, and
if \<open>done\<close> is chosen the goroutine ends with the request unread and no close frame on the wire.\<close>

lemma close_reason_can_be_lost:
  "\<exists>s. ws_reachable p n s \<and> ws_pc s = W_end \<and> \<not> ws_failed s \<and> ws_wire s = [] \<and>
     wc_closeReq (ws_conn s) = Some \<lparr>cl_code = ClosePolicyViolation, cl_reason = ''client_revoked''\<rparr>"
proof -
  let ?r = "\<lparr>cl_code = ClosePolicyViolation, cl_reason = ''client_revoked''\<rparr>"
  let ?s0 = "new_ws_state p n"
  let ?s1 = "?s0\<lparr>ws_pc := W_pop\<rparr>"
  let ?s2 = "?s1\<lparr>ws_pc := W_wait\<rparr>"
  let ?s3 = "?s2\<lparr>ws_conn := (ws_conn ?s2)\<lparr>wc_once := True, wc_closeReq := Some ?r\<rparr>, ws_signal := 1\<rparr>"
  let ?s4 = "?s3\<lparr>ws_conn := (ws_conn ?s3)\<lparr>wc_done := True\<rparr>, ws_signal := 2\<rparr>"
  let ?s5 = "?s4\<lparr>ws_pc := W_end\<rparr>"
  note d = new_ws_state_def newWSConnection_def newByteQueue_def queue_pop_def
  have "ws_step ?s0 ?s1" by (rule check_open) (simp_all add: d)
  moreover have "ws_step ?s1 ?s2" by (rule pop_empty) (simp_all add: d)
  moreover have "ws_step ?s2 ?s3" by (rule signal_request) (simp add: d)
  moreover have "ws_step ?s3 ?s4" by (rule signal_done) simp
  moreover have "ws_step ?s4 ?s5" by (rule wait_done) simp_all
  ultimately have "ws_reachable p n ?s5" by (meson ws_start ws_next)
  moreover have "\<not> ws_failed ?s5" "ws_wire ?s5 = []" by (simp_all add: d)
  ultimately show ?thesis by (intro exI [of _ ?s5]) simp
qed

text \<open>A run in which one message goes from a sender to the wire.\<close>

lemma message_run:
  assumes "length (om_data m) \<le> 5"
  shows "\<exists>s. ws_reachable p 5 s \<and> ws_pc s = W_check \<and> ws_wire s = [Data_frame m] \<and> ws_accepted s = [m]"
proof -
  let ?s0 = "new_ws_state p 5"
  let ?s1 = "?s0\<lparr>ws_pushing := [m]\<rparr>"
  let ?q = "\<lparr>bq_items = [m], bq_bytes = int (length (om_data m)), bq_maxBytes = 5, bq_notify = False\<rparr>"
  let ?s2 = "(set_queue ?s1 ?q)\<lparr>ws_pushing := [], ws_notifying := 1, ws_accepted := [m]\<rparr>"
  let ?s3 = "?s2\<lparr>ws_pc := W_pop\<rparr>"
  let ?s4 = "(set_queue ?s3 (?q\<lparr>bq_items := [], bq_bytes := 0\<rparr>))\<lparr>ws_pc := W_send m\<rparr>"
  let ?s5 = "?s4\<lparr>ws_pc := W_check, ws_wire := [Data_frame m]\<rparr>"
  note d = new_ws_state_def newWSConnection_def newByteQueue_def set_queue_def
  have "ws_step ?s0 ?s1" using start_enqueue [of ?s0 m] by (simp add: d)
  moreover have "ws_step ?s1 ?s2"
    using push [of m ?s1 ?q] assms by (simp add: d push_locked_def)
  moreover have "ws_step ?s2 ?s3" by (rule check_open) (simp_all add: d)
  moreover have "ws_step ?s3 ?s4" by (rule pop) (simp_all add: d queue_pop_def)
  moreover have "ws_step ?s4 ?s5" using send [of ?s4 m] by (simp add: d)
  ultimately have "ws_reachable p 5 ?s5" by (meson ws_start ws_next)
  moreover have "ws_accepted ?s5 = [m]" by (simp add: d)
  ultimately show ?thesis by (intro exI [of _ ?s5]) simp
qed

definition hello :: outbound_message where
  "hello = \<lparr>om_type = BinaryMessage, om_data = ''hello''\<rparr>"

lemma connection_delivers_in_order_witness:
  "\<exists>s. ws_reachable \<lparr>pr_owner = ''o'', pr_name = ''n'', pr_generation = 1\<rparr> 5 s \<and> wire_data (ws_wire s) = [hello] \<and>
    prefix (wire_data (ws_wire s)) (ws_accepted s) \<and> queue_size (bq_items (ws_queue s)) \<le> 5"
proof -
  obtain s where s: "ws_reachable \<lparr>pr_owner = ''o'', pr_name = ''n'', pr_generation = 1\<rparr> 5 s" "ws_wire s = [Data_frame hello]"
    using message_run [of hello] by (auto simp: hello_def)
  have "prefix (wire_data (ws_wire s)) (ws_accepted s) \<and> queue_size (bq_items (ws_queue s)) \<le> 5"
    using connection_delivers_in_order [OF s(1)] by simp
  with s show ?thesis by auto
qed

end
