(* ===== verification/Remote_Client.thy ===== *)
theory Remote_Client
  imports Remote_Connection
begin

section \<open>The remote client (internal/remote/client.go)\<close>

text \<open>
  What the client makes of the messages it receives on a connection: a single response, or a followed
  target, whose output it writes on. The writer below is a function of its state and the data that may
  fail. After the last message of the list the connection gives an error.
\<close>

datatype 'e client_error =
    Follow_requires_Follow
  | Nil_writer
  | Invalid_remote protocol_error
  | Read_error
  | Expected_json
  | Bad_response
  | Bad_response_version
  | Mismatched_response
  | Server_error protocol_error
  | Data_before_acknowledgement
  | Invalid_acknowledgement
  | Ended_before_acknowledgement
  | Unexpected_type
  | Output_error 'e
  | Bad_base_url
  | Bad_timeout
  | Http_status int
  | Bad_body

record base_url =
  bu_scheme :: string
  bu_host :: string
  bu_path :: string
  bu_query :: string
  bu_fragment :: string

definition defaultClientOperationTimeout :: int where "defaultClientOperationTimeout = 30 * 1000000000"

text \<open>\<open>NewClient\<close>: the URL, as \<open>url.Parse\<close> took it apart, becomes that of the WebSocket; the timeout gets its
default.\<close>

definition NewClient :: "base_url option \<Rightarrow> int \<Rightarrow> 'e client_error + base_url \<times> base_url \<times> int" where
  "NewClient url timeout =
     (case url of
        None \<Rightarrow> Inl Bad_base_url
      | Some u \<Rightarrow>
          (if bu_scheme u \<noteq> ''http'' \<or> bu_host u = [] \<or> bu_path u \<noteq> [] \<and> bu_path u \<noteq> ''/'' \<or> bu_query u \<noteq> [] \<or> bu_fragment u \<noteq> []
           then Inl Bad_base_url
           else (let base = u\<lparr>bu_path := trim_right (\<lambda>c. c = CHR ''/'') (bu_path u)\<rparr>;
                     ws = base\<lparr>bu_scheme := ''ws'', bu_path := bu_path base @ ''/v1/ws''\<rparr>
             in if timeout < 0 then Inl Bad_timeout
                else Inr (base, ws, if timeout = 0 then defaultClientOperationTimeout else timeout))))"

text \<open>The request IDs count up from one.\<close>

definition requestID :: "64 word \<Rightarrow> 64 word \<times> string" where
  "requestID n = (n + 1, ''req-'' @ format_uint (unat (n + 1)))"

definition decodeProtocolResponse :: "(string \<Rightarrow> remote_response option) \<Rightarrow> string \<Rightarrow> 'e client_error + remote_response" where
  "decodeProtocolResponse dec bytes =
     (case dec bytes of
        None \<Rightarrow> Inl Bad_response
      | Some r \<Rightarrow> if rp_version r \<noteq> ProtocolVersion then Inl Bad_response_version else Inr r)"

text \<open>What a request gets before it is sent: the version and an ID, when it has none.\<close>

definition fill_request :: "64 word \<Rightarrow> remote_request \<Rightarrow> 64 word \<times> remote_request" where
  "fill_request n req =
     (let req = (if rq_version req = 0 then req\<lparr>rq_version := ProtocolVersion\<rparr> else req) in
      if rq_id req = [] then (case requestID n of (n, i) \<Rightarrow> (n, req\<lparr>rq_id := i\<rparr>)) else (n, req))"

definition unary_response ::
  "(string \<Rightarrow> remote_response option) \<Rightarrow> string \<Rightarrow> outbound_message list \<Rightarrow> 'e client_error + remote_response" where
  "unary_response dec i received =
     (case received of
        [] \<Rightarrow> Inl Read_error
      | m # _ \<Rightarrow>
          (if om_type m \<noteq> TextMessage then Inl Expected_json
           else bind_err (decodeProtocolResponse dec (om_data m)) (\<lambda>r.
             if rp_id r \<noteq> i \<or> rp_type r \<noteq> ResponseTypeResponse then Inl Mismatched_response
             else (case rp_error r of Some e \<Rightarrow> Inl (Server_error e) | None \<Rightarrow> Inr r))))"

definition Unary ::
  "(string \<Rightarrow> remote_response option) \<Rightarrow> 64 word \<Rightarrow> remote_request \<Rightarrow> (remote_request \<Rightarrow> outbound_message list) \<Rightarrow>
   'e client_error + remote_response" where
  "Unary dec n req answer =
     (if rq_operation req = OperationFollow then Inl Follow_requires_Follow
      else (case fill_request n req of (n, req) \<Rightarrow>
        (case validateRequest req of
           Some e \<Rightarrow> Inl (Invalid_remote e)
         | None \<Rightarrow> unary_response dec (rq_id req) (answer req))))"

fun follow_loop ::
  "(string \<Rightarrow> remote_response option) \<Rightarrow> ('s \<Rightarrow> string \<Rightarrow> 's \<times> 'e option) \<Rightarrow> string \<Rightarrow> bool \<Rightarrow> 's \<Rightarrow> outbound_message list \<Rightarrow>
   's \<times> 'e client_error option" where
  "follow_loop dec write i started s [] = (s, Some Read_error)"
| "follow_loop dec write i started s (m # ms) =
     (case om_type m of
        BinaryMessage \<Rightarrow>
          (if \<not> started then (s, Some Data_before_acknowledgement)
           else (case write s (om_data m) of
             (s, Some e) \<Rightarrow> (s, Some (Output_error e))
           | (s, None) \<Rightarrow> follow_loop dec write i started s ms))
      | TextMessage \<Rightarrow>
          (case decodeProtocolResponse dec (om_data m) of
             Inl e \<Rightarrow> (s, Some e)
           | Inr r \<Rightarrow>
               (if rp_id r \<noteq> i then (s, Some Mismatched_response)
                else if rp_error r \<noteq> None \<and> rp_type r = ResponseTypeResponse then (s, Some (Server_error (the (rp_error r))))
                else (case rp_type r of
                    ResponseTypeFollowStarted \<Rightarrow>
                      if started \<or> rp_error r \<noteq> None then (s, Some Invalid_acknowledgement)
                      else follow_loop dec write i True s ms
                  | ResponseTypeFollowEnded \<Rightarrow>
                      if \<not> started then (s, Some Ended_before_acknowledgement)
                      else (s, map_option Server_error (rp_error r))
                  | ResponseTypeResponse \<Rightarrow> (s, Some Unexpected_type)))))"

definition Follow ::
  "(string \<Rightarrow> remote_response option) \<Rightarrow> 64 word \<Rightarrow> remote_request \<Rightarrow> ('s \<Rightarrow> string \<Rightarrow> 's \<times> 'e option) \<Rightarrow> 's \<Rightarrow>
   (remote_request \<Rightarrow> outbound_message list) \<Rightarrow> 's \<times> 'e client_error option" where
  "Follow dec n req write s answer =
     (case fill_request n (req\<lparr>rq_operation := OperationFollow\<rparr>) of (n, req) \<Rightarrow>
        (case validateRequest req of
           Some e \<Rightarrow> (s, Some (Invalid_remote e))
         | None \<Rightarrow> follow_loop dec write (rq_id req) False s (answer req)))"

text \<open>The answer to a management request: a status and a body, which may be an error envelope or the value
asked for.\<close>

definition management_result :: "int \<Rightarrow> protocol_error option option \<Rightarrow> 'a option \<Rightarrow> 'e client_error + 'a" where
  "management_result status envelope val =
     (if status < 200 \<or> 300 \<le> status then
        (case envelope of Some (Some e) \<Rightarrow> Inl (Server_error e) | _ \<Rightarrow> Inl (Http_status status))
      else (case val of None \<Rightarrow> Inl Bad_body | Some x \<Rightarrow> Inr x))"

subsection \<open>Following over a connection\<close>

text \<open>What the server enqueues for a follow that ends by itself.\<close>

definition follow_messages :: "(remote_response \<Rightarrow> string) \<Rightarrow> string \<Rightarrow> string list \<Rightarrow> outbound_message list" where
  "follow_messages enc i chunks =
     \<lparr>om_type = TextMessage, om_data = enc (plain_response ResponseTypeFollowStarted i None)\<rparr> #
     map (\<lambda>c. \<lparr>om_type = BinaryMessage, om_data = c\<rparr>) chunks @
     [\<lparr>om_type = TextMessage, om_data = enc (plain_response ResponseTypeFollowEnded i None)\<rparr>]"

definition append_output :: "string \<Rightarrow> string \<Rightarrow> string \<times> 'e option" where
  "append_output out bytes = (out @ bytes, None)"

lemma plain_response_fields [simp]:
  "rp_version (plain_response t i e) = ProtocolVersion" "rp_type (plain_response t i e) = t"
  "rp_id (plain_response t i e) = i" "rp_error (plain_response t i e) = e"
  by (simp_all add: plain_response_def)

lemma decode_plain:
  assumes "\<And>t. dec (enc (plain_response t i None)) = Some (plain_response t i None)"
  shows "decodeProtocolResponse dec (enc (plain_response t i None)) = Inr (plain_response t i None)"
  by (simp add: decodeProtocolResponse_def assms)

lemma follow_data:
  "follow_loop dec append_output i True out (map (\<lambda>c. \<lparr>om_type = BinaryMessage, om_data = c\<rparr>) cs @ ms) =
   follow_loop dec append_output i True (out @ concat cs) ms"
  by (induction cs arbitrary: out) (simp_all add: append_output_def)

lemma follow_all:
  assumes "\<And>t. dec (enc (plain_response t i None)) = Some (plain_response t i None)"
  shows "follow_loop dec append_output i False out (follow_messages enc i cs) = (out @ concat cs, None)"
  by (simp add: follow_messages_def follow_data decode_plain [OF assms])

lemma follow_some:
  assumes "\<And>t. dec (enc (plain_response t i None)) = Some (plain_response t i None)" "prefix ms (follow_messages enc i cs)" "ms \<noteq> follow_messages enc i cs"
  shows "\<exists>k. follow_loop dec append_output i False out ms = (out @ concat (take k cs), Some Read_error)"
proof (cases ms)
  case Nil
  then show ?thesis by (intro exI [of _ 0]) simp
next
  case (Cons m rest)
  let ?data = "map (\<lambda>c. \<lparr>om_type = BinaryMessage, om_data = c\<rparr>) cs"
  let ?fin = "\<lparr>om_type = TextMessage, om_data = enc (plain_response ResponseTypeFollowEnded i None)\<rparr>"
  have m: "m = \<lparr>om_type = TextMessage, om_data = enc (plain_response ResponseTypeFollowStarted i None)\<rparr>"
    and "prefix rest (?data @ [?fin])" "rest \<noteq> ?data @ [?fin]"
    using assms(2,3) Cons by (auto simp: follow_messages_def)
  then have "prefix rest ?data" by (simp add: prefix_snoc)
  then obtain k where "rest = map (\<lambda>c. \<lparr>om_type = BinaryMessage, om_data = c\<rparr>) (take k cs)"
    by (metis prefix_def append_eq_conv_conj take_map)
  then show ?thesis
    using follow_data [of dec i out "take k cs" "[]"]
    by (intro exI [of _ k]) (simp add: Cons m decode_plain [OF assms(1)])
qed

subsection \<open>Properties\<close>

text \<open>C17: Following end to end. When the server has enqueued, on a connection in any reachable state, the
acknowledgement, the chunks of output and the end of a follow, or the first part of them, the client that
reads what is on the wire writes exactly the chunks that arrived, in order, and it reports success only when
everything arrived.\<close>

lemma follow_end_to_end:
  assumes "ws_reachable p n s" "0 \<le> n" "\<And>t. dec (enc (plain_response t i None)) = Some (plain_response t i None)"
    and "prefix (ws_accepted s) (follow_messages enc i chunks)"
  shows "\<exists>k err. follow_loop dec append_output i False [] (wire_data (ws_wire s)) = (concat (take k chunks), err) \<and>
    (err = None \<longleftrightarrow> wire_data (ws_wire s) = follow_messages enc i chunks) \<and>
    (err = None \<longrightarrow> concat (take k chunks) = concat chunks)"
proof (cases "wire_data (ws_wire s) = follow_messages enc i chunks")
  case True
  then show ?thesis using follow_all [OF assms(3), of "[]" chunks] by (intro exI [of _ "length chunks"]) simp
next
  case False
  have "order_ok s" using ws_reachable_ok [OF assms(1,2)] by blast
  then have "prefix (wire_data (ws_wire s)) (follow_messages enc i chunks)"
    using assms(4) by (auto simp: order_ok_def intro: prefix_order.trans)
  from follow_some [OF assms(3) this False, of "[]"] False show ?thesis by auto
qed

subsection \<open>Witness\<close>

definition sample_enc :: "remote_response \<Rightarrow> string" where
  "sample_enc r = (case rp_type r of ResponseTypeResponse \<Rightarrow> ''R'' | ResponseTypeFollowStarted \<Rightarrow> ''S'' | ResponseTypeFollowEnded \<Rightarrow> ''E'')"

definition sample_dec :: "string \<Rightarrow> remote_response option" where
  "sample_dec s =
     (if s = ''R'' then Some (plain_response ResponseTypeResponse ''req-1'' None)
      else if s = ''S'' then Some (plain_response ResponseTypeFollowStarted ''req-1'' None)
      else if s = ''E'' then Some (plain_response ResponseTypeFollowEnded ''req-1'' None) else None)"

lemma follow_end_to_end_witness:
  "\<exists>s k err. ws_reachable \<lparr>pr_owner = ''o'', pr_name = ''n'', pr_generation = 1\<rparr> 5 s \<and> length (wire_data (ws_wire s)) = 1 \<and>
    follow_loop sample_dec append_output ''req-1'' False [] (wire_data (ws_wire s)) = (concat (take k [''a'', ''b'']), err) \<and>
    err \<noteq> (None :: unit client_error option)"
proof -
  let ?m = "\<lparr>om_type = TextMessage, om_data = sample_enc (plain_response ResponseTypeFollowStarted ''req-1'' None)\<rparr>"
  obtain s where s: "ws_reachable \<lparr>pr_owner = ''o'', pr_name = ''n'', pr_generation = 1\<rparr> 5 s"
      "ws_wire s = [Data_frame ?m]" "ws_accepted s = [?m]"
    using message_run [of ?m] by (auto simp: sample_enc_def)
  have codec: "sample_dec (sample_enc (plain_response t ''req-1'' None)) = Some (plain_response t ''req-1'' None)" for t
    by (cases t) (simp_all add: sample_enc_def sample_dec_def)
  have pre: "prefix (ws_accepted s) (follow_messages sample_enc ''req-1'' [''a'', ''b''])"
    by (simp add: s follow_messages_def)
  obtain k and err :: "unit client_error option"
    where "follow_loop sample_dec append_output ''req-1'' False [] (wire_data (ws_wire s)) = (concat (take k [''a'', ''b'']), err)"
      "err = None \<longleftrightarrow> wire_data (ws_wire s) = follow_messages sample_enc ''req-1'' [''a'', ''b'']"
    using follow_end_to_end [OF s(1) _ codec pre] by auto
  moreover have "wire_data (ws_wire s) \<noteq> follow_messages sample_enc ''req-1'' [''a'', ''b'']"
    by (simp add: s follow_messages_def)
  ultimately show ?thesis using s by (intro exI [of _ s] exI [of _ k] exI [of _ err]) simp
qed

end
