(* ===== verification/Remote_Limiter.thy ===== *)
theory Remote_Limiter
  imports Complex_Main Go_Library "HOL-Library.AList"
begin

section \<open>The rate limiter (internal/remote/limiter.go)\<close>

text \<open>
  A token bucket per remote address. A \<open>float64\<close> is a rational, an infinity or not a number; arithmetic is
  exact, so rounding is not modelled, but what comparisons do with \<open>NaN\<close> is. Times are nanoseconds of the
  monotonic clock.
\<close>

datatype go_float = NaN | Fin rat | PInf | NInf

text \<open>The operations that the limiter uses.\<close>

fun f_add :: "go_float \<Rightarrow> go_float \<Rightarrow> go_float" where
  "f_add NaN y = NaN"
| "f_add x NaN = NaN"
| "f_add (Fin x) (Fin y) = Fin (x + y)"
| "f_add PInf NInf = NaN"
| "f_add NInf PInf = NaN"
| "f_add PInf y = PInf"
| "f_add NInf y = NInf"
| "f_add x PInf = PInf"
| "f_add x NInf = NInf"

definition f_scale :: "rat \<Rightarrow> go_float \<Rightarrow> go_float" where
  "f_scale q x =
     (case x of
        NaN \<Rightarrow> NaN
      | Fin y \<Rightarrow> Fin (q * y)
      | PInf \<Rightarrow> if q = 0 then NaN else if 0 < q then PInf else NInf
      | NInf \<Rightarrow> if q = 0 then NaN else if 0 < q then NInf else PInf)"

text \<open>The quotient of a finite and any number; the sign of a zero divisor is taken to be plus.\<close>

definition f_quotient :: "rat \<Rightarrow> go_float \<Rightarrow> go_float" where
  "f_quotient q x =
     (case x of
        NaN \<Rightarrow> NaN
      | Fin y \<Rightarrow> if y \<noteq> 0 then Fin (q / y) else if q = 0 then NaN else if 0 < q then PInf else NInf
      | PInf \<Rightarrow> Fin 0
      | NInf \<Rightarrow> Fin 0)"

fun f_less :: "go_float \<Rightarrow> go_float \<Rightarrow> bool" where
  "f_less NaN y = False"
| "f_less x NaN = False"
| "f_less (Fin x) (Fin y) \<longleftrightarrow> x < y"
| "f_less x NInf = False"
| "f_less NInf y = True"
| "f_less PInf y = False"
| "f_less x PInf = True"

text \<open>The conversion to a 64-bit integer cuts off the fraction. Out of range its result is up to the
implementation: \<open>wild\<close>.\<close>

definition truncate_rat :: "rat \<Rightarrow> int" where
  "truncate_rat q = (if 0 \<le> q then \<lfloor>q\<rfloor> else \<lceil>q\<rceil>)"

definition to_duration :: "int \<Rightarrow> go_float \<Rightarrow> int" where
  "to_duration wild x =
     (case x of Fin q \<Rightarrow> if - (2 ^ 63) \<le> truncate_rat q \<and> truncate_rat q < 2 ^ 63 then truncate_rat q else wild | _ \<Rightarrow> wild)"

abbreviation second :: int where "second \<equiv> 1000000000"

definition maxRateLimiterEntries :: nat where "maxRateLimiterEntries = 4096"

record rate_bucket =
  rb_tokens :: go_float
  rb_updated :: int
  rb_lastSeen :: int

record rate_limiter =
  rl_rate :: go_float
  rl_burst :: rat
  rl_buckets :: "(string \<times> rate_bucket) list"

definition newKeyedRateLimiter :: "go_float \<Rightarrow> int \<Rightarrow> rate_limiter" where
  "newKeyedRateLimiter rate burst = \<lparr>rl_rate = rate, rl_burst = of_int burst, rl_buckets = []\<rparr>"

definition seconds_between :: "int \<Rightarrow> int \<Rightarrow> rat" where
  "seconds_between now t = of_int (now - t) / of_int second"

definition cap_tokens :: "rate_limiter \<Rightarrow> go_float \<Rightarrow> go_float" where
  "cap_tokens l x = (if f_less (Fin (rl_burst l)) x then Fin (rl_burst l) else x)"

definition refill :: "rate_limiter \<Rightarrow> rate_bucket \<Rightarrow> int \<Rightarrow> rate_bucket" where
  "refill l b now =
     (let elapsed = seconds_between now (rb_updated b);
          tokens = (if 0 < elapsed then cap_tokens l (f_add (rb_tokens b) (f_scale elapsed (rl_rate l))) else rb_tokens b)
      in b\<lparr>rb_tokens := tokens, rb_updated := now, rb_lastSeen := now\<rparr>)"

definition prune :: "int \<Rightarrow> rate_limiter \<Rightarrow> int \<Rightarrow> rate_limiter" where
  "prune wild l now =
     (let idle = to_duration wild (f_scale (of_int second) (f_scale 2 (f_quotient (rl_burst l) (rl_rate l))));
          idleFor = (if idle < 60 * second then 60 * second else idle)
      in l\<lparr>rl_buckets := filter (\<lambda>(k, b). now - rb_lastSeen b < idleFor) (rl_buckets l)\<rparr>)"

definition put_bucket :: "rate_limiter \<Rightarrow> string \<Rightarrow> rate_bucket \<Rightarrow> rate_limiter" where
  "put_bucket l key b = l\<lparr>rl_buckets := AList.update key b (rl_buckets l)\<rparr>"

definition check_bucket :: "rate_limiter \<Rightarrow> int \<Rightarrow> string \<Rightarrow> bool \<Rightarrow> rate_bucket \<Rightarrow> rate_limiter \<times> bool" where
  "check_bucket l now key consume b =
     (let b = refill l b now in
      if f_less (rb_tokens b) (Fin 1) then (put_bucket l key b, False)
      else (put_bucket l key (if consume then b\<lparr>rb_tokens := f_add (rb_tokens b) (Fin (- 1))\<rparr> else b), True))"

definition check :: "int \<Rightarrow> rate_limiter \<Rightarrow> int \<Rightarrow> string \<Rightarrow> bool \<Rightarrow> rate_limiter \<times> bool" where
  "check wild l now key consume =
     (case map_of (rl_buckets l) key of
        Some b \<Rightarrow> check_bucket l now key consume b
      | None \<Rightarrow>
          (if \<not> consume then (l, True)
           else (let l = (if maxRateLimiterEntries \<le> length (rl_buckets l) then prune wild l now else l) in
             if maxRateLimiterEntries \<le> length (rl_buckets l) then (l, False)
             else check_bucket l now key consume \<lparr>rb_tokens = Fin (rl_burst l), rb_updated = now, rb_lastSeen = 0\<rparr>)))"

definition Available :: "int \<Rightarrow> rate_limiter \<Rightarrow> int \<Rightarrow> string \<Rightarrow> rate_limiter \<times> bool" where
  "Available wild l now key = check wild l now key False"

definition Allow :: "int \<Rightarrow> rate_limiter \<Rightarrow> int \<Rightarrow> string \<Rightarrow> rate_limiter \<times> bool" where
  "Allow wild l now key = check wild l now key True"

definition Refund :: "rate_limiter \<Rightarrow> int \<Rightarrow> string \<Rightarrow> rate_limiter" where
  "Refund l now key =
     (case map_of (rl_buckets l) key of
        None \<Rightarrow> l
      | Some b \<Rightarrow>
          (let b = refill l b now
           in put_bucket l key (b\<lparr>rb_tokens := cap_tokens l (f_add (rb_tokens b) (Fin 1))\<rparr>)))"

subsection \<open>The key of a request\<close>

text \<open>\<open>net.SplitHostPort\<close>: the host, when the address has the form \<open>host:port\<close> or \<open>[host]:port\<close>.\<close>

definition index_of :: "char \<Rightarrow> string \<Rightarrow> nat option" where
  "index_of c s = (if c \<in> set s then Some (length (takeWhile (\<lambda>x. x \<noteq> c) s)) else None)"

definition last_index_of :: "char \<Rightarrow> string \<Rightarrow> nat option" where
  "last_index_of c s = map_option (\<lambda>i. length s - 1 - i) (index_of c (rev s))"

definition split_host :: "string \<Rightarrow> string option" where
  "split_host s =
     (case last_index_of CHR '':'' s of
        None \<Rightarrow> None
      | Some i \<Rightarrow>
          (if s ! 0 = CHR ''['' then
             (case index_of CHR '']'' s of
                None \<Rightarrow> None
              | Some e \<Rightarrow>
                  (if e + 1 \<noteq> i \<or> CHR ''['' \<in> set (drop 1 s) \<or> CHR '']'' \<in> set (drop (e + 1) s) then None
                   else Some (take (e - 1) (drop 1 s))))
           else if CHR '':'' \<in> set (take i s) \<or> CHR ''['' \<in> set s \<or> CHR '']'' \<in> set s then None
           else Some (take i s)))"

definition remoteAddressKey :: "string \<Rightarrow> string" where
  "remoteAddressKey addr =
     (case split_host addr of
        Some host \<Rightarrow> if host \<noteq> [] then host else if addr \<noteq> [] then addr else ''unknown''
      | None \<Rightarrow> if addr \<noteq> [] then addr else ''unknown'')"

subsection \<open>The tokens of an address\<close>

text \<open>
  The abstract bucket of an address at a time \<open>t\<close>: an address without an entry has a full bucket, any other
  one has what it held at its last update and what it gained since. A call reads the clock before it takes the
  lock, so a bucket may have been updated at a time after \<open>t\<close>; it gains nothing then.
\<close>

definition gained :: "int \<Rightarrow> int \<Rightarrow> rat" where
  "gained t u = max 0 (seconds_between t u)"

definition level :: "rate_limiter \<Rightarrow> rat \<Rightarrow> string \<Rightarrow> int \<Rightarrow> rat" where
  "level l r key t =
     (case map_of (rl_buckets l) key of
        None \<Rightarrow> rl_burst l
      | Some b \<Rightarrow> (case rb_tokens b of Fin x \<Rightarrow> min (rl_burst l) (x + gained t (rb_updated b) * r) | _ \<Rightarrow> 0))"

definition bucket_ok :: "rate_limiter \<Rightarrow> rate_bucket \<Rightarrow> bool" where
  "bucket_ok l b \<longleftrightarrow> (\<exists>x. rb_tokens b = Fin x \<and> 0 \<le> x \<and> x \<le> rl_burst l) \<and> rb_updated b = rb_lastSeen b"

definition limiter_ok :: "rate_limiter \<Rightarrow> rat \<Rightarrow> bool" where
  "limiter_ok l r \<longleftrightarrow> rl_rate l = Fin r \<and> 0 < r \<and> 1 \<le> rl_burst l \<and>
     2 * rl_burst l / r * of_int second < 2 ^ 63 \<and>
     length (rl_buckets l) \<le> maxRateLimiterEntries \<and> distinct (map fst (rl_buckets l)) \<and>
     (\<forall>key b. map_of (rl_buckets l) key = Some b \<longrightarrow> bucket_ok l b)"

lemma seconds_between_add: "seconds_between t' u = seconds_between t u + seconds_between t' t"
  by (simp add: seconds_between_def field_simps)

lemma gained_add: "gained t' u \<le> gained t u + gained t' t"
  using seconds_between_add [of t' u t] by (auto simp: gained_def)

lemma gained_same [simp]: "gained t t = 0" and gained_nonneg [simp]: "0 \<le> gained t u"
  by (simp_all add: gained_def seconds_between_def)

lemma seconds_between_pos: "0 < seconds_between t u \<longleftrightarrow> u < t"
  by (simp add: seconds_between_def zero_less_divide_iff)

lemma limiter_okD: "limiter_ok l r \<Longrightarrow> map_of (rl_buckets l) key = Some b \<Longrightarrow> bucket_ok l b"
  by (simp add: limiter_ok_def)

lemma level_bounds:
  assumes "limiter_ok l r"
  shows "0 \<le> level l r key t" "level l r key t \<le> rl_burst l"
proof -
  have "0 \<le> level l r key t \<and> level l r key t \<le> rl_burst l"
  proof (cases "map_of (rl_buckets l) key")
    case None
    then show ?thesis using assms by (simp add: level_def limiter_ok_def)
  next
    case (Some b)
    have r: "0 < r" "1 \<le> rl_burst l" using assms by (auto simp: limiter_ok_def)
    obtain x where x: "rb_tokens b = Fin x" "0 \<le> x" using limiter_okD [OF assms Some] by (auto simp: bucket_ok_def)
    have "0 \<le> gained t (rb_updated b) * r" using r by simp
    then show ?thesis using x r Some by (simp add: level_def)
  qed
  then show "0 \<le> level l r key t" "level l r key t \<le> rl_burst l" by auto
qed

lemma level_grows:
  assumes "limiter_ok l r"
  shows "level l r key t' \<le> level l r key t + gained t' t * r"
proof -
  have "0 < r" using assms(1) by (simp add: limiter_ok_def)
  then have g: "0 \<le> gained t' t * r" by simp
  show ?thesis
  proof (cases "map_of (rl_buckets l) key")
    case None
    then show ?thesis using g by (simp add: level_def)
  next
    case (Some b)
    then obtain x where x: "rb_tokens b = Fin x" using limiter_okD [OF assms(1) Some] by (auto simp: bucket_ok_def)
    have "gained t' (rb_updated b) * r \<le> (gained t (rb_updated b) + gained t' t) * r"
      using gained_add \<open>0 < r\<close> by (intro mult_right_mono) auto
    then show ?thesis using Some x g by (simp add: level_def distrib_right)
  qed
qed

text \<open>Refilling moves the level into the bucket.\<close>

lemma refill_level:
  assumes "bucket_ok l b" "rl_rate l = Fin r" "0 < r"
  shows "\<exists>x. refill l b now = \<lparr>rb_tokens = Fin x, rb_updated = now, rb_lastSeen = now\<rparr> \<and> 0 \<le> x \<and> x \<le> rl_burst l \<and>
    (case rb_tokens b of Fin y \<Rightarrow> x = min (rl_burst l) (y + gained now (rb_updated b) * r) | _ \<Rightarrow> True)"
proof -
  obtain y where y: "rb_tokens b = Fin y" "0 \<le> y" "y \<le> rl_burst l" using assms(1) by (auto simp: bucket_ok_def)
  show ?thesis
  proof (cases "rb_updated b < now")
    case True
    then have g: "gained now (rb_updated b) = seconds_between now (rb_updated b)" "0 < seconds_between now (rb_updated b)"
      by (simp_all add: gained_def seconds_between_pos less_imp_le)
    then have "0 < seconds_between now (rb_updated b) * r" using assms(3) by simp
    then show ?thesis
      using y g assms(2) by (cases b) (auto simp: refill_def Let_def f_scale_def cap_tokens_def min_def)
  next
    case False
    then have "\<not> 0 < seconds_between now (rb_updated b)" by (simp add: seconds_between_pos)
    then show ?thesis using y by (cases b) (simp add: refill_def Let_def gained_def max_def)
  qed
qed

subsection \<open>One call\<close>

datatype limiter_op = Allow_op | Available_op | Refund_op

fun limiter_step :: "int \<Rightarrow> rate_limiter \<Rightarrow> int \<Rightarrow> string \<Rightarrow> limiter_op \<Rightarrow> rate_limiter \<times> bool" where
  "limiter_step wild l now key Allow_op = Allow wild l now key"
| "limiter_step wild l now key Available_op = Available wild l now key"
| "limiter_step wild l now key Refund_op = (Refund l now key, False)"

lemma level_put_same: "level (put_bucket l key b) r key t =
    (case rb_tokens b of Fin x \<Rightarrow> min (rl_burst l) (x + gained t (rb_updated b) * r) | _ \<Rightarrow> 0)"
  by (simp add: level_def put_bucket_def update_conv' split: option.split go_float.split)

lemma level_put_other: "k \<noteq> key \<Longrightarrow> level (put_bucket l key b) r k t = level l r k t"
  by (simp add: level_def put_bucket_def update_conv' split: option.split go_float.split)

lemma length_AList_update: "map_of xs k \<noteq> None \<Longrightarrow> length (AList.update k v xs) = length xs"
  by (induction xs) (auto split: if_split_asm)

lemma length_AList_update_le: "length (AList.update k v xs) \<le> Suc (length xs)"
  by (induction xs) auto

lemma put_bucket_ok:
  assumes "limiter_ok l r" "rb_tokens b = Fin x" "0 \<le> x" "x \<le> rl_burst l" "rb_updated b = rb_lastSeen b"
    and "map_of (rl_buckets l) key \<noteq> None \<or> length (rl_buckets l) < maxRateLimiterEntries"
  shows "limiter_ok (put_bucket l key b) r"
proof -
  have "length (rl_buckets l) \<le> maxRateLimiterEntries" using assms(1) by (simp add: limiter_ok_def)
  then have "length (AList.update key b (rl_buckets l)) \<le> maxRateLimiterEntries"
    using assms(6) length_AList_update [of "rl_buckets l" key b] length_AList_update_le [of key b "rl_buckets l"]
    by (cases "map_of (rl_buckets l) key = None") auto
  moreover have "bucket_ok (put_bucket l key b) c" if "map_of (AList.update key b (rl_buckets l)) k = Some c" for k c
    using that limiter_okD [OF assms(1), of k c] assms(2-5) by (auto simp: update_conv' bucket_ok_def put_bucket_def split: if_split_asm)
  ultimately show ?thesis using assms(1) by (simp add: limiter_ok_def put_bucket_def distinct_update)
qed

text \<open>A check of a bucket takes a token from it when one is asked for and there is one.\<close>

lemma check_bucket_step:
  assumes l: "limiter_ok l r" and b: "bucket_ok l b"
    and room: "map_of (rl_buckets l) key \<noteq> None \<or> length (rl_buckets l) < maxRateLimiterEntries"
    and lev: "level l r key t = (case rb_tokens b of Fin y \<Rightarrow> min (rl_burst l) (y + gained t (rb_updated b) * r) | _ \<Rightarrow> 0)"
    and c: "check_bucket l t key consume b = (l', granted)"
  shows "limiter_ok l' r \<and> level l' r key t + (if granted \<and> consume then 1 else 0) = level l r key t \<and>
    (\<forall>k. k \<noteq> key \<longrightarrow> level l' r k t = level l r k t)"
proof -
  have r: "rl_rate l = Fin r" "0 < r" using l by (auto simp: limiter_ok_def)
  obtain x where x: "refill l b t = \<lparr>rb_tokens = Fin x, rb_updated = t, rb_lastSeen = t\<rparr>" "0 \<le> x" "x \<le> rl_burst l"
    and lx: "level l r key t = x"
    using refill_level [OF b r, of t] lev b by (auto simp: bucket_ok_def)
  show ?thesis
  proof (cases "x < 1")
    case True
    then have "l' = put_bucket l key (refill l b t)" "\<not> granted" using c x(1) by (auto simp: check_bucket_def Let_def)
    then show ?thesis
      using put_bucket_ok [OF l, of "refill l b t" x key] x room lx by (simp add: level_put_same level_put_other min_def)
  next
    case False
    define y where "y = (if consume then x - 1 else x)"
    have y: "0 \<le> y" "y \<le> rl_burst l" using False x(3) by (auto simp: y_def)
    have "l' = put_bucket l key ((refill l b t)\<lparr>rb_tokens := Fin y\<rparr>)" "granted"
      using c x(1) False by (auto simp: check_bucket_def Let_def y_def)
    then show ?thesis
      using put_bucket_ok [OF l, of "(refill l b t)\<lparr>rb_tokens := Fin y\<rparr>" y key] y x(1) room lx
      by (simp add: level_put_same level_put_other min_def y_def)
  qed
qed

text \<open>Pruning drops only buckets that are full again.\<close>

lemma prune_idle:
  assumes "limiter_ok l r" "rb_tokens b = Fin x" "0 \<le> x"
    and "\<not> t - rb_updated b < (if d < 60 * second then 60 * second else d)"
    and "d = to_duration wild (f_scale (of_int second) (f_scale 2 (f_quotient (rl_burst l) (rl_rate l))))"
  shows "rl_burst l \<le> x + gained t (rb_updated b) * r"
proof -
  have r: "rl_rate l = Fin r" "0 < r" "1 \<le> rl_burst l" "2 * rl_burst l / r * of_int second < 2 ^ 63"
    using assms(1) by (auto simp: limiter_ok_def)
  define q where "q = 2 * rl_burst l / r * of_int second"
  have q: "0 \<le> q" "0 \<le> \<lfloor>q\<rfloor>" "\<lfloor>q\<rfloor> < 2 ^ 63" using r by (simp_all add: q_def floor_less_iff)
  have "f_scale (of_int second) (f_scale 2 (f_quotient (rl_burst l) (rl_rate l))) = Fin q"
    using r by (simp add: f_quotient_def f_scale_def q_def)
  moreover have "- (2 ^ 63) \<le> \<lfloor>q\<rfloor>" using q(2) by simp
  ultimately have "d = \<lfloor>q\<rfloor>"
    using q unfolding assms(5) to_duration_def truncate_rat_def by (simp only: go_float.case if_True simp_thms)
  moreover have "d \<le> t - rb_updated b" "60 * second \<le> t - rb_updated b" using assms(4) by (auto split: if_split_asm)
  ultimately have "\<lfloor>q\<rfloor> \<le> t - rb_updated b" "60 * second \<le> t - rb_updated b" by simp_all
  then have "q < of_int (t - rb_updated b) + 1" "60 * of_int second \<le> (of_int (t - rb_updated b) :: rat)"
    by linarith+
  then have "q \<le> 2 * of_int (t - rb_updated b)" by simp
  then have "rl_burst l * of_int second \<le> of_int (t - rb_updated b) * r" using r(2) by (simp add: q_def field_simps)
  then have "rl_burst l \<le> seconds_between t (rb_updated b) * r" by (simp add: seconds_between_def field_simps)
  moreover have "seconds_between t (rb_updated b) * r \<le> gained t (rb_updated b) * r"
    using r(2) by (intro mult_right_mono) (simp_all add: gained_def)
  ultimately show ?thesis using assms(3) by linarith
qed

lemma map_of_filter_None: "key \<notin> fst ` set xs \<Longrightarrow> map_of (filter Q xs) key = None"
  by (induction xs) auto

lemma map_of_filter_value:
  "distinct (map fst xs) \<Longrightarrow> map_of (filter (\<lambda>(k, b). P b) xs) key =
    (case map_of xs key of None \<Rightarrow> None | Some b \<Rightarrow> if P b then Some b else None)"
  by (induction xs) (auto simp: map_of_filter_None split: option.split)

lemma prune_step:
  assumes "limiter_ok l r"
  shows "limiter_ok (prune wild l t) r \<and> (\<forall>k. level (prune wild l t) r k t = level l r k t)"
proof -
  define d where "d = to_duration wild (f_scale (of_int second) (f_scale 2 (f_quotient (rl_burst l) (rl_rate l))))"
  define P :: "rate_bucket \<Rightarrow> bool" where "P = (\<lambda>b. t - rb_lastSeen b < (if d < 60 * second then 60 * second else d))"
  have p: "prune wild l t = l\<lparr>rl_buckets := filter (\<lambda>(k, b). P b) (rl_buckets l)\<rparr>"
    by (simp add: prune_def Let_def P_def d_def)
  have dist: "distinct (map fst (rl_buckets l))" using assms by (simp add: limiter_ok_def)
  note look = map_of_filter_value [OF dist, of P]
  have "distinct (map fst (filter (\<lambda>(k, b). P b) (rl_buckets l)))" using dist by (rule distinct_map_filter)
  moreover have "length (filter (\<lambda>(k, b). P b) (rl_buckets l)) \<le> maxRateLimiterEntries"
    using assms length_filter_le [of "\<lambda>(k, b). P b" "rl_buckets l"] by (simp add: limiter_ok_def del: length_filter_le)
  moreover have "\<forall>key b. map_of (rl_buckets (prune wild l t)) key = Some b \<longrightarrow> bucket_ok (prune wild l t) b"
  proof (intro allI impI)
    fix key b
    assume "map_of (rl_buckets (prune wild l t)) key = Some b"
    then have "map_of (rl_buckets l) key = Some b" by (simp add: look p split: option.split_asm if_split_asm)
    from limiter_okD [OF assms this] show "bucket_ok (prune wild l t) b" by (simp add: bucket_ok_def p)
  qed
  ultimately have "limiter_ok (prune wild l t) r" using assms unfolding limiter_ok_def by (simp add: p)
  moreover have "level (prune wild l t) r k t = level l r k t" for k
  proof (cases "map_of (rl_buckets l) k")
    case None
    then show ?thesis by (simp add: level_def p look)
  next
    case (Some b)
    obtain x where x: "rb_tokens b = Fin x" "0 \<le> x" "rb_updated b = rb_lastSeen b"
      using limiter_okD [OF assms Some] by (auto simp: bucket_ok_def)
    have "rl_burst l \<le> x + gained t (rb_updated b) * r" if "\<not> P b"
      using prune_idle [OF assms x(1,2) _ d_def] that x(3) by (simp add: P_def)
    then show ?thesis using Some x by (auto simp: level_def p look)
  qed
  ultimately show ?thesis by blast
qed

text \<open>What one call costs the address: a granted \<open>Allow\<close> a token, a \<open>Refund\<close> minus one.\<close>

fun cost :: "limiter_op \<Rightarrow> bool \<Rightarrow> int" where
  "cost Allow_op granted = (if granted then 1 else 0)"
| "cost Available_op granted = 0"
| "cost Refund_op granted = - 1"

lemma check_step:
  assumes l: "limiter_ok l r" and c: "check wild l t key consume = (l', granted)"
  shows "limiter_ok l' r \<and> level l' r key t + (if granted \<and> consume then 1 else 0) \<le> level l r key t \<and>
    (\<forall>k. k \<noteq> key \<longrightarrow> level l' r k t = level l r k t)"
proof (cases "map_of (rl_buckets l) key")
  case (Some b)
  then have "check_bucket l t key consume b = (l', granted)" using c by (simp add: check_def)
  from check_bucket_step [OF l limiter_okD [OF l Some] _ _ this] Some show ?thesis by (simp add: level_def)
next
  case None
  show ?thesis
  proof (cases consume)
    case True
    define m where "m = (if maxRateLimiterEntries \<le> length (rl_buckets l) then prune wild l t else l)"
    have m: "limiter_ok m r" "\<And>k. level m r k t = level l r k t" using l prune_step [OF l] by (auto simp: m_def)
    have new: "map_of (rl_buckets m) key = None" using None by (auto simp: m_def prune_def Let_def map_of_filter_None map_of_eq_None_iff)
    show ?thesis
    proof (cases "maxRateLimiterEntries \<le> length (rl_buckets m)")
      case True
      then have "l' = m" "\<not> granted" using c None \<open>consume\<close> by (auto simp: check_def m_def Let_def)
      then show ?thesis using m by simp
    next
      case False
      let ?b = "\<lparr>rb_tokens = Fin (rl_burst l), rb_updated = t, rb_lastSeen = 0\<rparr>"
      let ?c = "?b\<lparr>rb_lastSeen := t\<rparr>"
      have burst: "rl_burst m = rl_burst l" "1 \<le> rl_burst l" using l by (auto simp: m_def prune_def Let_def limiter_ok_def)
      have "check_bucket m t key consume \<lparr>rb_tokens = Fin (rl_burst m), rb_updated = t, rb_lastSeen = 0\<rparr> = (l', granted)"
        using c None True False unfolding check_def m_def Let_def by simp
      then have "check_bucket m t key consume ?b = (l', granted)" unfolding burst .
      moreover have "refill m ?b t = refill m ?c t" by (simp add: refill_def Let_def seconds_between_def)
      ultimately have "check_bucket m t key consume ?c = (l', granted)" unfolding check_bucket_def by metis
      note cb = this
      have lm: "level m r key t = rl_burst l" using new burst by (simp add: level_def)
      have "bucket_ok m ?c" using burst by (simp add: bucket_ok_def)
      from check_bucket_step [OF m(1) this _ _ cb] show ?thesis
        using False burst lm m(2) by (auto simp: seconds_between_def)
    qed
  next
    case False
    then show ?thesis using c l None by (simp add: check_def)
  qed
qed

lemma Refund_step:
  assumes "limiter_ok l r"
  shows "limiter_ok (Refund l t key) r \<and> level (Refund l t key) r key t \<le> level l r key t + 1 \<and>
    (\<forall>k. k \<noteq> key \<longrightarrow> level (Refund l t key) r k t = level l r k t)"
proof (cases "map_of (rl_buckets l) key")
  case None
  then show ?thesis using assms by (simp add: Refund_def)
next
  case (Some b)
  have r: "rl_rate l = Fin r" "0 < r" "1 \<le> rl_burst l" using assms by (auto simp: limiter_ok_def)
  obtain x where x: "refill l b t = \<lparr>rb_tokens = Fin x, rb_updated = t, rb_lastSeen = t\<rparr>" "0 \<le> x" "x \<le> rl_burst l"
    and lx: "level l r key t = x"
    using refill_level [OF limiter_okD [OF assms Some] r(1,2), of t] limiter_okD [OF assms Some] Some
    by (auto simp: level_def bucket_ok_def)
  define y where "y = min (rl_burst l) (x + 1)"
  have y: "0 \<le> y" "y \<le> rl_burst l" "y \<le> x + 1" using x r by (auto simp: y_def)
  have "Refund l t key = put_bucket l key ((refill l b t)\<lparr>rb_tokens := Fin y\<rparr>)"
    using Some x(1) by (auto simp: Refund_def Let_def cap_tokens_def y_def min_def)
  then show ?thesis
    using put_bucket_ok [OF assms, of "(refill l b t)\<lparr>rb_tokens := Fin y\<rparr>" y key] y x(1) Some lx
    by (simp add: level_put_same level_put_other min_def seconds_between_def)
qed

lemma limiter_step_potential:
  assumes "limiter_ok l r" "limiter_step wild l t key op = (l', granted)"
  shows "limiter_ok l' r \<and> level l' r k t + (if k = key then of_int (cost op granted) else 0) \<le> level l r k t"
proof (cases op)
  case Refund_op
  then have "l' = Refund l t key" using assms(2) by simp
  then show ?thesis using Refund_step [OF assms(1), of t key] Refund_op by (cases "k = key") auto
next
  case Allow_op
  then have "check wild l t key True = (l', granted)" using assms(2) by (simp add: Allow_def)
  from check_step [OF assms(1) this] show ?thesis using Allow_op by (cases "k = key") auto
next
  case Available_op
  then have "check wild l t key False = (l', granted)" using assms(2) by (simp add: Available_def)
  from check_step [OF assms(1) this] show ?thesis using Available_op by (cases "k = key") auto
qed

text \<open>A run of calls in the order in which they take the lock, with what it cost one address. The times, read
before, are in any order; \<open>forward\<close> is how far they move forward in all.\<close>

fun limiter_run :: "int \<Rightarrow> rate_limiter \<Rightarrow> string \<Rightarrow> (int \<times> string \<times> limiter_op) list \<Rightarrow> rate_limiter \<times> int" where
  "limiter_run wild l k [] = (l, 0)"
| "limiter_run wild l k ((t, key, op) # es) =
     (case limiter_step wild l t key op of
        (l, granted) \<Rightarrow>
          (case limiter_run wild l k es of
             (l, n) \<Rightarrow> (l, (if key = k then cost op granted else 0) + n)))"

fun forward :: "int list \<Rightarrow> rat" where
  "forward (t # t' # ts) = gained t' t + forward (t' # ts)"
| "forward _ = 0"

lemma forward_sorted: "sorted (t # ts) \<Longrightarrow> forward (t # ts) = seconds_between (last (t # ts)) t"
proof (induction ts arbitrary: t)
  case Nil
  then show ?case by (simp add: seconds_between_def)
next
  case (Cons u ts)
  then have "gained u t = seconds_between u t" by (simp add: gained_def seconds_between_def)
  then show ?case
    using Cons seconds_between_add [of "last (u # ts)" t u] by simp
qed

lemma limiter_run_potential:
  assumes "limiter_ok l r" "limiter_run wild l k es = (l', n)"
  shows "limiter_ok l' r \<and> (\<exists>t. level l' r k t + of_int n \<le> level l r k t0 + forward (t0 # map fst es) * r)"
  using assms
proof (induction es arbitrary: l t0 n l')
  case Nil
  then show ?case by auto
next
  case (Cons e es)
  obtain t key op where e: "e = (t, key, op)" by (cases e)
  obtain l1 granted where s: "limiter_step wild l t key op = (l1, granted)" by fastforce
  obtain l2 m where run: "limiter_run wild l1 k es = (l2, m)" by fastforce
  have "l' = l2" and n: "n = (if key = k then cost op granted else 0) + m" using Cons.prems(2) e s run by auto
  note pot = limiter_step_potential [OF Cons.prems(1) s, of k]
  obtain u where u: "limiter_ok l2 r"
      "level l2 r k u + of_int m \<le> level l1 r k t + forward (t # map fst es) * r"
    using Cons.IH [OF _ run, of t] pot by blast
  have "level l r k t \<le> level l r k t0 + gained t t0 * r" by (rule level_grows [OF Cons.prems(1)])
  moreover have "forward (t0 # map fst (e # es)) * r = gained t t0 * r + forward (t # map fst es) * r"
    by (simp add: e distrib_right)
  moreover have "level l1 r k t + of_int (if key = k then cost op granted else 0) \<le> level l r k t"
    using pot by (auto split: if_split_asm)
  ultimately have "level l2 r k u + of_int n \<le> level l r k t0 + forward (t0 # map fst (e # es)) * r"
    using u(2) n by (simp del: forward.simps)
  then show ?case using u(1) \<open>l' = l2\<close> by blast
qed

subsection \<open>Properties\<close>

text \<open>C13: The limiter keeps its rate. From a new limiter on, whatever other addresses do, pruning included, and
whatever the order in which the calls that have read the clock take the lock, the calls of one address that were
granted and not refunded never exceed the burst plus the rate times the seconds by which the times of the calls
move forward; which is the time that has passed when the calls take the lock in the order of their times. The
limiter never holds more than 4096 addresses. (The rate and the burst are positive and such that the pruning
interval fits in a duration.)\<close>

lemma limiter_keeps_rate:
  assumes "0 < r" "1 \<le> burst" "2 * of_int burst / r * of_int second < (2 ^ 63 :: rat)"
    and "limiter_run wild (newKeyedRateLimiter (Fin r) burst) k es = (l, n)"
  shows "of_int n \<le> of_int burst + forward (map fst es) * r \<and>
    (es \<noteq> [] \<and> sorted (map fst es) \<longrightarrow> forward (map fst es) = seconds_between (fst (last es)) (fst (hd es))) \<and>
    length (rl_buckets l) \<le> 4096"
proof -
  let ?l = "newKeyedRateLimiter (Fin r) burst" and ?t = "fst (hd es)"
  have new: "limiter_ok ?l r"
    using assms(1-3) by (simp add: limiter_ok_def newKeyedRateLimiter_def)
  have full: "level ?l r k ?t = of_int burst" by (simp add: level_def newKeyedRateLimiter_def)
  have f: "forward (?t # map fst es) = forward (map fst es)" by (cases es) simp_all
  obtain t where t: "limiter_ok l r"
      "level l r k t + of_int n \<le> of_int burst + forward (map fst es) * r"
    using limiter_run_potential [OF new assms(4), of ?t] unfolding full f by blast
  moreover have "forward (map fst es) = seconds_between (fst (last es)) (fst (hd es))" if "es \<noteq> []" "sorted (map fst es)"
    using that forward_sorted [of ?t "map fst (tl es)"] by (cases es) (auto simp: last_map)
  ultimately show ?thesis
    using level_bounds(1) [OF t(1), of k t] by (auto simp: limiter_ok_def maxRateLimiterEntries_def)
qed

text \<open>
  The time that passes is not a bound when calls overtake each other between the clock and the lock: a call that
  read the clock early and comes late sets the bucket back, and the time until the next call counts again. With
  one token and one more per second, three calls are granted within one second.
\<close>

lemma overtaking_exceeds_rate:
  "let es = [(0, ''a'', Allow_op), (second, ''a'', Allow_op), (0, ''a'', Allow_op), (second, ''a'', Allow_op)] in
   snd (limiter_run 0 (newKeyedRateLimiter (Fin 1) 1) ''a'' es) = 3 \<and> Max (set (map fst es)) - Min (set (map fst es)) = second"
  by (simp add: newKeyedRateLimiter_def Allow_def check_def maxRateLimiterEntries_def check_bucket_def refill_def Let_def
      seconds_between_def put_bucket_def f_scale_def cap_tokens_def)

text \<open>With a rate that is not a number, which \<open>--auth-rate NaN\<close> gives and the server accepts, an address
that was seen once and then again later is never refused: its tokens are not a number either, and every
later call is granted.\<close>

lemma nan_rate_never_limits:
  assumes "rl_rate l = NaN" "map_of (rl_buckets l) key = Some b" "rb_updated b < now \<or> rb_tokens b = NaN"
    and "Allow wild l now key = (l', granted)"
  shows "granted \<and> rl_rate l' = NaN \<and> (\<exists>b'. map_of (rl_buckets l') key = Some b' \<and> rb_tokens b' = NaN)"
proof -
  have f: "f_add x NaN = NaN" "\<not> f_less x NaN" "\<not> f_less NaN x" for x by (cases x; simp)+
  have s: "f_scale q NaN = NaN" for q by (simp add: f_scale_def)
  have n: "rb_tokens (refill l b now) = NaN"
    using assms(1,3) by (auto simp: refill_def Let_def seconds_between_pos s f cap_tokens_def)
  show ?thesis
    using assms(1,2,4) n by (auto simp: Allow_def check_def check_bucket_def Let_def f put_bucket_def update_conv')
qed

subsection \<open>Witnesses\<close>

lemma sample_limiter_run:
  "\<exists>l. limiter_run 0 (newKeyedRateLimiter (Fin 5) 2) ''a'' [(1, ''a'', Allow_op), (1, ''a'', Allow_op), (1, ''a'', Allow_op)] = (l, 2)"
  by (simp add: newKeyedRateLimiter_def Allow_def check_def maxRateLimiterEntries_def check_bucket_def refill_def Let_def
      seconds_between_def put_bucket_def)

lemma limiter_keeps_rate_witness:
  "\<exists>l. limiter_run 0 (newKeyedRateLimiter (Fin 5) 2) ''a'' [(1, ''a'', Allow_op), (1, ''a'', Allow_op), (1, ''a'', Allow_op)] = (l, 2) \<and>
    of_int 2 \<le> of_int 2 + forward [1, 1, 1] * 5 \<and> length (rl_buckets l) \<le> 4096"
proof -
  obtain l where l: "limiter_run 0 (newKeyedRateLimiter (Fin 5) 2) ''a''
      [(1, ''a'', Allow_op), (1, ''a'', Allow_op), (1, ''a'', Allow_op)] = (l, 2)"
    using sample_limiter_run by blast
  from limiter_keeps_rate [OF _ _ _ l] l show ?thesis by simp
qed

lemma nan_rate_never_limits_witness:
  "snd (Allow 0 \<lparr>rl_rate = NaN, rl_burst = 1, rl_buckets = [(''a'', \<lparr>rb_tokens = Fin 0, rb_updated = 1, rb_lastSeen = 1\<rparr>)]\<rparr> 2 ''a'')"
  (is "snd (Allow 0 ?l 2 ''a'')")
proof -
  obtain l' g where a: "Allow 0 ?l 2 ''a'' = (l', g)" by fastforce
  have g by (rule conjunct1 [OF nan_rate_never_limits
      [where b = "\<lparr>rb_tokens = Fin 0, rb_updated = 1, rb_lastSeen = 1\<rparr>", OF _ _ _ a]]) simp_all
  with a show ?thesis by simp
qed

end
