(* ===== verification/Remote_Server.thy ===== *)
theory Remote_Server
  imports Remote_Connection Remote_Limiter
begin

section \<open>The remote server (internal/remote/server.go)\<close>

text \<open>
  The state of the HTTP server and its operations: the admission of connections before authentication, the
  handlers of the management requests, the admission of WebSocket connections and the requests that come
  over them. Mutexes that are created on the way are numbers as well, below \<open>rv_locks\<close>. A TCP or WebSocket connection is a number; \<open>rv_conns\<close> has the state of every WebSocket
  connection that was set up. What one handler does from its start to its end is here; how the sections of
  several ones interleave is the subject of \<open>Remote_Lifecycle\<close>.
\<close>

type_synonym conn_id = nat
type_synonym lock_id = nat

definition maxHTTPBodyBytes :: int where "maxHTTPBodyBytes = 65536"

record server_config =
  vc_token :: string
  vc_registry :: "registry option"
  vc_queue_bytes :: int
  vc_max_pre_auth :: int
  vc_max_connections :: int
  vc_max_per_client :: int
  vc_max_targets :: int
  vc_auth_rate :: go_float
  vc_auth_burst :: int
  vc_factory :: "(principal \<Rightarrow> service option) option"

record remote_server =
  rv_registry :: registry
  rv_token_digest :: string
  rv_queue_bytes :: int
  rv_max_pre_auth :: int
  rv_max_connections :: int
  rv_max_per_client :: int
  rv_max_targets :: int
  rv_closing :: bool
  rv_auth :: rate_limiter
  rv_register :: rate_limiter
  rv_pre_auth :: "conn_id list"
  rv_factory :: "(principal \<Rightarrow> service option) option"
  rv_services :: "(string \<times> service) list"
  rv_create_lock :: "(string \<times> lock_id) list"
  rv_locks :: nat
  rv_connections :: "(string \<times> conn_id list) list"
  rv_pending :: "(string \<times> int) list"
  rv_pending_total :: int
  rv_conns :: "(conn_id \<times> ws_connection) list"

datatype server_error =
    Empty_token | Nil_registry | Bad_queue_limit | Bad_pre_auth_limit | Bad_connection_limit | Bad_client_limit
  | Bad_target_limit | Bad_auth_rate | Bad_auth_burst

text \<open>A limit of zero is replaced by its default, a negative one is an error.\<close>

definition limit_or :: "server_error \<Rightarrow> int \<Rightarrow> int \<Rightarrow> server_error + int" where
  "limit_or e n default_n = (if n < 0 then Inl e else Inr (if n = 0 then default_n else n))"

definition rate_or :: "go_float \<Rightarrow> server_error + go_float" where
  "rate_or rate = (if f_less rate (Fin 0) then Inl Bad_auth_rate else Inr (if rate = Fin 0 then Fin 5 else rate))"

definition NewServer :: "(string \<Rightarrow> string) \<Rightarrow> server_config \<Rightarrow> server_error + remote_server" where
  "NewServer sha cfg =
     (if vc_token cfg = [] then Inl Empty_token
      else (case vc_registry cfg of
        None \<Rightarrow> Inl Nil_registry
      | Some r \<Rightarrow>
          bind_err (limit_or Bad_queue_limit (vc_queue_bytes cfg) defaultOutgoingQueueBytes) (\<lambda>queueBytes.
          bind_err (limit_or Bad_pre_auth_limit (vc_max_pre_auth cfg) 256) (\<lambda>maxPreAuth.
          bind_err (limit_or Bad_connection_limit (vc_max_connections cfg) 256) (\<lambda>maxConnections.
          bind_err (limit_or Bad_client_limit (vc_max_per_client cfg) 16) (\<lambda>maxPerClient.
          bind_err (limit_or Bad_target_limit (vc_max_targets cfg) 64) (\<lambda>maxTargets.
          bind_err (rate_or (vc_auth_rate cfg)) (\<lambda>rate.
          bind_err (limit_or Bad_auth_burst (vc_auth_burst cfg) 20) (\<lambda>burst.
            Inr \<lparr>rv_registry = r, rv_token_digest = sha (vc_token cfg), rv_queue_bytes = queueBytes,
              rv_max_pre_auth = maxPreAuth, rv_max_connections = maxConnections, rv_max_per_client = maxPerClient,
              rv_max_targets = maxTargets, rv_closing = False, rv_auth = newKeyedRateLimiter rate burst,
              rv_register = newKeyedRateLimiter rate burst, rv_pre_auth = [],
              rv_factory = vc_factory cfg, rv_services = [], rv_create_lock = [], rv_locks = 0, rv_connections = [],
              rv_pending = [], rv_pending_total = 0, rv_conns = []\<rparr>)))))))))"

subsection \<open>Connections before authentication\<close>

definition admitPreAuthConnection :: "conn_id \<Rightarrow> remote_server \<Rightarrow> remote_server \<times> bool" where
  "admitPreAuthConnection conn s =
     (if rv_closing s \<or> rv_max_pre_auth s \<le> int (length (rv_pre_auth s)) then (s, False)
      else (s\<lparr>rv_pre_auth := List.insert conn (rv_pre_auth s)\<rparr>, True))"

definition releasePreAuthConnection :: "conn_id \<Rightarrow> remote_server \<Rightarrow> remote_server" where
  "releasePreAuthConnection conn s = s\<lparr>rv_pre_auth := removeAll conn (rv_pre_auth s)\<rparr>"

text \<open>The connection is in the context of a request when it was admitted.\<close>

definition releasePreAuthRequest :: "conn_id option \<Rightarrow> remote_server \<Rightarrow> remote_server" where
  "releasePreAuthRequest conn s = (case conn of None \<Rightarrow> s | Some c \<Rightarrow> releasePreAuthConnection c s)"

datatype conn_state = StateClosed | StateHijacked | Other_conn_state

definition handleHTTPConnectionState :: "conn_id \<Rightarrow> conn_state \<Rightarrow> remote_server \<Rightarrow> remote_server" where
  "handleHTTPConnectionState conn st s =
     (if st = StateClosed \<or> st = StateHijacked then releasePreAuthConnection conn s else s)"

definition closePreAuthConnections :: "remote_server \<Rightarrow> remote_server \<times> conn_id list" where
  "closePreAuthConnections s = (s\<lparr>rv_pre_auth := []\<rparr>, rv_pre_auth s)"

subsection \<open>Requests and answers\<close>

record http_request =
  hr_method :: string
  hr_addr :: string
  hr_authorization :: string
  hr_name :: string
  hr_password :: string
  hr_origin :: string
  hr_body_length :: int
  hr_body_name :: "string option"
  hr_conn :: "conn_id option"
  hr_now :: int
  hr_later :: int

datatype http_body =
    Body_management "protocol_error option"
  | Body_registration client_record string
  | Body_rotation principal string

record http_response =
  hs_status :: int
  hs_body :: http_body
  hs_allow :: "string option"
  hs_no_store :: bool

definition writeJSON :: "int \<Rightarrow> http_body \<Rightarrow> http_response" where
  "writeJSON status body = \<lparr>hs_status = status, hs_body = body, hs_allow = None, hs_no_store = False\<rparr>"

definition writeError :: "int \<Rightarrow> error_code \<Rightarrow> string \<Rightarrow> http_response" where
  "writeError status code message = writeJSON status (Body_management (Some (protocol_error code message)))"

definition writeAuthenticationFailure :: http_response where
  "writeAuthenticationFailure = writeError 401 ErrorAuthenticationFailed []"

definition method_not_allowed :: "string \<Rightarrow> http_response" where
  "method_not_allowed allowed = (writeError 405 ErrorBadRequest ''method not allowed'')\<lparr>hs_allow := Some allowed\<rparr>"

definition management_ok :: http_response where
  "management_ok = writeJSON 200 (Body_management None)"

definition validGlobalAuthorization :: "(string \<Rightarrow> string) \<Rightarrow> remote_server \<Rightarrow> string \<Rightarrow> bool" where
  "validGlobalAuthorization sha s val =
     (let provided = (if prefix ''Bearer '' val then drop (length ''Bearer '') val else [])
      in sha provided = rv_token_digest s \<and> provided \<noteq> [])"

definition zero_principal :: principal where
  "zero_principal = \<lparr>pr_owner = [], pr_name = [], pr_generation = 0\<rparr>"

text \<open>\<open>authenticateRequest\<close>: no result stands for a failure, which is answered with 401.\<close>

definition authenticateRequest ::
  "(string \<Rightarrow> string) \<Rightarrow> int \<Rightarrow> http_request \<Rightarrow> bool \<Rightarrow> remote_server \<Rightarrow> remote_server \<times> principal option" where
  "authenticateRequest sha wild r requireClient s =
     (let key = remoteAddressKey (hr_addr r) in
      (case Allow wild (rv_auth s) (hr_now r) key of
         (l, allowed) \<Rightarrow>
           (let s = s\<lparr>rv_auth := l\<rparr>;
                pass = (\<lambda>p. (releasePreAuthRequest (hr_conn r) (s\<lparr>rv_auth := Refund l (hr_later r) key\<rparr>), Some p))
            in if \<not> allowed then (s, None)
               else if \<not> validGlobalAuthorization sha s (hr_authorization r) then (s, None)
               else if \<not> requireClient then pass zero_principal
               else (case Authenticate sha (rv_registry s) (hr_name r) (hr_password r) of
                 Inl e \<Rightarrow> (s, None)
               | Inr p \<Rightarrow> pass p))))"

definition handleHealth :: "(string \<Rightarrow> string) \<Rightarrow> int \<Rightarrow> http_request \<Rightarrow> remote_server \<Rightarrow> remote_server \<times> http_response" where
  "handleHealth sha wild r s =
     (case authenticateRequest sha wild r False s of
        (s, None) \<Rightarrow> (s, writeAuthenticationFailure)
      | (s, Some p) \<Rightarrow> (s, if hr_method r \<noteq> ''GET'' then method_not_allowed ''GET'' else management_ok))"

definition handleReady :: "(string \<Rightarrow> string) \<Rightarrow> int \<Rightarrow> http_request \<Rightarrow> remote_server \<Rightarrow> remote_server \<times> http_response" where
  "handleReady sha wild r s =
     (case authenticateRequest sha wild r False s of
        (s, None) \<Rightarrow> (s, writeAuthenticationFailure)
      | (s, Some p) \<Rightarrow>
          (s, if hr_method r \<noteq> ''GET'' then method_not_allowed ''GET''
              else if rv_closing s then writeError 503 ErrorServerShuttingDown [] else management_ok))"

definition decodeHTTPJSON :: "http_request \<Rightarrow> string option" where
  "decodeHTTPJSON r = (if maxHTTPBodyBytes < hr_body_length r then None else hr_body_name r)"

definition handleRegister ::
  "(string \<Rightarrow> string) \<Rightarrow> int \<Rightarrow> reg_env \<Rightarrow> http_request \<Rightarrow> remote_server \<Rightarrow> remote_server \<times> http_response" where
  "handleRegister sha wild env r s =
     (case authenticateRequest sha wild r False s of
        (s, None) \<Rightarrow> (s, writeAuthenticationFailure)
      | (s, Some p) \<Rightarrow>
          (if hr_method r \<noteq> ''POST'' then (s, method_not_allowed ''POST'')
           else if rv_closing s then (s, writeError 503 ErrorServerShuttingDown [])
           else (case Allow wild (rv_register s) (hr_later r) (remoteAddressKey (hr_addr r)) of
             (l, allowed) \<Rightarrow>
               (let s = s\<lparr>rv_register := l\<rparr> in
                if \<not> allowed then (s, writeError 429 ErrorRateLimited [])
                else (case decodeHTTPJSON r of
                  None \<Rightarrow> (s, writeError 400 ErrorBadRequest ''invalid JSON request'')
                | Some name \<Rightarrow>
                    (case Register sha env name (rv_registry s) of
                       (reg, out) \<Rightarrow>
                         (s\<lparr>rv_registry := reg\<rparr>,
                          case outcome_value out of
                            Some (rec, password) \<Rightarrow> (writeJSON 201 (Body_registration rec password))\<lparr>hs_no_store := True\<rparr>
                          | None \<Rightarrow>
                              if out = Remote_Registry.outcome.Failed ErrClientNameUnavailable
                              then writeError 409 ErrorClientNameUnavailable []
                              else if out = Remote_Registry.outcome.Failed ErrInvalidClientName
                              then writeError 400 ErrorBadRequest ''invalid client name''
                              else writeError 500 ErrorInternal [])))))))"

subsection \<open>WebSocket connections\<close>

definition activeTotal :: "remote_server \<Rightarrow> int" where
  "activeTotal s = sum_list (map (\<lambda>(o', cs). int (length cs)) (rv_connections s))"

definition owner_connections :: "remote_server \<Rightarrow> string \<Rightarrow> conn_id list" where
  "owner_connections s ownerID = (case map_of (rv_connections s) ownerID of None \<Rightarrow> [] | Some cs \<Rightarrow> cs)"

definition owner_pending :: "remote_server \<Rightarrow> string \<Rightarrow> int" where
  "owner_pending s ownerID = (case map_of (rv_pending s) ownerID of None \<Rightarrow> 0 | Some n \<Rightarrow> n)"

definition reserveConnection :: "string \<Rightarrow> remote_server \<Rightarrow> remote_server \<times> error_code option" where
  "reserveConnection ownerID s =
     (if rv_closing s then (s, Some ErrorServerShuttingDown)
      else if rv_max_connections s \<le> activeTotal s + rv_pending_total s then (s, Some ErrorConnectionLimit)
      else if rv_max_per_client s \<le> int (length (owner_connections s ownerID)) + owner_pending s ownerID
      then (s, Some ErrorConnectionLimit)
      else (s\<lparr>rv_pending := AList.update ownerID (owner_pending s ownerID + 1) (rv_pending s),
              rv_pending_total := rv_pending_total s + 1\<rparr>, None))"

definition releaseConnectionReservation :: "string \<Rightarrow> remote_server \<Rightarrow> remote_server" where
  "releaseConnectionReservation ownerID s =
     s\<lparr>rv_pending := (if owner_pending s ownerID \<le> 1 then AList.delete ownerID (rv_pending s)
          else AList.update ownerID (owner_pending s ownerID - 1) (rv_pending s)),
       rv_pending_total := (if 0 < rv_pending_total s then rv_pending_total s - 1 else rv_pending_total s)\<rparr>"

definition activateConnection :: "conn_id \<Rightarrow> principal \<Rightarrow> remote_server \<Rightarrow> remote_server \<times> bool" where
  "activateConnection c p s =
     (let s = releaseConnectionReservation (pr_owner p) s in
      if rv_closing s then (s, False)
      else (s\<lparr>rv_connections := AList.update (pr_owner p) (List.insert c (owner_connections s (pr_owner p))) (rv_connections s),
              rv_conns := AList.update c (newWSConnection p (rv_queue_bytes s)) (rv_conns s)\<rparr>, True))"

definition ws_removeConnection :: "conn_id \<Rightarrow> string \<Rightarrow> remote_server \<Rightarrow> remote_server" where
  "ws_removeConnection c ownerID s =
     (let cs = removeAll c (owner_connections s ownerID) in
      s\<lparr>rv_connections := (if cs = [] then AList.delete ownerID (rv_connections s)
          else AList.update ownerID cs (rv_connections s))\<rparr>)"

definition connectionCount :: "remote_server \<Rightarrow> int" where
  "connectionCount s = activeTotal s"

definition conn_of :: "remote_server \<Rightarrow> conn_id \<Rightarrow> ws_connection option" where
  "conn_of s c = map_of (rv_conns s) c"

definition update_conn :: "conn_id \<Rightarrow> (ws_connection \<Rightarrow> ws_connection) \<Rightarrow> remote_server \<Rightarrow> remote_server" where
  "update_conn c f s =
     (case conn_of s c of None \<Rightarrow> s | Some w \<Rightarrow> s\<lparr>rv_conns := AList.update c (f w) (rv_conns s)\<rparr>)"

definition close_all :: "close_code \<Rightarrow> string \<Rightarrow> conn_id list \<Rightarrow> remote_server \<Rightarrow> remote_server" where
  "close_all code reason cs s = foldl (\<lambda>s c. update_conn c (\<lambda>w. signalClose w code reason) s) s cs"

definition closeOwnerConnections :: "string \<Rightarrow> (ws_connection \<Rightarrow> bool) \<Rightarrow> string \<Rightarrow> remote_server \<Rightarrow> remote_server" where
  "closeOwnerConnections ownerID match reason s =
     close_all ClosePolicyViolation reason
       (filter (\<lambda>c. case conn_of s c of None \<Rightarrow> False | Some w \<Rightarrow> match w) (owner_connections s ownerID)) s"

definition removeService :: "string \<Rightarrow> remote_server \<Rightarrow> remote_server \<times> service option" where
  "removeService ownerID s =
     (s\<lparr>rv_services := AList.delete ownerID (rv_services s), rv_create_lock := AList.delete ownerID (rv_create_lock s)\<rparr>,
      map_of (rv_services s) ownerID)"

definition createLockFor :: "string \<Rightarrow> remote_server \<Rightarrow> remote_server \<times> lock_id" where
  "createLockFor ownerID s =
     (case map_of (rv_create_lock s) ownerID of
        Some l \<Rightarrow> (s, l)
      | None \<Rightarrow> (s\<lparr>rv_create_lock := AList.update ownerID (rv_locks s) (rv_create_lock s), rv_locks := rv_locks s + 1\<rparr>, rv_locks s))"

definition serviceFor :: "principal \<Rightarrow> bool \<Rightarrow> remote_server \<Rightarrow> remote_server \<times> service option" where
  "serviceFor p create_missing s =
     (case map_of (rv_services s) (pr_owner p) of
        Some v \<Rightarrow> (s, Some v)
      | None \<Rightarrow>
          if create_missing \<and> \<not> rv_closing s then
            (case (case rv_factory s of Some f \<Rightarrow> f p | None \<Rightarrow> Some newServiceWithRunnerFactory) of
               Some v \<Rightarrow> (s\<lparr>rv_services := AList.update (pr_owner p) v (rv_services s)\<rparr>, Some v)
             | None \<Rightarrow> (s, None))
          else (s, None))"

text \<open>What \<open>handleRotate\<close> and \<open>handleRevoke\<close> do under the lifecycle lock.\<close>

definition close_rotated :: "principal \<Rightarrow> remote_server \<Rightarrow> remote_server" where
  "close_rotated rotated s =
     closeOwnerConnections (pr_owner rotated)
       (\<lambda>w. pr_generation (wc_principal w) < pr_generation rotated) ''credentials_rotated'' s"

definition close_revoked :: "string \<Rightarrow> remote_server \<Rightarrow> remote_server \<times> service option" where
  "close_revoked ownerID s = removeService ownerID (closeOwnerConnections ownerID (\<lambda>w. True) ''client_revoked'' s)"

definition mutation_failure :: "'a outcome \<Rightarrow> http_response" where
  "mutation_failure out =
     (case out of
        Remote_Registry.outcome.Failed ErrAuthenticationFailed \<Rightarrow> writeAuthenticationFailure
      | _ \<Rightarrow> writeError 500 ErrorInternal [])"

definition handleRotate ::
  "(string \<Rightarrow> string) \<Rightarrow> int \<Rightarrow> reg_env \<Rightarrow> http_request \<Rightarrow> remote_server \<Rightarrow> remote_server \<times> http_response" where
  "handleRotate sha wild env r s =
     (case authenticateRequest sha wild r True s of
        (s, None) \<Rightarrow> (s, writeAuthenticationFailure)
      | (s, Some p) \<Rightarrow>
          (if hr_method r \<noteq> ''POST'' then (s, method_not_allowed ''POST'')
           else (case Rotate sha env (pr_name p) (hr_password r) (rv_registry s) of
             (reg, out) \<Rightarrow>
               (let s = s\<lparr>rv_registry := reg\<rparr> in
                (case outcome_value out of
                   None \<Rightarrow> (s, mutation_failure out)
                 | Some (newPassword, rotated) \<Rightarrow>
                     (close_rotated rotated s, (writeJSON 200 (Body_rotation rotated newPassword))\<lparr>hs_no_store := True\<rparr>))))))"

text \<open>The service that a revocation removes is closed after the answer's state is settled; it is returned.\<close>

definition handleRevoke ::
  "(string \<Rightarrow> string) \<Rightarrow> int \<Rightarrow> reg_env \<Rightarrow> http_request \<Rightarrow> remote_server \<Rightarrow> remote_server \<times> service option \<times> http_response" where
  "handleRevoke sha wild env r s =
     (case authenticateRequest sha wild r True s of
        (s, None) \<Rightarrow> (s, None, writeAuthenticationFailure)
      | (s, Some p) \<Rightarrow>
          (if hr_method r \<noteq> ''POST'' then (s, None, method_not_allowed ''POST'')
           else (case Revoke sha env (pr_name p) (hr_password r) (rv_registry s) of
             (reg, out) \<Rightarrow>
               (let s = s\<lparr>rv_registry := reg\<rparr> in
                (case outcome_value out of
                   None \<Rightarrow> (s, None, mutation_failure out)
                 | Some u \<Rightarrow> (case close_revoked (pr_owner p) s of (s, service) \<Rightarrow> (s, service, management_ok)))))))"

text \<open>\<open>handleWebSocket\<close> up to the upgrade: the principal that holds a reservation, or the answer.\<close>

definition ws_admission ::
  "(string \<Rightarrow> string) \<Rightarrow> int \<Rightarrow> http_request \<Rightarrow> remote_server \<Rightarrow> remote_server \<times> (http_response + principal)" where
  "ws_admission sha wild r s =
     (case authenticateRequest sha wild r True s of
        (s, None) \<Rightarrow> (s, Inl writeAuthenticationFailure)
      | (s, Some p) \<Rightarrow>
          (if hr_method r \<noteq> ''GET'' then (s, Inl (method_not_allowed ''GET''))
           else if hr_origin r \<noteq> [] then (s, Inl (writeError 403 ErrorOriginNotAllowed []))
           else if rv_closing s then (s, Inl (writeError 503 ErrorServerShuttingDown []))
           else (case reserveConnection (pr_owner p) s of
             (s, Some code) \<Rightarrow> (s, Inl (writeError (if code = ErrorServerShuttingDown then 503 else 429) code []))
           | (s, None) \<Rightarrow> (s, Inr p))))"

subsection \<open>Requests on a connection\<close>

text \<open>
  \<open>text\<close> is the text of an error (\<open>error.Error()\<close>). A handler that would have to wait for a start made by
  another call gives \<open>None\<close>, as in \<open>Target_Service\<close>.
\<close>

definition service_answer :: "(service_error \<Rightarrow> string) \<Rightarrow> string \<Rightarrow> response \<Rightarrow> remote_response" where
  "service_answer text i r =
     (let message = (case rs_err r of None \<Rightarrow> [] | Some e \<Rightarrow> text e) in
      if message \<noteq> [] then
        remote_errorResponse i (if message = text Target_not_found then ErrorTargetNotFound else ErrorInternal) message
      else \<lparr>rp_version = ProtocolVersion, rp_type = ResponseTypeResponse, rp_id = i, rp_output = rs_output r,
        rp_exit_code = rs_exit_code r, rp_snapshot = rs_snapshot r, rp_error = None\<rparr>)"

definition enqueueServiceResponse ::
  "(remote_response \<Rightarrow> string) \<Rightarrow> (service_error \<Rightarrow> string) \<Rightarrow> string \<Rightarrow> response \<Rightarrow> ws_connection \<Rightarrow> ws_connection" where
  "enqueueServiceResponse enc text i r c = enqueueResponse enc c (service_answer text i r)"

definition conn_done :: "remote_server \<Rightarrow> conn_id \<Rightarrow> bool" where
  "conn_done s c = (case conn_of s c of None \<Rightarrow> False | Some w \<Rightarrow> wc_done w)"

definition answer :: "(remote_response \<Rightarrow> string) \<Rightarrow> conn_id \<Rightarrow> remote_response \<Rightarrow> remote_server \<Rightarrow> remote_server" where
  "answer enc c r s = update_conn c (\<lambda>w. enqueueResponse enc w r) s"

definition put_service :: "string \<Rightarrow> service \<Rightarrow> remote_server \<Rightarrow> remote_server" where
  "put_service ownerID v s = s\<lparr>rv_services := AList.update ownerID v (rv_services s)\<rparr>"

definition service_exists :: "service \<Rightarrow> remote_request \<Rightarrow> bool" where
  "service_exists v req = targetExists (sv_store v) (target_of (serverRequest req))"

definition TargetCount :: "service \<Rightarrow> int" where
  "TargetCount v = int (targetCount (sv_store v))"

text \<open>The case \<open>OperationCreate\<close>.\<close>

definition handle_create ::
  "(remote_response \<Rightarrow> string) \<Rightarrow> (service_error \<Rightarrow> string) \<Rightarrow> call_env \<Rightarrow> conn_id \<Rightarrow> principal \<Rightarrow> remote_request \<Rightarrow>
   remote_server \<Rightarrow> remote_server option" where
  "handle_create enc text env c p req s =
     (if rv_closing s \<or> conn_done s c then Some (answer enc c (remote_errorResponse (rq_id req) ErrorServerShuttingDown []) s)
      else (case serviceFor p True (fst (createLockFor (pr_owner p) s)) of
        (s, None) \<Rightarrow> Some (answer enc c (remote_errorResponse (rq_id req) ErrorInternal []) s)
      | (s, Some v) \<Rightarrow>
          if \<not> service_exists v req \<and> rv_max_targets s \<le> TargetCount v
          then Some (answer enc c (remote_errorResponse (rq_id req) ErrorTargetLimit []) s)
          else map_option (\<lambda>(v', r). update_conn c (enqueueServiceResponse enc text (rq_id req) r) (put_service (pr_owner p) v' s))
            (Create (serverRequest req) env v)))"

text \<open>The first part of \<open>startFollow\<close>, under the lifecycle lock: the service to follow, when one is
started.\<close>

definition startFollow ::
  "(remote_response \<Rightarrow> string) \<Rightarrow> conn_id \<Rightarrow> principal \<Rightarrow> remote_request \<Rightarrow> remote_server \<Rightarrow> remote_server \<times> bool" where
  "startFollow enc c p req s =
     (if rv_closing s \<or> conn_done s c then (answer enc c (remote_errorResponse (rq_id req) ErrorServerShuttingDown []) s, False)
      else (case serviceFor p False s of
        (s, service) \<Rightarrow>
          if service = None \<or> \<not> service_exists (the service) req
          then (answer enc c (remote_errorResponse (rq_id req) ErrorTargetNotFound []) s, False)
          else if (case conn_of s c of None \<Rightarrow> False | Some w \<Rightarrow> wc_following w)
          then (answer enc c (remote_errorResponse (rq_id req) ErrorBadRequest ''follow already active'') s, False)
          else (answer enc c (plain_response ResponseTypeFollowStarted (rq_id req) None)
                 (update_conn c (\<lambda>w. w\<lparr>wc_following := True\<rparr>) s), True)))"

text \<open>Its goroutine, after \<open>Stream\<close> returned: what it tells the client.\<close>

definition finish_follow ::
  "(remote_response \<Rightarrow> string) \<Rightarrow> conn_id \<Rightarrow> remote_request \<Rightarrow> service_error option \<Rightarrow> remote_server \<Rightarrow> remote_server" where
  "finish_follow enc c req err s =
     answer enc c
       (case err of
          None \<Rightarrow> plain_response ResponseTypeFollowEnded (rq_id req) None
        | Some e \<Rightarrow> if e = Target_not_found then followEndResponse (rq_id req) ErrorTargetNotFound []
            else followEndResponse (rq_id req) ErrorInternal ''follow ended'')
       (update_conn c (\<lambda>w. w\<lparr>wc_following := False\<rparr>) s)"

text \<open>A request that started to follow gives \<open>True\<close>.\<close>

definition handleRequest ::
  "(remote_response \<Rightarrow> string) \<Rightarrow> (service_error \<Rightarrow> string) \<Rightarrow> 'w runner_ops \<Rightarrow> call_env \<Rightarrow> conn_id \<Rightarrow> principal \<Rightarrow>
   remote_request \<Rightarrow> remote_server \<Rightarrow> (remote_server \<times> bool) option" where
  "handleRequest enc text ops env c p req s =
     (let reply = (\<lambda>r. Some (answer enc c r s, False));
          finish = (\<lambda>(v, r). (update_conn c (enqueueServiceResponse enc text (rq_id req) r) (put_service (pr_owner p) v s), False));
          service = snd (serviceFor p False s)
      in if rq_operation req = OperationCreate then map_option (\<lambda>s. (s, False)) (handle_create enc text env c p req s)
         else if rq_operation req = OperationList then
           (case service of
              None \<Rightarrow> reply (plain_response ResponseTypeResponse (rq_id req) None)
            | Some v \<Rightarrow> map_option finish (HandleWithDone ops (serverRequest req) False env v))
         else if rq_operation req \<in> {OperationSend, OperationText, OperationKeys, OperationRead} then
           (case service of
              None \<Rightarrow> reply (remote_errorResponse (rq_id req) ErrorTargetNotFound [])
            | Some v \<Rightarrow> map_option finish (HandleWithDone ops (serverRequest req) False env v))
         else if rq_operation req = OperationClose then
           (case service of
              None \<Rightarrow> reply (remote_errorResponse (rq_id req) ErrorTargetNotFound [])
            | Some v \<Rightarrow> Some (finish (CloseExisting ops (serverRequest req) v)))
         else if rq_operation req = OperationFollow then Some (startFollow enc c p req s)
         else reply (remote_errorResponse (rq_id req) ErrorInvalidOperation []))"

text \<open>One message that \<open>readLoop\<close> read: whether it was text, and what \<open>decodeWebSocketRequest\<close> made of it.\<close>

definition handle_message ::
  "(remote_response \<Rightarrow> string) \<Rightarrow> (service_error \<Rightarrow> string) \<Rightarrow> 'w runner_ops \<Rightarrow> call_env \<Rightarrow> conn_id \<Rightarrow> principal \<Rightarrow>
   bool \<Rightarrow> remote_request option \<Rightarrow> remote_server \<Rightarrow> (remote_server \<times> bool) option" where
  "handle_message enc text ops env c p is_text decoded s =
     (let reject = (\<lambda>i e. Some (answer enc c (plain_response ResponseTypeResponse i (Some e)) s, False)) in
      if \<not> is_text then reject [] (protocol_error ErrorBadRequest ''requests must be text JSON'')
      else (case decoded of
        None \<Rightarrow> reject [] (protocol_error ErrorBadRequest ''invalid JSON request'')
      | Some req \<Rightarrow>
          (case validateRequest req of
             Some e \<Rightarrow> reject (if validRequestID (rq_id req) then rq_id req else []) e
           | None \<Rightarrow> handleRequest enc text ops env c p req s)))"

subsection \<open>What a message may change\<close>

text \<open>Everything but the services, the create locks and the connections.\<close>

definition same_admission :: "remote_server \<Rightarrow> remote_server \<Rightarrow> bool" where
  "same_admission s s' \<longleftrightarrow>
     s'\<lparr>rv_services := rv_services s, rv_create_lock := rv_create_lock s, rv_locks := rv_locks s, rv_conns := rv_conns s\<rparr> = s"

text \<open>One message of connection \<open>c\<close> of \<open>p\<close> was answered by \<open>r\<close>.\<close>

definition answered ::
  "(remote_response \<Rightarrow> string) \<Rightarrow> conn_id \<Rightarrow> principal \<Rightarrow> bool \<Rightarrow> remote_response \<Rightarrow> remote_server \<Rightarrow> remote_server \<Rightarrow> bool" where
  "answered enc c p following r s s' \<longleftrightarrow> same_admission s s' \<and>
     (\<forall>o'. o' \<noteq> pr_owner p \<longrightarrow> map_of (rv_services s') o' = map_of (rv_services s) o' \<and>
        map_of (rv_create_lock s') o' = map_of (rv_create_lock s) o') \<and>
     (\<forall>d. conn_of s' d = (if d = c then map_option
        (\<lambda>w. enqueueResponse enc (if following then w\<lparr>wc_following := True\<rparr> else w) r) (conn_of s c) else conn_of s d))"

lemma conn_of_update [simp]:
  "conn_of (update_conn c f s) d = (if d = c then map_option f (conn_of s c) else conn_of s d)"
  by (auto simp: update_conn_def conn_of_def update_conv' split: option.split)

lemma update_conn_frame [simp]:
  "rv_services (update_conn c f s) = rv_services s" "rv_create_lock (update_conn c f s) = rv_create_lock s"
  "rv_registry (update_conn c f s) = rv_registry s" "rv_connections (update_conn c f s) = rv_connections s"
  "rv_pending (update_conn c f s) = rv_pending s" "rv_pending_total (update_conn c f s) = rv_pending_total s"
  "rv_closing (update_conn c f s) = rv_closing s" "rv_max_connections (update_conn c f s) = rv_max_connections s"
  "rv_max_per_client (update_conn c f s) = rv_max_per_client s" "rv_pre_auth (update_conn c f s) = rv_pre_auth s"
  "rv_max_targets (update_conn c f s) = rv_max_targets s" "rv_queue_bytes (update_conn c f s) = rv_queue_bytes s"
  "rv_locks (update_conn c f s) = rv_locks s" "rv_factory (update_conn c f s) = rv_factory s"
  by (simp_all add: update_conn_def split: option.split)

lemma same_admission_refl [simp]: "same_admission s s"
  by (simp add: same_admission_def)

lemma same_admission_update:
  assumes "same_admission s s'"
  shows "same_admission s (update_conn c f s')" "same_admission s (put_service o' v s')"
    "same_admission s (fst (createLockFor o' s'))" "same_admission s (fst (serviceFor p b s'))"
  using assms unfolding same_admission_def
  by (simp_all add: update_conn_def put_service_def createLockFor_def serviceFor_def split: option.split)

lemma answered_reply:
  "same_admission s s1 \<Longrightarrow> (\<And>o'. o' \<noteq> pr_owner p \<Longrightarrow> map_of (rv_services s1) o' = map_of (rv_services s) o' \<and>
     map_of (rv_create_lock s1) o' = map_of (rv_create_lock s) o') \<Longrightarrow> (\<And>d. conn_of s1 d = conn_of s d) \<Longrightarrow>
   answered enc c p False r s (answer enc c r s1)"
  by (simp add: answered_def answer_def same_admission_update)

lemma reply_id [simp]:
  "rp_id (plain_response t i e) = i" "rp_id (remote_errorResponse i code m) = i" "rp_id (service_answer text i r) = i"
  by (simp_all add: plain_response_def remote_errorResponse_def service_answer_def Let_def)

lemma answered_service:
  assumes "same_admission s s1" "\<And>o'. o' \<noteq> pr_owner p \<Longrightarrow> map_of (rv_services s1) o' = map_of (rv_services s) o' \<and>
     map_of (rv_create_lock s1) o' = map_of (rv_create_lock s) o'" "\<And>d. conn_of s1 d = conn_of s d"
  shows "answered enc c p False (service_answer text i r) s
    (update_conn c (enqueueServiceResponse enc text i r) (put_service (pr_owner p) v s1))"
proof -
  have "answered enc c p False (service_answer text i r) s (answer enc c (service_answer text i r) (put_service (pr_owner p) v s1))"
  proof (rule answered_reply)
    show "same_admission s (put_service (pr_owner p) v s1)" by (rule same_admission_update(2) [OF assms(1)])
    show "conn_of (put_service (pr_owner p) v s1) d = conn_of s d" for d
      using assms(3) by (simp add: put_service_def conn_of_def)
  qed (use assms(2) in \<open>simp add: put_service_def update_conv'\<close>)
  then show ?thesis by (simp add: answer_def enqueueServiceResponse_def [abs_def])
qed

lemma serviceFor_frame:
  "conn_of (fst (serviceFor p b s)) d = conn_of s d" "rv_create_lock (fst (serviceFor p b s)) = rv_create_lock s"
  "o' \<noteq> pr_owner p \<Longrightarrow> map_of (rv_services (fst (serviceFor p b s))) o' = map_of (rv_services s) o'"
  "serviceFor p False s = (s, map_of (rv_services s) (pr_owner p))"
  by (auto simp: serviceFor_def conn_of_def update_conv' split: option.split)

lemma createLockFor_frame:
  "conn_of (fst (createLockFor o' s)) d = conn_of s d" "rv_services (fst (createLockFor o' s)) = rv_services s"
  "o'' \<noteq> o' \<Longrightarrow> map_of (rv_create_lock (fst (createLockFor o' s))) o'' = map_of (rv_create_lock s) o''"
  by (auto simp: createLockFor_def conn_of_def update_conv' split: option.split)

lemma create_answered:
  assumes "handle_create enc text env c p req s = Some s'"
  shows "\<exists>r. rp_id r = rq_id req \<and> answered enc c p False r s s'"
proof (cases "rv_closing s \<or> conn_done s c")
  case True
  then have "s' = answer enc c (remote_errorResponse (rq_id req) ErrorServerShuttingDown []) s"
    using assms by (simp add: handle_create_def)
  then show ?thesis using answered_reply [OF same_admission_refl, of p s enc c] reply_id(2) by metis
next
  case False
  obtain s1 service where s1: "serviceFor p True (fst (createLockFor (pr_owner p) s)) = (s1, service)" by fastforce
  then have "s1 = fst (serviceFor p True (fst (createLockFor (pr_owner p) s)))" by simp
  then have frame: "same_admission s s1" "\<And>d. conn_of s1 d = conn_of s d"
    "\<And>o'. o' \<noteq> pr_owner p \<Longrightarrow> map_of (rv_services s1) o' = map_of (rv_services s) o' \<and>
      map_of (rv_create_lock s1) o' = map_of (rv_create_lock s) o'"
    by (simp_all add: same_admission_update serviceFor_frame createLockFor_frame)
  show ?thesis
  proof (cases "\<exists>e. s' = answer enc c (remote_errorResponse (rq_id req) e []) s1")
    case True
    then show ?thesis using answered_reply [OF frame(1,3,2), of p enc c] reply_id(2) by metis
  next
    case other: False
    then obtain v v' r where "service = Some v" "Create (serverRequest req) env v = Some (v', r)"
      "s' = update_conn c (enqueueServiceResponse enc text (rq_id req) r) (put_service (pr_owner p) v' s1)"
      using assms False s1 by (auto simp: handle_create_def split: option.split_asm if_split_asm)
    then show ?thesis using answered_service [OF frame(1,3,2), of p enc c "text" "rq_id req" r v'] reply_id(3) by blast
  qed
qed

lemma startFollow_answered:
  assumes "startFollow enc c p req s = (s', following)"
  shows "\<exists>r. rp_id r = rq_id req \<and> answered enc c p following r s s'"
proof (cases following)
  case True
  then have s': "s' = answer enc c (plain_response ResponseTypeFollowStarted (rq_id req) None)
      (update_conn c (\<lambda>w. w\<lparr>wc_following := True\<rparr>) s)"
    using assms by (auto simp: startFollow_def serviceFor_frame(4) split: if_split_asm)
  have "answered enc c p True (plain_response ResponseTypeFollowStarted (rq_id req) None) s s'"
    unfolding s' answer_def answered_def
    by (auto simp: same_admission_update option.map_comp comp_def)
  then show ?thesis
    using True by (intro exI [of _ "plain_response ResponseTypeFollowStarted (rq_id req) None"]) simp
next
  case False
  then obtain e m where "s' = answer enc c (remote_errorResponse (rq_id req) e m) s"
    using assms by (auto simp: startFollow_def serviceFor_frame(4) split: if_split_asm)
  then show ?thesis using False answered_reply [OF same_admission_refl, of p s enc c] reply_id(2) by metis
qed

lemma service_request_answered:
  assumes "req_service = map_of (rv_services s) (pr_owner p)"
    and "(case req_service of
        None \<Rightarrow> Some (answer enc c missing s, False)
      | Some v \<Rightarrow> map_option (\<lambda>(v, r). (update_conn c (enqueueServiceResponse enc tx i r) (put_service (pr_owner p) v s), False)) (call v))
        = Some (s', following)" "rp_id missing = i"
  shows "\<exists>r. rp_id r = i \<and> answered enc c p following r s s'"
proof (cases req_service)
  case None
  then show ?thesis using assms answered_reply [OF same_admission_refl, of p s enc c missing] by auto
next
  case (Some v)
  then obtain v' r where "s' = update_conn c (enqueueServiceResponse enc tx i r) (put_service (pr_owner p) v' s)" "\<not> following"
    using assms(2) Some by auto
  then show ?thesis
    using answered_service [OF same_admission_refl, of p s enc c tx i r v']
    by (intro exI [of _ "service_answer tx i r"]) simp
qed

lemma handleRequest_answered:
  assumes "handleRequest enc tx ops env c p req s = Some (s', following)"
  shows "\<exists>r. rp_id r = rq_id req \<and> answered enc c p following r s s'"
proof -
  note reply = answered_reply [OF same_admission_refl, of p s enc c]
  consider (create) "rq_operation req = OperationCreate" | (follow) "rq_operation req = OperationFollow"
    | (list) "rq_operation req = OperationList" | (close) "rq_operation req = OperationClose"
    | (io) "rq_operation req \<in> {OperationSend, OperationText, OperationKeys, OperationRead}"
    | (other) "rq_operation req \<notin> set (OperationList # target_operations)"
    by (auto simp: target_operations_def)
  then show ?thesis
  proof cases
    case create
    then show ?thesis using assms create_answered by (auto simp: handleRequest_def operations)
  next
    case follow
    then show ?thesis using assms startFollow_answered by (auto simp: handleRequest_def operations)
  next
    case list
    then show ?thesis
      using assms unfolding handleRequest_def Let_def serviceFor_frame(4)
      by (intro service_request_answered [where call = "HandleWithDone ops (serverRequest req) False env", OF refl]) (simp add: operations, simp)
  next
    case io
    then have "handleRequest enc tx ops env c p req s = (case map_of (rv_services s) (pr_owner p) of
        None \<Rightarrow> Some (answer enc c (remote_errorResponse (rq_id req) ErrorTargetNotFound []) s, False)
      | Some v \<Rightarrow> map_option (\<lambda>(v, r).
          (update_conn c (enqueueServiceResponse enc tx (rq_id req) r) (put_service (pr_owner p) v s), False))
          (HandleWithDone ops (serverRequest req) False env v))"
      by (auto simp: handleRequest_def Let_def serviceFor_frame(4) operations)
    then show ?thesis
      using assms by (intro service_request_answered [where missing = "remote_errorResponse (rq_id req) ErrorTargetNotFound []", OF refl]) simp_all
  next
    case close
    then have "handleRequest enc tx ops env c p req s = (case map_of (rv_services s) (pr_owner p) of
        None \<Rightarrow> Some (answer enc c (remote_errorResponse (rq_id req) ErrorTargetNotFound []) s, False)
      | Some v \<Rightarrow> map_option (\<lambda>(v, r).
          (update_conn c (enqueueServiceResponse enc tx (rq_id req) r) (put_service (pr_owner p) v s), False))
          (Some (CloseExisting ops (serverRequest req) v)))"
      by (simp add: handleRequest_def Let_def serviceFor_frame(4) operations split: option.split prod.split)
    then show ?thesis
      using assms by (intro service_request_answered [where missing = "remote_errorResponse (rq_id req) ErrorTargetNotFound []", OF refl]) simp_all
  next
    case other
    then have "s' = answer enc c (remote_errorResponse (rq_id req) ErrorInvalidOperation []) s" "\<not> following"
      using assms by (auto simp: handleRequest_def target_operations_def)
    then show ?thesis
      using reply by (intro exI [of _ "remote_errorResponse (rq_id req) ErrorInvalidOperation []"]) simp
  qed
qed

subsection \<open>Properties\<close>

text \<open>C15: Every message on a connection is answered by exactly one response, which carries the ID of the
request when it has a valid one; and it touches nothing else than its own connection and the service of its
own client: no other client's service or create lock, no other connection, no registered client, no limiter
and no count of connections.\<close>

lemma message_isolated:
  assumes "handle_message enc tx ops env c p is_text decoded s = Some (s', following)"
  shows "\<exists>r. rp_id r = (case decoded of Some req \<Rightarrow> if is_text \<and> validRequestID (rq_id req) then rq_id req else [] | None \<Rightarrow> []) \<and>
    answered enc c p following r s s'"
proof -
  have valid: "validRequestID (rq_id req)" if "validateRequest req = None" for req
    using that by (simp add: validateRequest_def Let_def split: if_split_asm)
  have reply: "answered enc c p False r s (answer enc c r s)" for r
    by (rule answered_reply) simp_all
  show ?thesis
  proof (cases "is_text \<and> (\<exists>req. decoded = Some req \<and> validateRequest req = None)")
    case True
    then show ?thesis
      using assms handleRequest_answered [of enc tx ops env c p _ s s' following] by (auto simp: handle_message_def valid)
  next
    case False
    let ?i = "case decoded of Some req \<Rightarrow> if is_text \<and> validRequestID (rq_id req) then rq_id req else [] | None \<Rightarrow> []"
    obtain e where "s' = answer enc c (plain_response ResponseTypeResponse ?i (Some e)) s" "\<not> following"
      using assms False that by (cases decoded) (auto simp: handle_message_def split: if_split_asm option.split_asm)
    then show ?thesis
      using reply [of "plain_response ResponseTypeResponse ?i (Some e)"]
      by (intro exI [of _ "plain_response ResponseTypeResponse ?i (Some e)"]) simp
  qed
qed

text \<open>The state after the limiter counted a request.\<close>

definition counted :: "int \<Rightarrow> http_request \<Rightarrow> remote_server \<Rightarrow> remote_server" where
  "counted wild r s = s\<lparr>rv_auth := fst (Allow wild (rv_auth s) (hr_now r) (remoteAddressKey (hr_addr r)))\<rparr>"

text \<open>C16: Without the server's token, a request changes nothing but the limiter that counts it and is answered
with 401, whatever it asks for; so is a request to rotate, to revoke or to connect whose client name and
password the registry does not know. No such request is told which of the two was wrong.\<close>

lemma no_credentials_no_effect:
  "(\<not> validGlobalAuthorization sha s (hr_authorization r) \<longrightarrow>
      handleHealth sha wild r s = (counted wild r s, writeAuthenticationFailure) \<and>
      handleReady sha wild r s = (counted wild r s, writeAuthenticationFailure) \<and>
      handleRegister sha wild env r s = (counted wild r s, writeAuthenticationFailure)) \<and>
    (\<not> validGlobalAuthorization sha s (hr_authorization r) \<or>
       (\<forall>p. Authenticate sha (rv_registry s) (hr_name r) (hr_password r) \<noteq> Inr p) \<longrightarrow>
      handleRotate sha wild env r s = (counted wild r s, writeAuthenticationFailure) \<and>
      handleRevoke sha wild env r s = (counted wild r s, None, writeAuthenticationFailure) \<and>
      ws_admission sha wild r s = (counted wild r s, Inl writeAuthenticationFailure)) \<and>
    hs_status writeAuthenticationFailure = 401"
proof -
  obtain l b where a: "Allow wild (rv_auth s) (hr_now r) (remoteAddressKey (hr_addr r)) = (l, b)" by fastforce
  have v: "validGlobalAuthorization sha (s\<lparr>rv_auth := l\<rparr>) = validGlobalAuthorization sha s"
    by (simp add: fun_eq_iff validGlobalAuthorization_def)
  have "authenticateRequest sha wild r rc s = (counted wild r s, None)"
    if "\<not> validGlobalAuthorization sha s (hr_authorization r) \<or>
      rc \<and> (\<forall>p. Authenticate sha (rv_registry s) (hr_name r) (hr_password r) \<noteq> Inr p)" for rc
    using that by (auto simp: authenticateRequest_def counted_def a v Let_def split: sum.split)
  then show ?thesis
    by (simp add: handleHealth_def handleReady_def handleRegister_def handleRotate_def handleRevoke_def ws_admission_def
        writeAuthenticationFailure_def writeError_def writeJSON_def)
qed

subsection \<open>Witnesses\<close>

definition sample_server_config :: server_config where
  "sample_server_config = \<lparr>vc_token = ''secret'', vc_registry = Some box_registry, vc_queue_bytes = 0, vc_max_pre_auth = 0,
     vc_max_connections = 0, vc_max_per_client = 0, vc_max_targets = 0, vc_auth_rate = Fin 0, vc_auth_burst = 0,
     vc_factory = None\<rparr>"

definition sample_server :: remote_server where
  "sample_server = (case NewServer sample_sha sample_server_config of Inr s \<Rightarrow> s | Inl e \<Rightarrow> undefined)"

definition bad_request :: http_request where
  "bad_request = \<lparr>hr_method = ''POST'', hr_addr = ''10.0.0.1:5000'', hr_authorization = ''Bearer guess'', hr_name = ''box'',
     hr_password = [], hr_origin = [], hr_body_length = 10, hr_body_name = Some ''other'', hr_conn = None, hr_now = 5, hr_later = 6\<rparr>"

lemma sample_server_digest: "rv_token_digest sample_server = sample_sha ''secret''"
  by (simp add: sample_server_def NewServer_def sample_server_config_def limit_or_def rate_or_def defaultOutgoingQueueBytes_def)

lemma no_credentials_no_effect_witness:
  "snd (handleRegister sample_sha 0 (sample_reg_env CHR ''a'' 5) bad_request sample_server) = writeAuthenticationFailure \<and>
   fst (handleRevoke sample_sha 0 (sample_reg_env CHR ''a'' 5) bad_request sample_server) = counted 0 bad_request sample_server"
proof -
  have "\<not> validGlobalAuthorization sample_sha sample_server (hr_authorization bad_request)"
    by (simp add: validGlobalAuthorization_def sample_server_digest bad_request_def sample_sha_def Let_def)
  then show ?thesis
    using no_credentials_no_effect [of sample_sha sample_server bad_request 0 "sample_reg_env CHR ''a'' 5"] by simp
qed

definition list_request :: remote_request where
  "list_request = \<lparr>rq_version = 1, rq_id = ''req-1'', rq_operation = ''list'',
     rq_target = \<lparr>tg_session = [], tg_pane = [], tg_tab = []\<rparr>, rq_input = [], rq_read_count = 0\<rparr>"

definition box_principal :: principal where
  "box_principal = principalFor box_client"

definition connected_server :: remote_server where
  "connected_server = sample_server\<lparr>rv_conns := [(0, newWSConnection box_principal 100)],
     rv_connections := [(pr_owner box_principal, [0])]\<rparr>"

lemma list_request_valid: "validateRequest list_request = None"
  by (simp add: validateRequest_def list_request_def Let_def ProtocolVersion_def validRequestID_def valid_utf8_ascii
      MaxRequestIDBytes_def bound_simps rune_error_def operations ValidateCommand_def ValidateReadCount_def ValidateTargetPrefix_def)

lemma message_isolated_witness:
  "\<exists>s' following r. handle_message (\<lambda>r. ''json'') (\<lambda>e. ''error'') echo_ops example_env 0 box_principal True (Some list_request) connected_server =
      Some (s', following) \<and> rp_id r = ''req-1'' \<and>
    answered (\<lambda>r. ''json'') 0 box_principal following r connected_server s'"
proof -
  have none: "map_of (rv_services connected_server) o' = None" for o'
    by (simp add: connected_server_def sample_server_def NewServer_def sample_server_config_def limit_or_def rate_or_def
        defaultOutgoingQueueBytes_def)
  obtain s' following where h: "handle_message (\<lambda>r. ''json'') (\<lambda>e. ''error'') echo_ops example_env 0 box_principal True (Some list_request)
      connected_server = Some (s', following)"
    by (auto simp: handle_message_def list_request_valid handleRequest_def serviceFor_frame(4) none)
      (auto simp: list_request_def operations)
  have "validRequestID (rq_id list_request)" using list_request_valid by (simp add: validateRequest_iff)
  then show ?thesis using message_isolated [OF h] h by (auto simp: list_request_def)
qed

end
