(* ===== verification/Remote_Lifecycle.thy ===== *)
theory Remote_Lifecycle
  imports Remote_Server "HOL-Library.Multiset"
begin

section \<open>Handlers of the remote server side by side\<close>

text \<open>
  The server runs one goroutine per request and per connection. A state is the server, the multiset of the
  handlers, each as far as it has come, and how far \<open>Shutdown\<close> has come; a step is one section of one of
  them under the lock that it holds. \<open>lifecycleMu\<close> is a lock for readers and writers: the handlers that
  hold it for reading are marked by \<open>reader\<close>, and a section of a writer, which is one step, needs that there
  are none. What \<open>connMu\<close>, \<open>serviceMu\<close>, \<open>createMu\<close>, \<open>preAuthMu\<close>, the mutex of the registry and that of
  a store guard is one step each. A client's mutex for creating targets is held by the handlers of \<open>holds\<close>.
\<close>

datatype handler =
    H_reserved principal
  | H_checked principal
  | H_running conn_id principal
  | H_rotated principal
  | H_revoking principal string string
  | H_revoked string
  | H_admitted conn_id principal target_key
  | H_waiting conn_id principal target_key lock_id
  | H_locked conn_id principal target_key lock_id
  | H_found conn_id principal target_key lock_id
  | H_counting conn_id principal target_key lock_id
  | H_allowed conn_id principal target_key lock_id
  | H_launching conn_id principal target_key lock_id start_id
  | H_canceled conn_id principal target_key lock_id start_id

datatype remote_sys = Sys (sy_server: remote_server) (sy_handlers: "handler multiset") (sy_shutdown: nat)

text \<open>The connection and the client of a handler that serves one, with its lock when it creates a target.\<close>

fun serving :: "handler \<Rightarrow> (conn_id \<times> principal) option" where
  "serving (H_running c p) = Some (c, p)"
| "serving (H_admitted c p k) = Some (c, p)"
| "serving (H_waiting c p k l) = Some (c, p)"
| "serving (H_locked c p k l) = Some (c, p)"
| "serving (H_found c p k l) = Some (c, p)"
| "serving (H_counting c p k l) = Some (c, p)"
| "serving (H_allowed c p k l) = Some (c, p)"
| "serving (H_launching c p k l j) = Some (c, p)"
| "serving (H_canceled c p k l j) = Some (c, p)"
| "serving h = None"

fun has_lock :: "handler \<Rightarrow> lock_id option" where
  "has_lock (H_waiting c p k l) = Some l"
| "has_lock (H_locked c p k l) = Some l"
| "has_lock (H_found c p k l) = Some l"
| "has_lock (H_counting c p k l) = Some l"
| "has_lock (H_allowed c p k l) = Some l"
| "has_lock (H_launching c p k l j) = Some l"
| "has_lock (H_canceled c p k l j) = Some l"
| "has_lock h = None"

fun waiting :: "handler \<Rightarrow> bool" where
  "waiting (H_waiting c p k l) = True"
| "waiting h = False"

definition holds :: "handler \<Rightarrow> lock_id option" where
  "holds h = (if waiting h then None else has_lock h)"

fun creating :: "handler \<Rightarrow> bool" where
  "creating (H_running c p) = False"
| "creating h = (serving h \<noteq> None)"

fun reader :: "handler \<Rightarrow> bool" where
  "reader (H_checked p) = True"
| "reader h = creating h"

fun reserved :: "handler \<Rightarrow> principal option" where
  "reserved (H_reserved p) = Some p"
| "reserved (H_checked p) = Some p"
| "reserved h = None"

text \<open>The sections of what uses a connection, and of what uses a service without creating a target.\<close>

inductive conn_section :: "ws_connection \<Rightarrow> ws_connection \<Rightarrow> bool" for w where
  "conn_section w (fst (enqueue w m))"
| "conn_section w (signalClose w code reason)"
| "conn_section w (connection_stop w)"
| "conn_section w (w\<lparr>wc_queue := fst (queue_pop (wc_queue w))\<rparr>)"
| "conn_section w (w\<lparr>wc_queue := (wc_queue w)\<lparr>bq_notify := b\<rparr>\<rparr>)"
| "conn_section w (w\<lparr>wc_closeReq := None\<rparr>)"
| "conn_section w (w\<lparr>wc_following := b\<rparr>)"

inductive store_section :: "store \<Rightarrow> store \<Rightarrow> bool" for st where
  "store_section st (fst (BeginExistingUse k now st))"
| "i < length (st_tabs st) \<Longrightarrow> store_section st (finishUse i now st)"
| "store_section st (TouchTarget k now st)"
| "store_section st (fst (closeTarget k c st))"
| "store_section st (fst (CloseAll st))"
| "store_section st (fst (CloseIdleTargets now d st))"
| "store_section st (fst (removeWhenDone k i st))"

inductive service_section :: "service \<Rightarrow> service \<Rightarrow> bool" for v where
  "beginOperation v = Inr v' \<Longrightarrow> service_section v v'"
| "service_section v (endOperation v)"
| "store_section (sv_store v) st \<Longrightarrow> service_section v (v\<lparr>sv_store := st\<rparr>)"

text \<open>The sections of \<open>Shutdown\<close>.\<close>

definition shutdown_start :: "remote_server \<Rightarrow> remote_server" where
  "shutdown_start s = s\<lparr>rv_closing := True\<rparr>"

definition all_connections :: "remote_server \<Rightarrow> conn_id list" where
  "all_connections s = concat (map snd (rv_connections s))"

definition shutdown_signal :: "remote_server \<Rightarrow> remote_server" where
  "shutdown_signal s = close_all CloseGoingAway ''server_shutdown'' (all_connections s) s"

definition shutdown_take_services :: "remote_server \<Rightarrow> remote_server \<times> service list" where
  "shutdown_take_services s = (s\<lparr>rv_services := []\<rparr>, map snd (rv_services s))"

text \<open>
  New passwords are random: none has the digest of a password with which somebody is about to revoke.
\<close>

definition fresh_password :: "(string \<Rightarrow> string) \<Rightarrow> reg_env \<Rightarrow> handler multiset \<Rightarrow> bool" where
  "fresh_password sha env hs \<longleftrightarrow>
     (\<forall>p name pw bytes. H_revoking p name pw \<in># hs \<longrightarrow> re_password env = Some bytes \<longrightarrow> sha (b64_encode bytes) \<noteq> sha pw)"

abbreviation no_reader :: "handler multiset \<Rightarrow> bool" where
  "no_reader hs \<equiv> \<forall>h\<in>#hs. \<not> reader h"

text \<open>
  The steps, in the order of the code: a connection from its reservation to its end; the sections of what
  goes on with connections and services; registration, rotation and revocation; the creation of a target;
  connections before authentication; the shutdown.
\<close>

inductive sys_step :: "(string \<Rightarrow> string) \<Rightarrow> remote_sys \<Rightarrow> remote_sys \<Rightarrow> bool" for sha where
  reserve: "reserveConnection (pr_owner p) s = (s', None) \<Longrightarrow>
    sys_step sha (Sys s hs n) (Sys s' (add_mset (H_reserved p) hs) n)"
| give_up: "sys_step sha (Sys s (add_mset (H_reserved p) hs) n) (Sys (releaseConnectionReservation (pr_owner p) s) hs n)"
| recheck: "Authenticate sha (rv_registry s) name pw = Inr p \<Longrightarrow>
    sys_step sha (Sys s (add_mset (H_reserved p) hs) n) (Sys s (add_mset (H_checked p) hs) n)"
| activate: "conn_of s c = None \<Longrightarrow> activateConnection c p s = (s', True) \<Longrightarrow>
    sys_step sha (Sys s (add_mset (H_checked p) hs) n) (Sys s' (add_mset (H_running c p) hs) n)"
| activate_refused: "activateConnection c p s = (s', False) \<Longrightarrow>
    sys_step sha (Sys s (add_mset (H_checked p) hs) n) (Sys s' hs n)"
| end_connection: "sys_step sha (Sys s (add_mset (H_running c p) hs) n)
    (Sys (ws_removeConnection c (pr_owner p) (update_conn c connection_stop s)) hs n)"
| use_connection: "conn_of s c = Some w \<Longrightarrow> conn_section w w' \<Longrightarrow>
    sys_step sha (Sys s hs n) (Sys (update_conn c (\<lambda>w. w') s) hs n)"
| use_service: "map_of (rv_services s) o' = Some v \<Longrightarrow> service_section v v' \<Longrightarrow>
    sys_step sha (Sys s hs n) (Sys (put_service o' v' s) hs n)"
| register: "env_ok sha env (rv_registry s) \<Longrightarrow> fresh_password sha env hs \<Longrightarrow>
    Register sha env name (rv_registry s) = (r, out) \<Longrightarrow> sys_step sha (Sys s hs n) (Sys (s\<lparr>rv_registry := r\<rparr>) hs n)"
| rotate: "env_ok sha env (rv_registry s) \<Longrightarrow> fresh_password sha env hs \<Longrightarrow>
    Rotate sha env name pw (rv_registry s) = (r, out) \<Longrightarrow> outcome_value out = Some (new_pw, p) \<Longrightarrow>
    sys_step sha (Sys s hs n) (Sys (s\<lparr>rv_registry := r\<rparr>) (add_mset (H_rotated p) hs) n)"
| rotated: "no_reader hs \<Longrightarrow> sys_step sha (Sys s (add_mset (H_rotated p) hs) n) (Sys (close_rotated p s) hs n)"
| begin_revoke: "Authenticate sha (rv_registry s) name pw = Inr p \<Longrightarrow>
    sys_step sha (Sys s hs n) (Sys s (add_mset (H_revoking p name pw) hs) n)"
| revoke_fails: "sys_step sha (Sys s (add_mset (H_revoking p name pw) hs) n) (Sys s hs n)"
| revoke: "env_ok sha env (rv_registry s) \<Longrightarrow>
    Revoke sha env name pw (rv_registry s) = (r, out) \<Longrightarrow> outcome_value out = Some () \<Longrightarrow>
    sys_step sha (Sys s (add_mset (H_revoking p name pw) hs) n)
      (Sys (s\<lparr>rv_registry := r\<rparr>) (add_mset (H_revoked (pr_owner p)) hs) n)"
| revoked: "no_reader hs \<Longrightarrow>
    sys_step sha (Sys s (add_mset (H_revoked o') hs) n) (Sys (fst (close_revoked o' s)) hs n)"
| close_registry: "sys_step sha (Sys s hs n) (Sys (s\<lparr>rv_registry := fst (Registry_Close a b (rv_registry s))\<rparr>) hs n)"
| admit_create: "\<not> rv_closing s \<Longrightarrow> \<not> conn_done s c \<Longrightarrow>
    sys_step sha (Sys s (add_mset (H_running c p) hs) n) (Sys s (add_mset (H_admitted c p k) hs) n)"
| find_lock: "createLockFor (pr_owner p) s = (s', l) \<Longrightarrow>
    sys_step sha (Sys s (add_mset (H_admitted c p k) hs) n) (Sys s' (add_mset (H_waiting c p k l) hs) n)"
| lock: "\<forall>h\<in>#hs. holds h \<noteq> Some l \<Longrightarrow>
    sys_step sha (Sys s (add_mset (H_waiting c p k l) hs) n) (Sys s (add_mset (H_locked c p k l) hs) n)"
| find_service: "serviceFor p True s = (s', Some v) \<Longrightarrow>
    sys_step sha (Sys s (add_mset (H_locked c p k l) hs) n) (Sys s' (add_mset (H_found c p k l) hs) n)"
| no_service: "serviceFor p True s = (s', None) \<Longrightarrow>
    sys_step sha (Sys s (add_mset (H_locked c p k l) hs) n) (Sys s' (add_mset (H_running c p) hs) n)"
| exists: "map_of (rv_services s) (pr_owner p) = Some v \<Longrightarrow> targetExists (sv_store v) k \<Longrightarrow>
    sys_step sha (Sys s (add_mset (H_found c p k l) hs) n) (Sys s (add_mset (H_allowed c p k l) hs) n)"
| missing: "map_of (rv_services s) (pr_owner p) = Some v \<Longrightarrow> \<not> targetExists (sv_store v) k \<Longrightarrow>
    sys_step sha (Sys s (add_mset (H_found c p k l) hs) n) (Sys s (add_mset (H_counting c p k l) hs) n)"
| below_limit: "map_of (rv_services s) (pr_owner p) = Some v \<Longrightarrow> TargetCount v < rv_max_targets s \<Longrightarrow>
    sys_step sha (Sys s (add_mset (H_counting c p k l) hs) n) (Sys s (add_mset (H_allowed c p k l) hs) n)"
| at_limit: "map_of (rv_services s) (pr_owner p) = Some v \<Longrightarrow> rv_max_targets s \<le> TargetCount v \<Longrightarrow>
    sys_step sha (Sys s (add_mset (H_counting c p k l) hs) n) (Sys s (add_mset (H_running c p) hs) n)"
| create_refused: "sys_step sha (Sys s (add_mset (H_allowed c p k l) hs) n) (Sys s (add_mset (H_running c p) hs) n)"
| create_found: "map_of (rv_services s) (pr_owner p) = Some v \<Longrightarrow>
    get_or_start k True now (sv_store v) = (st, Found i) \<Longrightarrow>
    sys_step sha (Sys s (add_mset (H_allowed c p k l) hs) n)
      (Sys (put_service (pr_owner p) (v\<lparr>sv_store := st\<rparr>) s) (add_mset (H_running c p) hs) n)"
| create_start: "map_of (rv_services s) (pr_owner p) = Some v \<Longrightarrow>
    get_or_start k True now (sv_store v) = (st, Start j) \<Longrightarrow>
    sys_step sha (Sys s (add_mset (H_allowed c p k l) hs) n)
      (Sys (put_service (pr_owner p) (v\<lparr>sv_store := st\<rparr>) s) (add_mset (H_launching c p k l j) hs) n)"
| create_done: "map_of (rv_services s) (pr_owner p) = Some v \<Longrightarrow>
    finish_start k True j runner err now (sv_store v) = (st, x) \<Longrightarrow> (\<forall>runner. x \<noteq> Canceled runner) \<Longrightarrow>
    sys_step sha (Sys s (add_mset (H_launching c p k l j) hs) n)
      (Sys (put_service (pr_owner p) (v\<lparr>sv_store := st\<rparr>) s) (add_mset (H_running c p) hs) n)"
| create_canceled: "map_of (rv_services s) (pr_owner p) = Some v \<Longrightarrow>
    finish_start k True j runner err now (sv_store v) = (st, Canceled runner') \<Longrightarrow>
    sys_step sha (Sys s (add_mset (H_launching c p k l j) hs) n) (Sys s (add_mset (H_canceled c p k l j) hs) n)"
| create_closed: "map_of (rv_services s) (pr_owner p) = Some v \<Longrightarrow>
    sys_step sha (Sys s (add_mset (H_canceled c p k l j) hs) n)
      (Sys (put_service (pr_owner p) (v\<lparr>sv_store := finish_canceled k j e (sv_store v)\<rparr>) s) (add_mset (H_running c p) hs) n)"
| pre_admit: "admitPreAuthConnection c s = (s', True) \<Longrightarrow> sys_step sha (Sys s hs n) (Sys s' hs n)"
| pre_release: "sys_step sha (Sys s hs n) (Sys (releasePreAuthConnection c s) hs n)"
| stop_start: "sys_step sha (Sys s hs 0) (Sys (shutdown_start s) hs 1)"
| stop_pre_auth: "sys_step sha (Sys s hs 1) (Sys (fst (closePreAuthConnections s)) hs 2)"
| stop_signal: "no_reader hs \<Longrightarrow> sys_step sha (Sys s hs 2) (Sys (shutdown_signal s) hs 3)"
| stop_services: "sys_step sha (Sys s hs 3) (Sys (fst (shutdown_take_services s)) hs 4)"

inductive sys_reachable :: "(string \<Rightarrow> string) \<Rightarrow> remote_server \<Rightarrow> remote_sys \<Rightarrow> bool" for sha s0 where
  sys_start: "sys_reachable sha s0 (Sys s0 {#} 0)"
| sys_next: "sys_reachable sha s0 x \<Longrightarrow> sys_step sha x y \<Longrightarrow> sys_reachable sha s0 y"

inductive_cases sys_reachable_cases: "sys_reachable sha s0 x"

subsection \<open>What the sections leave alone\<close>

lemma sum_update:
  fixes f :: "'b \<Rightarrow> int"
  assumes "distinct (map fst al)"
  shows "sum_list (map (\<lambda>(k, v). f v) (AList.update k v al)) =
    sum_list (map (\<lambda>(k, v). f v) al) - (case map_of al k of None \<Rightarrow> 0 | Some w \<Rightarrow> f w) + f v"
  using assms by (induction al) (auto split: option.split)

lemma sum_delete:
  fixes f :: "'b \<Rightarrow> int"
  assumes "distinct (map fst al)"
  shows "sum_list (map (\<lambda>(k, v). f v) (AList.delete k al)) =
    sum_list (map (\<lambda>(k, v). f v) al) - (case map_of al k of None \<Rightarrow> 0 | Some w \<Rightarrow> f w)"
  using assms
proof (induction al)
  case (Cons x al)
  then show ?case by (cases x) (auto simp: map_of_eq_None_iff split: option.split)
qed simp

text \<open>The fields that count connections, and those that the limits are kept in.\<close>

definition counts :: "remote_server \<Rightarrow> (string \<times> int) list \<times> int \<times> (string \<times> conn_id list) list \<times> int \<times> int" where
  "counts s = (rv_pending s, rv_pending_total s, rv_connections s, rv_max_connections s, rv_max_per_client s)"

lemma close_all_frame [simp]:
  "rv_services (close_all code reason cs s) = rv_services s" "rv_create_lock (close_all code reason cs s) = rv_create_lock s"
  "rv_registry (close_all code reason cs s) = rv_registry s" "rv_connections (close_all code reason cs s) = rv_connections s"
  "rv_closing (close_all code reason cs s) = rv_closing s" "rv_pre_auth (close_all code reason cs s) = rv_pre_auth s"
  "rv_max_targets (close_all code reason cs s) = rv_max_targets s" "rv_factory (close_all code reason cs s) = rv_factory s"
  "rv_locks (close_all code reason cs s) = rv_locks s" "rv_pending (close_all code reason cs s) = rv_pending s"
  "rv_pending_total (close_all code reason cs s) = rv_pending_total s"
  "rv_max_connections (close_all code reason cs s) = rv_max_connections s"
  "rv_max_per_client (close_all code reason cs s) = rv_max_per_client s"
  unfolding close_all_def by (induction cs arbitrary: s) simp_all

lemma closing_frame [simp]:
  "rv_services (close_rotated p s) = rv_services s" "rv_create_lock (close_rotated p s) = rv_create_lock s"
  "rv_registry (close_rotated p s) = rv_registry s" "rv_connections (close_rotated p s) = rv_connections s"
  "rv_closing (close_rotated p s) = rv_closing s" "rv_pre_auth (close_rotated p s) = rv_pre_auth s"
  "rv_max_targets (close_rotated p s) = rv_max_targets s" "rv_factory (close_rotated p s) = rv_factory s"
  "rv_locks (close_rotated p s) = rv_locks s" "counts (close_rotated p s) = counts s"
  "rv_services (fst (close_revoked o' s)) = AList.delete o' (rv_services s)"
  "rv_create_lock (fst (close_revoked o' s)) = AList.delete o' (rv_create_lock s)"
  "rv_registry (fst (close_revoked o' s)) = rv_registry s" "rv_connections (fst (close_revoked o' s)) = rv_connections s"
  "rv_closing (fst (close_revoked o' s)) = rv_closing s" "rv_pre_auth (fst (close_revoked o' s)) = rv_pre_auth s"
  "rv_max_targets (fst (close_revoked o' s)) = rv_max_targets s" "rv_factory (fst (close_revoked o' s)) = rv_factory s"
  "rv_locks (fst (close_revoked o' s)) = rv_locks s" "counts (fst (close_revoked o' s)) = counts s"
  "rv_services (shutdown_signal s) = rv_services s" "rv_create_lock (shutdown_signal s) = rv_create_lock s"
  "rv_registry (shutdown_signal s) = rv_registry s" "rv_connections (shutdown_signal s) = rv_connections s"
  "rv_closing (shutdown_signal s) = rv_closing s" "rv_pre_auth (shutdown_signal s) = rv_pre_auth s"
  "rv_max_targets (shutdown_signal s) = rv_max_targets s" "rv_factory (shutdown_signal s) = rv_factory s"
  "rv_locks (shutdown_signal s) = rv_locks s" "counts (shutdown_signal s) = counts s"
  by (simp_all add: close_rotated_def closeOwnerConnections_def close_revoked_def removeService_def shutdown_signal_def counts_def)

lemma conn_frame [simp]:
  "conn_of (put_service o' v s) c = conn_of s c" "conn_of (releaseConnectionReservation o' s) c = conn_of s c"
  "conn_of (ws_removeConnection c' o' s) c = conn_of s c" "conn_of (s\<lparr>rv_registry := r\<rparr>) c = conn_of s c"
  "conn_of (releasePreAuthConnection c' s) c = conn_of s c" "conn_of (shutdown_start s) c = conn_of s c"
  "conn_of (fst (closePreAuthConnections s)) c = conn_of s c" "conn_of (fst (shutdown_take_services s)) c = conn_of s c"
  by (simp_all add: conn_of_def put_service_def releaseConnectionReservation_def ws_removeConnection_def Let_def
      releasePreAuthConnection_def shutdown_start_def closePreAuthConnections_def shutdown_take_services_def)

lemma counts_frame [simp]:
  "counts (update_conn c f s) = counts s" "counts (put_service o' v s) = counts s" "counts (s\<lparr>rv_registry := r\<rparr>) = counts s"
  "counts (fst (createLockFor o' s)) = counts s" "counts (fst (serviceFor p b s)) = counts s"
  "counts (releasePreAuthConnection c s) = counts s" "counts (shutdown_start s) = counts s"
  "counts (fst (closePreAuthConnections s)) = counts s" "counts (fst (shutdown_take_services s)) = counts s"
  by (simp_all add: counts_def put_service_def createLockFor_def serviceFor_def releasePreAuthConnection_def
      shutdown_start_def closePreAuthConnections_def shutdown_take_services_def split: option.split)

lemma counts_results:
  "createLockFor o' s = (s', l) \<Longrightarrow> counts s' = counts s" "serviceFor p b s = (s', x) \<Longrightarrow> counts s' = counts s"
  "admitPreAuthConnection c s = (s', ok) \<Longrightarrow> counts s' = counts s"
  using counts_frame(4) [of o' s] counts_frame(5) [of p b s]
  by (auto simp: admitPreAuthConnection_def counts_def split: if_split_asm)

subsection \<open>The limits on connections\<close>

definition reservations :: "handler multiset \<Rightarrow> int" where
  "reservations hs = int (size {#h \<in># hs. reserved h \<noteq> None#})"

definition owner_reservations :: "string \<Rightarrow> handler multiset \<Rightarrow> int" where
  "owner_reservations o' hs = int (size {#h \<in># hs. \<exists>p. reserved h = Some p \<and> pr_owner p = o'#})"

lemma reservations_add [simp]:
  "reservations (add_mset h hs) = reservations hs + (if reserved h = None then 0 else 1)"
  "owner_reservations o' (add_mset h hs) =
     owner_reservations o' hs + (case reserved h of None \<Rightarrow> 0 | Some p \<Rightarrow> if pr_owner p = o' then 1 else 0)"
  "reservations {#} = 0" "owner_reservations o' {#} = 0"
  by (auto simp: reservations_def owner_reservations_def split: option.split)

lemma reservations_nonneg [simp]: "0 \<le> reservations hs" "0 \<le> owner_reservations o' hs"
  by (simp_all add: reservations_def owner_reservations_def)

definition limits_ok :: "remote_server \<Rightarrow> handler multiset \<Rightarrow> bool" where
  "limits_ok s hs \<longleftrightarrow> distinct (map fst (rv_connections s)) \<and> rv_pending_total s = reservations hs \<and>
     (\<forall>o'. owner_pending s o' = owner_reservations o' hs) \<and>
     activeTotal s + reservations hs \<le> rv_max_connections s \<and>
     (\<forall>o'. int (length (owner_connections s o')) + owner_reservations o' hs \<le> rv_max_per_client s)"

lemma limits_cong:
  assumes "counts s' = counts s"
  shows "limits_ok s' hs = limits_ok s hs"
  using assms by (simp add: counts_def limits_ok_def owner_pending_def activeTotal_def owner_connections_def)

lemma reserve_limits:
  assumes "reserveConnection (pr_owner p) s = (s', None)" "limits_ok s hs"
  shows "limits_ok s' (add_mset (H_reserved p) hs)"
  using assms
  by (auto simp: reserveConnection_def limits_ok_def owner_pending_def activeTotal_def owner_connections_def update_conv'
      split: if_split_asm)

lemma release_limits:
  assumes "limits_ok s (add_mset h hs)" "reserved h = Some p"
  shows "limits_ok (releaseConnectionReservation (pr_owner p) s) hs"
proof -
  have pend: "owner_pending s o' = owner_reservations o' hs + (if pr_owner p = o' then 1 else 0)" for o'
    using assms by (simp add: limits_ok_def)
  have "owner_pending (releaseConnectionReservation (pr_owner p) s) o' = owner_reservations o' hs" for o'
    using pend [of o'] reservations_nonneg(2) [of "pr_owner p" hs]
    by (auto simp: releaseConnectionReservation_def owner_pending_def update_conv' delete_conv' simp del: reservations_nonneg
        split: if_split_asm)
  moreover have "int (length (owner_connections s o')) + owner_reservations o' hs \<le> rv_max_per_client s" for o'
  proof -
    have "int (length (owner_connections s o')) + owner_reservations o' (add_mset h hs) \<le> rv_max_per_client s"
      using assms(1) by (simp add: limits_ok_def)
    then show ?thesis using assms(2) by (simp split: if_split_asm)
  qed
  ultimately show ?thesis
    using assms by (auto simp: limits_ok_def releaseConnectionReservation_def activeTotal_def owner_connections_def)
qed

lemma activate_limits:
  assumes "activateConnection c p s = (s', True)" "limits_ok s (add_mset (H_checked p) hs)"
  shows "limits_ok s' (add_mset (H_running c p) hs)"
proof -
  define s1 where "s1 = releaseConnectionReservation (pr_owner p) s"
  have ok: "limits_ok s1 hs" unfolding s1_def using release_limits [OF assms(2)] by simp
  have old: "activeTotal s1 + 1 + reservations hs \<le> rv_max_connections s1"
    "int (length (owner_connections s1 (pr_owner p))) + 1 + owner_reservations (pr_owner p) hs \<le> rv_max_per_client s1"
    using assms(2) by (auto simp: limits_ok_def s1_def releaseConnectionReservation_def activeTotal_def owner_connections_def
        dest: spec [of _ "pr_owner p"])
  let ?cs = "List.insert c (owner_connections s1 (pr_owner p))"
  have s': "s' = s1\<lparr>rv_connections := AList.update (pr_owner p) ?cs (rv_connections s1),
      rv_conns := AList.update c (newWSConnection p (rv_queue_bytes s1)) (rv_conns s1)\<rparr>"
    using assms(1) by (auto simp: activateConnection_def Let_def s1_def split: if_split_asm)
  have dist: "distinct (map fst (rv_connections s1))" using ok by (simp add: limits_ok_def)
  have len: "int (length ?cs) \<le> int (length (owner_connections s1 (pr_owner p))) + 1"
    by (simp add: List.insert_def)
  have "activeTotal s' \<le> activeTotal s1 + 1"
    using len unfolding s' by (auto simp: activeTotal_def sum_update [OF dist] owner_connections_def split: option.split)
  moreover have "owner_connections s' o' = (if o' = pr_owner p then ?cs else owner_connections s1 o')" for o'
    unfolding s' by (simp add: owner_connections_def update_conv')
  moreover have "rv_pending_total s' = rv_pending_total s1" "rv_max_connections s' = rv_max_connections s1"
    "rv_max_per_client s' = rv_max_per_client s1" "\<And>o'. owner_pending s' o' = owner_pending s1 o'"
    "distinct (map fst (rv_connections s'))"
    using dist unfolding s' by (simp_all add: owner_pending_def distinct_update)
  ultimately show ?thesis using ok old len by (auto simp: limits_ok_def)
qed

lemma remove_limits:
  assumes "limits_ok s (add_mset h hs)" "reserved h = None"
  shows "limits_ok (ws_removeConnection c o' s) hs"
proof -
  let ?cs = "removeAll c (owner_connections s o')"
  let ?s = "ws_removeConnection c o' s"
  have dist: "distinct (map fst (rv_connections s))" using assms by (simp add: limits_ok_def)
  have len: "int (length ?cs) \<le> int (length (owner_connections s o'))" by (simp add: length_removeAll_less_eq)
  have "activeTotal ?s \<le> activeTotal s"
    using len unfolding activeTotal_def ws_removeConnection_def Let_def
    by (auto simp: sum_update [OF dist] sum_delete [OF dist] owner_connections_def split: option.split)
  moreover have "owner_connections ?s o'' = (if o'' = o' then ?cs else owner_connections s o'')" for o''
    by (auto simp: ws_removeConnection_def Let_def owner_connections_def update_conv' delete_conv')
  moreover have "rv_pending_total ?s = rv_pending_total s" "rv_max_connections ?s = rv_max_connections s"
    "rv_max_per_client ?s = rv_max_per_client s" "\<And>o'. owner_pending ?s o' = owner_pending s o'"
    "distinct (map fst (rv_connections ?s))"
    using dist by (simp_all add: ws_removeConnection_def Let_def owner_pending_def distinct_update distinct_delete)
  moreover have "int (length (owner_connections s o'')) + owner_reservations o'' hs \<le> rv_max_per_client s" for o''
    using assms by (simp add: limits_ok_def)
  moreover from this [of o'] len have "int (length ?cs) + owner_reservations o' hs \<le> rv_max_per_client s" by linarith
  ultimately show ?thesis using assms by (simp add: limits_ok_def)
qed

text \<open>The other steps keep the counts, and each replaces a handler by one that reserves as much.\<close>

lemma handlers_limits:
  assumes "limits_ok s hs" "counts s' = counts s" "reservations hs' = reservations hs"
    and "\<And>o'. owner_reservations o' hs' = owner_reservations o' hs"
  shows "limits_ok s' hs'"
  using assms limits_cong [OF assms(2), of hs'] by (simp add: limits_ok_def)

lemma step_limits: "sys_step sha x y \<Longrightarrow> limits_ok (sy_server x) (sy_handlers x) \<Longrightarrow> limits_ok (sy_server y) (sy_handlers y)"
proof (induction rule: sys_step.induct)
  case (reserve p s s' hs n)
  then show ?case using reserve_limits by simp
next
  case (give_up s p hs n)
  then show ?case using release_limits by simp
next
  case (activate s c p s' hs n)
  then show ?case using activate_limits by simp
next
  case (activate_refused c p s s' hs n)
  then have "s' = releaseConnectionReservation (pr_owner p) s"
    by (auto simp: activateConnection_def Let_def split: if_split_asm)
  then show ?case using activate_refused release_limits by simp
next
  case (end_connection s c p hs n)
  then have "limits_ok (update_conn c connection_stop s) (add_mset (H_running c p) hs)"
    using limits_cong [of "update_conn c connection_stop s" s] by simp
  then show ?case using remove_limits by simp
qed (simp add: handlers_limits counts_results)+

subsection \<open>Connections and their handlers\<close>

text \<open>A connection keeps its client and stays done; so does every connection of a server.\<close>

definition ages :: "ws_connection \<Rightarrow> ws_connection \<Rightarrow> bool" where
  "ages w w' \<longleftrightarrow> wc_principal w' = wc_principal w \<and> (wc_done w \<longrightarrow> wc_done w') \<and>
     ((wc_once w \<longrightarrow> wc_done w) \<longrightarrow> wc_once w' \<longrightarrow> wc_done w')"

definition conns_age :: "remote_server \<Rightarrow> remote_server \<Rightarrow> bool" where
  "conns_age s s' \<longleftrightarrow> (\<forall>c. rel_option ages (conn_of s c) (conn_of s' c))"

lemma ages_refl [simp]: "ages w w"
  by (simp add: ages_def)

lemma section_ages: "conn_section w w' \<Longrightarrow> ages w w'"
  by (induction rule: conn_section.induct)
    (auto simp: ages_def enqueue_def signalClose_def connection_stop_def tryPush_def split: option.split)

lemma conns_age_same: "(\<And>c. conn_of s' c = conn_of s c) \<Longrightarrow> conns_age s s'"
  by (simp add: conns_age_def option.rel_refl)

lemma conns_age_update: "(\<And>w. conn_of s c = Some w \<Longrightarrow> ages w (f w)) \<Longrightarrow> conns_age s (update_conn c f s)"
  by (auto simp: conns_age_def option.rel_refl split: option.split) (cases "conn_of s c"; simp)

lemma conn_of_close_all:
  "conn_of (close_all code reason cs s) c =
     (if c \<in> set cs then map_option (\<lambda>w. signalClose w code reason) (conn_of s c) else conn_of s c)"
proof -
  have idem: "signalClose (signalClose w code reason) code reason = signalClose w code reason" for w
    by (simp add: signalClose_def)
  show ?thesis
    unfolding close_all_def by (induction cs arbitrary: s) (auto simp: option.map_comp comp_def idem)
qed

lemma signal_ages: "ages w (signalClose w code reason)"
  by (rule section_ages) (rule conn_section.intros)

lemma conns_age_close_all: "conns_age s (close_all code reason cs s)"
  by (auto simp: conns_age_def conn_of_close_all option.rel_map option.rel_refl signal_ages)

lemma conns_age_closing:
  "conns_age s (close_rotated p s)" "conns_age s (fst (close_revoked o' s))" "conns_age s (shutdown_signal s)"
  by (simp_all add: close_rotated_def close_revoked_def closeOwnerConnections_def removeService_def shutdown_signal_def
      conns_age_close_all) (use conns_age_close_all in \<open>simp add: conns_age_def conn_of_def\<close>)

lemma conn_results:
  "createLockFor o' s = (s', l) \<Longrightarrow> conn_of s' c = conn_of s c" "serviceFor p b s = (s', x) \<Longrightarrow> conn_of s' c = conn_of s c"
  "admitPreAuthConnection c' s = (s', ok) \<Longrightarrow> conn_of s' c = conn_of s c"
  "reserveConnection o' s = (s', e) \<Longrightarrow> conn_of s' c = conn_of s c"
  "activateConnection c' q s = (s', False) \<Longrightarrow> conn_of s' c = conn_of s c"
proof -
  show "createLockFor o' s = (s', l) \<Longrightarrow> conn_of s' c = conn_of s c" by (metis createLockFor_frame(1) fst_conv)
  show "serviceFor p b s = (s', x) \<Longrightarrow> conn_of s' c = conn_of s c" by (metis serviceFor_frame(1) fst_conv)
  show "admitPreAuthConnection c' s = (s', ok) \<Longrightarrow> conn_of s' c = conn_of s c"
    by (auto simp: admitPreAuthConnection_def conn_of_def split: if_split_asm)
  show "reserveConnection o' s = (s', e) \<Longrightarrow> conn_of s' c = conn_of s c"
    by (auto simp: reserveConnection_def conn_of_def split: if_split_asm)
  show "activateConnection c' q s = (s', False) \<Longrightarrow> conn_of s' c = conn_of s c"
    by (auto simp: activateConnection_def Let_def split: if_split_asm)
qed

definition servings :: "handler multiset \<Rightarrow> (conn_id \<times> principal) set" where
  "servings hs = {cp. \<exists>h\<in>#hs. serving h = Some cp}"

lemma servings_add [simp]:
  "servings {#} = {}"
  "servings (add_mset h hs) = (case serving h of None \<Rightarrow> servings hs | Some cp \<Rightarrow> insert cp (servings hs))"
  by (auto simp: servings_def split: option.split)

definition conns_ok :: "remote_server \<Rightarrow> (conn_id \<times> principal) set \<Rightarrow> bool" where
  "conns_ok s cps \<longleftrightarrow>
     (\<forall>c w. conn_of s c = Some w \<longrightarrow> wc_done w \<or> \<not> wc_once w \<and> c \<in> set (owner_connections s (pr_owner (wc_principal w)))) \<and>
     (\<forall>c p. (c, p) \<in> cps \<longrightarrow> (\<exists>w. conn_of s c = Some w \<and> wc_principal w = p)) \<and>
     (\<forall>o' c. c \<in> set (owner_connections s o') \<longrightarrow> (\<exists>p. (c, p) \<in> cps \<and> pr_owner p = o'))"

lemma conns_okD:
  "conns_ok s cps \<Longrightarrow> conn_of s c = Some w \<Longrightarrow>
     wc_done w \<or> \<not> wc_once w \<and> c \<in> set (owner_connections s (pr_owner (wc_principal w)))"
  "conns_ok s cps \<Longrightarrow> (c, p) \<in> cps \<Longrightarrow> \<exists>w. conn_of s c = Some w \<and> wc_principal w = p"
  "conns_ok s cps \<Longrightarrow> c \<in> set (owner_connections s o') \<Longrightarrow> \<exists>p. (c, p) \<in> cps \<and> pr_owner p = o'"
  by (simp_all add: conns_ok_def)

lemma conns_age_old: "conns_age s s' \<Longrightarrow> conn_of s' c = Some w' \<Longrightarrow> \<exists>w. conn_of s c = Some w \<and> ages w w'"
  unfolding conns_age_def by (metis option_rel_Some2)

lemma conns_age_new: "conns_age s s' \<Longrightarrow> conn_of s c = Some w \<Longrightarrow> \<exists>w'. conn_of s' c = Some w' \<and> ages w w'"
  unfolding conns_age_def by (metis option_rel_Some1)

lemma conns_ok_age:
  assumes "conns_ok s cps" "conns_age s s'" "rv_connections s' = rv_connections s"
  shows "conns_ok s' cps"
proof -
  have same: "owner_connections s' = owner_connections s" by (simp add: owner_connections_def assms(3) fun_eq_iff)
  have "wc_done w' \<or> \<not> wc_once w' \<and> c \<in> set (owner_connections s (pr_owner (wc_principal w')))"
    if "conn_of s' c = Some w'" for c w'
    using conns_age_old [OF assms(2) that] by (auto simp: ages_def dest: conns_okD(1) [OF assms(1)])
  moreover have "\<exists>w. conn_of s' c = Some w \<and> wc_principal w = p" if "(c, p) \<in> cps" for c p
  proof -
    obtain w where "conn_of s c = Some w" "wc_principal w = p" using conns_okD(2) [OF assms(1) \<open>(c, p) \<in> cps\<close>] by blast
    then show ?thesis using conns_age_new [OF assms(2)] by (auto simp: ages_def)
  qed
  ultimately show ?thesis using assms(1) by (simp add: conns_ok_def same)
qed

lemma counts_connections: "counts s' = counts s \<Longrightarrow> rv_connections s' = rv_connections s"
  by (simp add: counts_def)

lemma conns_ok_same:
  "conns_ok s cps \<Longrightarrow> counts s' = counts s \<Longrightarrow> (\<And>c. conn_of s' c = conn_of s c) \<Longrightarrow> conns_ok s' cps"
  by (metis conns_ok_age conns_age_same counts_connections)

lemma activated:
  assumes "activateConnection c p s = (s', True)"
  shows "conn_of s' d = (if d = c then Some (newWSConnection p (rv_queue_bytes s)) else conn_of s d)"
    and "owner_connections s' o' =
      (if o' = pr_owner p then List.insert c (owner_connections s (pr_owner p)) else owner_connections s o')"
    and "\<not> rv_closing s" "rv_closing s' = rv_closing s" "rv_registry s' = rv_registry s" "rv_services s' = rv_services s"
    and "rv_create_lock s' = rv_create_lock s" "rv_pre_auth s' = rv_pre_auth s" "rv_max_targets s' = rv_max_targets s"
    and "rv_factory s' = rv_factory s" "rv_locks s' = rv_locks s"
  using assms
  by (auto simp: activateConnection_def Let_def releaseConnectionReservation_def conn_of_def owner_connections_def update_conv'
      split: if_split_asm)

lemma owner_connections_removed:
  "owner_connections (ws_removeConnection c o' s) o'' =
     (if o'' = o' then removeAll c (owner_connections s o') else owner_connections s o'')"
  by (auto simp: ws_removeConnection_def Let_def owner_connections_def update_conv' delete_conv')

lemma conns_ok_removed:
  assumes "conns_ok s (insert (c, p) cps)"
  shows "conns_ok (ws_removeConnection c (pr_owner p) (update_conn c connection_stop s)) cps"
    (is "conns_ok ?s cps")
proof -
  have conns: "conn_of ?s d = (if d = c then map_option connection_stop (conn_of s c) else conn_of s d)" for d by simp
  have own: "owner_connections ?s o' = (if o' = pr_owner p then removeAll c (owner_connections s o') else owner_connections s o')" for o'
    unfolding owner_connections_removed by (simp add: owner_connections_def)
  note d = conns_okD [OF assms]
  have c: "\<exists>w. conn_of s c = Some w \<and> wc_principal w = p" using d(2) by simp
  have only: "o' = pr_owner p" if "c \<in> set (owner_connections s o')" for o'
    using d(3) [OF that] d(2) c by fastforce
  have "wc_done w \<or> \<not> wc_once w \<and> d \<in> set (owner_connections ?s (pr_owner (wc_principal w)))" if "conn_of ?s d = Some w" for d w
  proof (cases "d = c")
    case True
    with that have "map_option connection_stop (conn_of s c) = Some w" unfolding conns by simp
    then obtain v where "conn_of s c = Some v" "w = connection_stop v" by auto
    with True show ?thesis using d(1) [of c v] by (auto simp: connection_stop_def)
  next
    case False
    then show ?thesis using that d(1) [of d w] by (auto simp: conns own)
  qed
  moreover have "\<exists>w. conn_of ?s d = Some w \<and> wc_principal w = q" if "(d, q) \<in> cps" for d q
  proof -
    obtain v where "conn_of s d = Some v" "wc_principal v = q" using d(2) [of d q] \<open>(d, q) \<in> cps\<close> by auto
    then show ?thesis by (cases "d = c") (auto simp: conns connection_stop_def)
  qed
  moreover have "\<exists>q. (d, q) \<in> cps \<and> pr_owner q = o'" if "d \<in> set (owner_connections ?s o')" for d o'
  proof -
    have "d \<in> set (owner_connections s o') \<and> d \<noteq> c" using that only by (auto simp: own split: if_split_asm)
    then show ?thesis using d(3) [of d o'] by auto
  qed
  ultimately show ?thesis unfolding conns_ok_def by blast
qed

lemma conns_ok_activated:
  assumes "conns_ok s cps" "activateConnection c p s = (s', True)" "conn_of s c = None"
  shows "conns_ok s' (insert (c, p) cps)"
proof -
  note d = conns_okD [OF assms(1)] and a = activated(1,2) [OF assms(2)]
  have "wc_done w \<or> \<not> wc_once w \<and> e \<in> set (owner_connections s' (pr_owner (wc_principal w)))" if "conn_of s' e = Some w" for e w
    using that d(1) [of e w] by (auto simp: a newWSConnection_def split: if_split_asm)
  moreover have "\<exists>w. conn_of s' e = Some w \<and> wc_principal w = q" if "(e, q) \<in> insert (c, p) cps" for e q
    using that d(2) [of e q] assms(3) by (auto simp: a newWSConnection_def)
  moreover have "\<exists>q. (e, q) \<in> insert (c, p) cps \<and> pr_owner q = o'" if "e \<in> set (owner_connections s' o')" for e o'
    using that d(3) [of e o'] by (auto simp: a split: if_split_asm)
  ultimately show ?thesis unfolding conns_ok_def by blast
qed

lemma step_conns:
  "sys_step sha x y \<Longrightarrow> conns_ok (sy_server x) (servings (sy_handlers x)) \<Longrightarrow> conns_ok (sy_server y) (servings (sy_handlers y))"
proof (induction rule: sys_step.induct)
  case (activate s c p s' hs n)
  then show ?case using conns_ok_activated by simp
next
  case (end_connection s c p hs n)
  then show ?case using conns_ok_removed by simp
next
  case (use_connection s c w w' hs n)
  then have "conns_age s (update_conn c (\<lambda>w. w') s)" by (intro conns_age_update) (simp add: section_ages)
  then show ?case using use_connection conns_ok_age by simp
next
  case (rotated hs s p n)
  then show ?case using conns_ok_age conns_age_closing(1) by simp
next
  case (revoked hs s o' n)
  then show ?case using conns_ok_age conns_age_closing(2) by simp
next
  case (stop_signal hs s)
  then show ?case using conns_ok_age conns_age_closing(3) by simp
next
  case (reserve p s s' hs n)
  have "conns_age s s'" by (rule conns_age_same) (rule conn_results(4) [OF reserve.hyps])
  moreover have "rv_connections s' = rv_connections s"
    using reserve.hyps by (auto simp: reserveConnection_def split: if_split_asm)
  ultimately show ?case using reserve conns_ok_age by simp
next
  case (give_up s p hs n)
  have "conns_age s (releaseConnectionReservation (pr_owner p) s)" by (rule conns_age_same) simp
  then show ?case using give_up conns_ok_age by (simp add: releaseConnectionReservation_def)
next
  case (activate_refused c p s s' hs n)
  have "conns_age s s'" by (rule conns_age_same) (rule conn_results(5) [OF activate_refused.hyps])
  moreover have "rv_connections s' = rv_connections s"
    using activate_refused.hyps
    by (auto simp: activateConnection_def releaseConnectionReservation_def Let_def split: if_split_asm)
  ultimately show ?case using activate_refused conns_ok_age by simp
qed (simp_all add: conns_ok_same counts_results conn_results insert_absorb)

subsection \<open>The counts in every reachable state\<close>

text \<open>What \<open>NewServer\<close> gives, with a registry that was opened.\<close>

definition fresh_server :: "(string \<Rightarrow> string) \<Rightarrow> remote_server \<Rightarrow> bool" where
  "fresh_server sha s \<longleftrightarrow> (\<exists>cfg. NewServer sha cfg = Inr s \<and> vc_factory cfg = None) \<and> registry_ok (rv_registry s)"

lemma limit_or_positive: "limit_or e n d = Inr x \<Longrightarrow> 0 < d \<Longrightarrow> 0 < x"
  by (auto simp: limit_or_def split: if_split_asm)

lemma fresh_server_fields:
  assumes "fresh_server sha s"
  shows "rv_connections s = []" "rv_pending s = []" "rv_pending_total s = 0" "rv_conns s = []" "rv_services s = []"
    "rv_closing s = False" "rv_factory s = None" "0 < rv_max_connections s" "0 < rv_max_per_client s" "0 < rv_max_targets s"
    "registry_ok (rv_registry s)" "rv_create_lock s = []" "rv_pre_auth s = []"
proof -
  obtain cfg where "NewServer sha cfg = Inr s" "vc_factory cfg = None" "registry_ok (rv_registry s)"
    using assms by (auto simp: fresh_server_def)
  moreover from this obtain r q mp mc mpc mt rate burst where
      s: "s = \<lparr>rv_registry = r, rv_token_digest = sha (vc_token cfg), rv_queue_bytes = q, rv_max_pre_auth = mp,
        rv_max_connections = mc, rv_max_per_client = mpc, rv_max_targets = mt, rv_closing = False,
        rv_auth = newKeyedRateLimiter rate burst, rv_register = newKeyedRateLimiter rate burst, rv_pre_auth = [],
        rv_factory = vc_factory cfg, rv_services = [], rv_create_lock = [], rv_locks = 0, rv_connections = [],
        rv_pending = [], rv_pending_total = 0, rv_conns = []\<rparr>"
      and l: "limit_or Bad_connection_limit (vc_max_connections cfg) 256 = Inr mc"
        "limit_or Bad_client_limit (vc_max_per_client cfg) 16 = Inr mpc"
        "limit_or Bad_target_limit (vc_max_targets cfg) 64 = Inr mt"
    unfolding NewServer_def by (auto simp only: bind_err_Inr_iff sum.inject split: if_split_asm option.split_asm)
  ultimately show "rv_connections s = []" "rv_pending s = []" "rv_pending_total s = 0" "rv_conns s = []" "rv_services s = []"
    "rv_closing s = False" "rv_factory s = None" "0 < rv_max_connections s" "0 < rv_max_per_client s" "0 < rv_max_targets s"
    "registry_ok (rv_registry s)" "rv_create_lock s = []" "rv_pre_auth s = []"
    using l [THEN limit_or_positive] by (simp_all add: s)
qed

lemma fresh_ok:
  assumes "fresh_server sha s"
  shows "limits_ok s {#}" "conns_ok s {}"
  using fresh_server_fields [OF assms]
  by (simp_all add: limits_ok_def owner_pending_def activeTotal_def owner_connections_def conns_ok_def conn_of_def)

lemma reachable_counts:
  assumes "sys_reachable sha s0 x" "fresh_server sha s0"
  shows "limits_ok (sy_server x) (sy_handlers x) \<and> conns_ok (sy_server x) (servings (sy_handlers x))"
  using assms(1)
proof (induction rule: sys_reachable.induct)
  case sys_start
  then show ?case using fresh_ok [OF assms(2)] by simp
next
  case (sys_next x y)
  then show ?case using step_limits step_conns by blast
qed

text \<open>The limits themselves never change.\<close>

definition params :: "remote_server \<Rightarrow> int \<times> int \<times> int \<times> (principal \<Rightarrow> service option) option" where
  "params s = (rv_max_connections s, rv_max_per_client s, rv_max_targets s, rv_factory s)"

lemma params_results:
  "createLockFor o' s = (s', l) \<Longrightarrow> params s' = params s" "serviceFor p b s = (s', x) \<Longrightarrow> params s' = params s"
  "admitPreAuthConnection c' s = (s', ok) \<Longrightarrow> params s' = params s"
  "reserveConnection o' s = (s', e) \<Longrightarrow> params s' = params s" "activateConnection c' q s = (s', b') \<Longrightarrow> params s' = params s"
  by (auto simp: params_def createLockFor_def serviceFor_def admitPreAuthConnection_def reserveConnection_def
      activateConnection_def releaseConnectionReservation_def Let_def split: if_split_asm option.split_asm)

lemma params_frame [simp]:
  "params (releaseConnectionReservation o' s) = params s" "params (ws_removeConnection c o' s) = params s"
  "params (update_conn c f s) = params s" "params (put_service o' v s) = params s" "params (s\<lparr>rv_registry := r\<rparr>) = params s"
  "params (releasePreAuthConnection c s) = params s" "params (shutdown_start s) = params s"
  "params (fst (closePreAuthConnections s)) = params s" "params (fst (shutdown_take_services s)) = params s"
  "params (shutdown_signal s) = params s" "params (close_rotated p s) = params s" "params (fst (close_revoked o' s)) = params s"
  by (simp_all add: params_def releaseConnectionReservation_def ws_removeConnection_def Let_def put_service_def
      releasePreAuthConnection_def shutdown_start_def closePreAuthConnections_def shutdown_take_services_def
      shutdown_signal_def close_rotated_def close_revoked_def closeOwnerConnections_def removeService_def)

lemma step_params: "sys_step sha x y \<Longrightarrow> params (sy_server y) = params (sy_server x)"
  by (induction rule: sys_step.induct) (simp_all add: params_results)

lemma reachable_params: "sys_reachable sha s0 x \<Longrightarrow> params (sy_server x) = params s0"
  by (induction rule: sys_reachable.induct) (simp_all add: step_params)

lemma no_owner_no_connection:
  assumes "distinct (map fst (rv_connections s))" "\<And>o'. owner_connections s o' = []"
  shows "activeTotal s = 0"
proof -
  have "cs = []" if "(o', cs) \<in> set (rv_connections s)" for o' cs
    using assms(2) [of o'] map_of_is_SomeI [OF assms(1) that] by (simp add: owner_connections_def)
  then show ?thesis unfolding activeTotal_def by (intro sum_list_nonneg_eq_0_iff [THEN iffD2]) auto
qed

subsection \<open>Properties\<close>

text \<open>C14: However the requests, connections and closings of the remote server interleave, the connections
that are established, together with the ones being upgraded, never exceed the limit of the server or the
limit of a client; the pending counters are exactly the handlers between reservation and activation; every
connection in the table has a handler that will remove it, so that when no handler is left both the table
and the counters are back at zero.\<close>

lemma connection_limits_hold:
  assumes "fresh_server sha s0" "sys_reachable sha s0 (Sys s hs n)"
  shows "activeTotal s + reservations hs \<le> rv_max_connections s0 \<and>
    (\<forall>o'. int (length (owner_connections s o')) + owner_reservations o' hs \<le> rv_max_per_client s0) \<and>
    rv_pending_total s = reservations hs \<and> (\<forall>o'. owner_pending s o' = owner_reservations o' hs) \<and>
    (\<forall>o' c. c \<in> set (owner_connections s o') \<longrightarrow> (\<exists>h\<in>#hs. \<exists>p. serving h = Some (c, p) \<and> pr_owner p = o')) \<and>
    (hs = {#} \<longrightarrow> connectionCount s = 0 \<and> rv_pending_total s = 0)"
proof -
  have l: "limits_ok s hs" and c: "conns_ok s (servings hs)" using reachable_counts [OF assms(2,1)] by simp_all
  have m: "rv_max_connections s = rv_max_connections s0" "rv_max_per_client s = rv_max_per_client s0"
    using reachable_params [OF assms(2)] by (simp_all add: params_def)
  have h: "\<exists>h\<in>#hs. \<exists>p. serving h = Some (e, p) \<and> pr_owner p = o'" if "e \<in> set (owner_connections s o')" for e o'
    using conns_okD(3) [OF c that] by (auto simp: servings_def)
  moreover have "connectionCount s = 0" if "hs = {#}"
  proof -
    have "owner_connections s o' = []" for o' using h [of "hd (owner_connections s o')" o'] that by (cases "owner_connections s o'") auto
    then show ?thesis using no_owner_no_connection l by (simp add: connectionCount_def limits_ok_def)
  qed
  ultimately show ?thesis using l m by (auto simp: limits_ok_def)
qed

subsection \<open>Witness\<close>

text \<open>A run in which the registered client connects.\<close>

lemma sample_server_eq:
  "\<exists>l. sample_server = \<lparr>rv_registry = box_registry, rv_token_digest = sample_sha ''secret'', rv_queue_bytes = 1048576,
     rv_max_pre_auth = 256, rv_max_connections = 256, rv_max_per_client = 16, rv_max_targets = 64, rv_closing = False,
     rv_auth = l, rv_register = l, rv_pre_auth = [], rv_factory = None, rv_services = [], rv_create_lock = [], rv_locks = 0,
     rv_connections = [], rv_pending = [], rv_pending_total = 0, rv_conns = []\<rparr>"
  by (simp add: sample_server_def NewServer_def sample_server_config_def limit_or_def rate_or_def defaultOutgoingQueueBytes_def)

lemma sample_server_fields: "rv_registry sample_server = box_registry" "rv_max_connections sample_server = 256"
  "rv_services sample_server = []" "rv_factory sample_server = None" "rv_max_targets sample_server = 64"
  "rv_create_lock sample_server = []" "\<not> rv_closing sample_server"
  by (simp_all add: sample_server_def NewServer_def sample_server_config_def limit_or_def rate_or_def defaultOutgoingQueueBytes_def)

lemma box_registry_ok: "registry_ok box_registry"
  using Register_change [OF _ sample_env_ok [of "CHR ''a''"]] opened_ok [OF open_sample] change_keeps register_box
  by (metis fst_conv)

lemma sample_server_fresh: "fresh_server sample_sha sample_server"
proof -
  have "NewServer sample_sha sample_server_config = Inr sample_server"
    by (simp add: sample_server_def NewServer_def sample_server_config_def limit_or_def rate_or_def defaultOutgoingQueueBytes_def)
  moreover have "vc_factory sample_server_config = None" by (simp add: sample_server_config_def)
  ultimately show ?thesis using box_registry_ok sample_server_fields by (auto simp: fresh_server_def)
qed

lemma box_authenticates:
  "Authenticate sample_sha box_registry ''box'' (b64_encode (replicate 32 CHR ''a'')) = Inr box_principal"
  by (simp add: Authenticate_def authenticateLocked_def client_of_def box_registry_def box_client_def valid_box
      credentialMatches_def digestString_def length_sample_sha empty_registry_def box_principal_def)

lemma connecting_run:
  "\<exists>s. sys_reachable sample_sha sample_server (Sys s {#H_running 0 box_principal#} 0) \<and>
     activateConnection 0 box_principal (fst (reserveConnection (pr_owner box_principal) sample_server)) = (s, True)"
proof -
  let ?p = box_principal
  obtain l where eq: "sample_server = \<lparr>rv_registry = box_registry, rv_token_digest = sample_sha ''secret'', rv_queue_bytes = 1048576,
     rv_max_pre_auth = 256, rv_max_connections = 256, rv_max_per_client = 16, rv_max_targets = 64, rv_closing = False,
     rv_auth = l, rv_register = l, rv_pre_auth = [], rv_factory = None, rv_services = [], rv_create_lock = [], rv_locks = 0,
     rv_connections = [], rv_pending = [], rv_pending_total = 0, rv_conns = []\<rparr>" using sample_server_eq by blast
  obtain s1 where s1: "reserveConnection (pr_owner ?p) sample_server = (s1, None)" "rv_registry s1 = box_registry"
    "rv_closing s1 = False" "conn_of s1 0 = None"
    by (simp add: reserveConnection_def eq activeTotal_def owner_connections_def owner_pending_def conn_of_def)
  obtain s2 where s2: "activateConnection 0 ?p s1 = (s2, True)"
    using s1(3) by (simp add: activateConnection_def Let_def releaseConnectionReservation_def)
  have "sys_step sample_sha (Sys sample_server {#} 0) (Sys s1 {#H_reserved ?p#} 0)" by (rule reserve) (rule s1)
  moreover have "sys_step sample_sha (Sys s1 {#H_reserved ?p#} 0) (Sys s1 {#H_checked ?p#} 0)"
    unfolding s1(2) [symmetric] by (rule recheck [OF box_authenticates [folded s1(2)]])
  moreover have "sys_step sample_sha (Sys s1 {#H_checked ?p#} 0) (Sys s2 {#H_running 0 ?p#} 0)"
    by (rule activate) (rule s1(4), rule s2)
  ultimately have "sys_reachable sample_sha sample_server (Sys s2 {#H_running 0 ?p#} 0)"
    by (meson sys_reachable.intros)
  then show ?thesis using s1 s2 by auto
qed

lemma connection_limits_hold_witness:
  "\<exists>s. sys_reachable sample_sha sample_server (Sys s {#H_running 0 box_principal#} 0) \<and> activeTotal s \<le> 256 \<and> rv_pending_total s = 0"
proof -
  obtain s where s: "sys_reachable sample_sha sample_server (Sys s {#H_running 0 box_principal#} 0)" using connecting_run by blast
  then show ?thesis using connection_limits_hold [OF sample_server_fresh s] sample_server_fields by auto
qed

end
