(* ===== verification/Remote_Credentials.thy ===== *)
theory Remote_Credentials
  imports Remote_Lifecycle
begin

section \<open>Credentials and shutdown over all interleavings\<close>

text \<open>
  The invariants that tie the open connections and the services of the remote server to its registry, while
  rotations and revocations are under way, and those that hold from each stage of \<open>Shutdown\<close> on.
\<close>

subsection \<open>What vouches for a client\<close>

definition rotations :: "handler multiset \<Rightarrow> principal set" where
  "rotations hs = {p. H_rotated p \<in># hs}"

definition revocations :: "handler multiset \<Rightarrow> string set" where
  "revocations hs = {o'. H_revoked o' \<in># hs}"

definition checks :: "handler multiset \<Rightarrow> principal set" where
  "checks hs = {p. H_checked p \<in># hs}"

definition revokings :: "handler multiset \<Rightarrow> (principal \<times> string \<times> string) set" where
  "revokings hs = {(p, name, pw). H_revoking p name pw \<in># hs}"

definition creators :: "handler multiset \<Rightarrow> principal set" where
  "creators hs = {p. \<exists>h\<in>#hs. creating h \<and> (\<exists>c. serving h = Some (c, p))}"

lemma pending_add [simp]:
  "rotations (add_mset h hs) = {p. h = H_rotated p} \<union> rotations hs" "rotations {#} = {}"
  "revocations (add_mset h hs) = {o'. h = H_revoked o'} \<union> revocations hs" "revocations {#} = {}"
  "checks (add_mset h hs) = {p. h = H_checked p} \<union> checks hs" "checks {#} = {}"
  "revokings (add_mset h hs) = (case h of H_revoking p name pw \<Rightarrow> insert (p, name, pw) (revokings hs) | _ \<Rightarrow> revokings hs)"
  "revokings {#} = {}"
  "creators (add_mset h hs) = {p. creating h \<and> (\<exists>c. serving h = Some (c, p))} \<union> creators hs" "creators {#} = {}"
  by (auto simp: rotations_def revocations_def checks_def revokings_def creators_def split: handler.split)

lemma no_reader_none: "no_reader hs \<Longrightarrow> checks hs = {} \<and> creators hs = {}"
  by (force simp: checks_def creators_def elim: creating.elims)

definition active_client :: "clients \<Rightarrow> string \<Rightarrow> 64 word \<Rightarrow> bool" where
  "active_client cs o' g \<longleftrightarrow>
     (\<exists>name c. map_of cs name = Some c \<and> sc_owner c = o' \<and> sc_status c = ClientActive \<and> sc_generation c = g)"

text \<open>A client is vouched for by its active record, or it is about to be thrown out; its credentials are good
when they are the current ones or about to be closed.\<close>

definition vouched :: "clients \<Rightarrow> string set \<Rightarrow> string \<Rightarrow> bool" where
  "vouched cs R o' \<longleftrightarrow> o' \<in> R \<or> (\<exists>g. active_client cs o' g)"

definition good :: "clients \<Rightarrow> principal set \<Rightarrow> string set \<Rightarrow> principal \<Rightarrow> bool" where
  "good cs Q R p \<longleftrightarrow> pr_owner p \<in> R \<or>
     (\<exists>g. active_client cs (pr_owner p) g \<and>
        (pr_generation p = g \<or> (\<exists>q\<in>Q. pr_owner q = pr_owner p \<and> pr_generation p < pr_generation q)))"

lemma good_vouched: "good cs Q R p \<Longrightarrow> vouched cs R (pr_owner p)"
  by (auto simp: good_def vouched_def)

subsection \<open>What the registry's calls do to them\<close>

lemma Authenticate_good:
  assumes "Authenticate sha r name pw = Inr p"
  shows "good (rg_clients r) Q R p"
    and "\<exists>c. map_of (rg_clients r) name = Some c \<and> sc_owner c = pr_owner p \<and> b64_decode (sc_digest c) = Some (sha pw)"
proof -
  have "authenticateLocked sha (rg_clients r) name pw = Inr p"
    using assms by (simp add: Authenticate_def split: if_split_asm)
  from authenticated [OF this] obtain c where c: "map_of (rg_clients r) name = Some c" "sc_status c = ClientActive"
    "p = principalFor c" "b64_decode (sc_digest c) = Some (sha pw)" by blast
  then show "good (rg_clients r) Q R p" by (auto simp: good_def active_client_def principalFor_def)
  show "\<exists>c. map_of (rg_clients r) name = Some c \<and> sc_owner c = pr_owner p \<and> b64_decode (sc_digest c) = Some (sha pw)"
    using c by (auto simp: principalFor_def)
qed

text \<open>Whoever is about to revoke with a password that its name authenticates with, revokes its own record.\<close>

definition revokings_ok :: "(string \<Rightarrow> string) \<Rightarrow> clients \<Rightarrow> (principal \<times> string \<times> string) set \<Rightarrow> bool" where
  "revokings_ok sha cs T \<longleftrightarrow> (\<forall>(p, name, pw)\<in>T. \<forall>c. map_of cs name = Some c \<longrightarrow>
     b64_decode (sc_digest c) = Some (sha pw) \<longrightarrow> sc_owner c = pr_owner p)"

lemma Register_cases:
  assumes "Register sha env name r = (r', out)"
  obtains (same) "rg_clients r' = rg_clients r"
    | (new) c bytes where "map_of (rg_clients r') name = Some c" "re_password env = Some bytes"
      "sc_digest c = digestString sha (b64_encode bytes)" "\<And>m. m \<noteq> name \<Longrightarrow> map_of (rg_clients r') m = map_of (rg_clients r) m"
      "\<And>d. map_of (rg_clients r) name = Some d \<Longrightarrow> sc_status d = ClientRevoked"
proof (cases "outcome_value out")
  case None
  then have "rg_clients r' = rg_clients r"
    using assms
    by (auto simp: Register_def Let_def split: if_split_asm option.split_asm dest!: persistAndPublish_outcomes)
  then show ?thesis by (rule same)
next
  case (Some x)
  obtain rec pw where x: "outcome_value out = Some (rec, pw)" using Some by (cases x) simp
  have "\<exists>bytes. re_password env = Some bytes \<and> pw = b64_encode bytes"
    using assms x
    by (auto simp: Register_def Let_def randomToken_def split: if_split_asm option.split_asm dest!: published)
  then show ?thesis using Register_effect [OF assms x] new by metis
qed

lemma Rotate_password:
  assumes "Rotate sha env name pw r = (r', out)" "outcome_value out = Some (new_pw, p)"
  shows "\<exists>bytes. re_password env = Some bytes \<and> new_pw = b64_encode bytes"
  using assms
  by (auto simp: Rotate_def Let_def randomToken_def split: if_split_asm option.split_asm sum.split_asm dest!: published)

lemma Revoke_owner:
  assumes "Revoke sha env name pw r = (r', out)" "outcome_value out = Some ()"
  shows "\<exists>c d. map_of (rg_clients r) name = Some c \<and> b64_decode (sc_digest c) = Some (sha pw) \<and>
    map_of (rg_clients r') name = Some d \<and> sc_digest d = sc_digest c \<and> sc_owner d = sc_owner c \<and>
    (\<forall>m. m \<noteq> name \<longrightarrow> map_of (rg_clients r') m = map_of (rg_clients r) m)"
  using assms by (auto simp: Revoke_def Let_def split: if_split_asm sum.split_asm dest!: published authenticated)

lemma active_client_other:
  assumes "active_client cs o' g" "\<And>m. m \<noteq> name \<Longrightarrow> map_of cs' m = map_of cs m"
    and "\<And>c. map_of cs name = Some c \<Longrightarrow> sc_status c = ClientActive \<Longrightarrow> sc_owner c = o' \<Longrightarrow> sc_generation c = g \<Longrightarrow> active_client cs' o' g'"
    and "g' = g"
  shows "active_client cs' o' g'"
  using assms unfolding active_client_def by metis

lemma Register_keeps:
  assumes "Register sha env name r = (r', out)" "good (rg_clients r) Q R p"
  shows "good (rg_clients r') Q R p"
  using assms(1)
proof (cases rule: Register_cases)
  case same
  then show ?thesis using assms(2) by simp
next
  case (new c bytes)
  have "active_client (rg_clients r') o' g" if "active_client (rg_clients r) o' g" for o' g
    using that new(4,5) unfolding active_client_def by (metis client_status.distinct(7))
  then show ?thesis using assms(2) by (auto simp: good_def)
qed

lemma Register_vouched:
  assumes "Register sha env name r = (r', out)" "vouched (rg_clients r) R o'"
  shows "vouched (rg_clients r') R o'"
  using assms(1)
proof (cases rule: Register_cases)
  case same
  then show ?thesis using assms(2) by simp
next
  case (new c bytes)
  have "active_client (rg_clients r') o' g" if "active_client (rg_clients r) o' g" for o' g
    using that new(4,5) unfolding active_client_def by (metis client_status.distinct(7))
  then show ?thesis using assms(2) by (auto simp: vouched_def)
qed

lemma Register_revokings:
  assumes "Register sha env name r = (r', out)" "revokings_ok sha (rg_clients r) T"
    and "\<And>p n pw bytes. (p, n, pw) \<in> T \<Longrightarrow> re_password env = Some bytes \<Longrightarrow> sha (b64_encode bytes) \<noteq> sha pw"
  shows "revokings_ok sha (rg_clients r') T"
  using assms(1)
proof (cases rule: Register_cases)
  case same
  then show ?thesis using assms(2) by simp
next
  case (new c bytes)
  show ?thesis
    unfolding revokings_ok_def
  proof (intro ballI, clarify)
    fix p n pw d
    assume t: "(p, n, pw) \<in> T" and d: "map_of (rg_clients r') n = Some d" "b64_decode (sc_digest d) = Some (sha pw)"
    have "n \<noteq> name" using new(1,3) d assms(3) [OF t new(2)] by (auto simp: digestString_def)
    then show "sc_owner d = pr_owner p" using new(4) d t assms(2) by (fastforce simp: revokings_ok_def)
  qed
qed

lemma rotated_active:
  assumes "Rotate sha env name pw r = (r', out)" "outcome_value out = Some (new_pw, q)" "env_ok sha env r"
    and "active_client (rg_clients r) o' g"
  shows "active_client (rg_clients r') o' g \<or> o' = pr_owner q \<and> g < pr_generation q \<and> active_client (rg_clients r') o' (pr_generation q)"
proof -
  from Rotate_effect [OF assms(1,2)] obtain c d where c: "map_of (rg_clients r) name = Some c"
    and d: "map_of (rg_clients r') name = Some d" "sc_status d = ClientActive" "sc_owner d = sc_owner c"
      "sc_generation d = sc_generation c + 1" "q = principalFor d"
    and other: "\<forall>m. m \<noteq> name \<longrightarrow> map_of (rg_clients r') m = map_of (rg_clients r) m" by blast
  obtain n x where x: "map_of (rg_clients r) n = Some x" "sc_owner x = o'" "sc_status x = ClientActive" "sc_generation x = g"
    using assms(4) by (auto simp: active_client_def)
  show ?thesis
  proof (cases "n = name")
    case True
    have "sc_generation c + 1 \<noteq> 0" using assms(3) lookup_snd [OF c] by (auto simp: env_ok_def)
    then have "unat (1 + sc_generation c) = Suc (unat (sc_generation c))" by (intro unatSuc) (simp add: add.commute)
    then have "sc_generation c < sc_generation c + 1" by (simp add: word_less_nat_alt add.commute)
    then show ?thesis using True x c d by (auto simp: active_client_def principalFor_def)
  next
    case False
    then have "active_client (rg_clients r') o' g"
      using x other unfolding active_client_def by (intro exI [of _ n] exI [of _ x]) simp
    then show ?thesis ..
  qed
qed

lemma Rotate_keeps:
  assumes "Rotate sha env name pw r = (r', out)" "outcome_value out = Some (new_pw, q)" "env_ok sha env r"
    and "good (rg_clients r) Q R p"
  shows "good (rg_clients r') (insert q Q) R p"
proof (cases "pr_owner p \<in> R")
  case False
  then obtain g where g: "active_client (rg_clients r) (pr_owner p) g"
    "pr_generation p = g \<or> (\<exists>q\<in>Q. pr_owner q = pr_owner p \<and> pr_generation p < pr_generation q)"
    using assms(4) by (auto simp: good_def)
  from rotated_active [OF assms(1-3) g(1)] g(2) show ?thesis by (auto simp: good_def)
qed (simp add: good_def)

lemma Rotate_vouched:
  assumes "Rotate sha env name pw r = (r', out)" "outcome_value out = Some (new_pw, q)" "env_ok sha env r"
    and "vouched (rg_clients r) R o'"
  shows "vouched (rg_clients r') R o'"
  using assms(4) rotated_active [OF assms(1-3)] unfolding vouched_def by metis

lemma Rotate_revokings:
  assumes "Rotate sha env name pw r = (r', out)" "outcome_value out = Some (new_pw, q)" "env_ok sha env r"
    and "revokings_ok sha (rg_clients r) T"
    and "\<And>p n pw bytes. (p, n, pw) \<in> T \<Longrightarrow> re_password env = Some bytes \<Longrightarrow> sha (b64_encode bytes) \<noteq> sha pw"
  shows "revokings_ok sha (rg_clients r') T"
  unfolding revokings_ok_def
proof (intro ballI, clarify)
  fix p n w d
  assume t: "(p, n, w) \<in> T" and d: "map_of (rg_clients r') n = Some d" "b64_decode (sc_digest d) = Some (sha w)"
  obtain bytes where b: "re_password env = Some bytes" "new_pw = b64_encode bytes"
    using Rotate_password [OF assms(1,2)] by blast
  note eff = Rotate_effect [OF assms(1,2)]
  have "n \<noteq> name" using eff d assms(5) [OF t b(1)] b(2) by (auto simp: digestString_def)
  then show "sc_owner d = pr_owner p" using eff d t assms(4) by (fastforce simp: revokings_ok_def)
qed

lemma revoked_active:
  assumes "Revoke sha env name pw r = (r', out)" "outcome_value out = Some ()" "revokings_ok sha (rg_clients r) T" "(p, name, pw) \<in> T"
    and "active_client (rg_clients r) o' g"
  shows "o' = pr_owner p \<or> active_client (rg_clients r') o' g"
proof -
  from Revoke_owner [OF assms(1,2)] obtain c where c: "map_of (rg_clients r) name = Some c" "b64_decode (sc_digest c) = Some (sha pw)"
    and other: "\<forall>m. m \<noteq> name \<longrightarrow> map_of (rg_clients r') m = map_of (rg_clients r) m" by blast
  have "sc_owner c = pr_owner p" using assms(3,4) c by (auto simp: revokings_ok_def)
  moreover obtain n x where x: "map_of (rg_clients r) n = Some x" "sc_owner x = o'" "sc_status x = ClientActive" "sc_generation x = g"
    using assms(5) by (auto simp: active_client_def)
  moreover have "active_client (rg_clients r') o' g" if "n \<noteq> name"
    using x other that unfolding active_client_def by (intro exI [of _ n] exI [of _ x]) simp
  ultimately show ?thesis using c(1) by (cases "n = name") auto
qed

lemma Revoke_keeps:
  assumes "Revoke sha env name pw r = (r', out)" "outcome_value out = Some ()" "revokings_ok sha (rg_clients r) T" "(q, name, pw) \<in> T"
  shows "good (rg_clients r) Q R p \<Longrightarrow> good (rg_clients r') Q (insert (pr_owner q) R) p"
    and "vouched (rg_clients r) R o' \<Longrightarrow> vouched (rg_clients r') (insert (pr_owner q) R) o'"
proof -
  show "good (rg_clients r) Q R p \<Longrightarrow> good (rg_clients r') Q (insert (pr_owner q) R) p"
    using revoked_active [OF assms] unfolding good_def by auto
  show "vouched (rg_clients r) R o' \<Longrightarrow> vouched (rg_clients r') (insert (pr_owner q) R) o'"
    using revoked_active [OF assms] unfolding vouched_def by (metis insert_iff)
qed

lemma Revoke_revokings:
  assumes "Revoke sha env name pw r = (r', out)" "outcome_value out = Some ()" "revokings_ok sha (rg_clients r) T"
  shows "revokings_ok sha (rg_clients r') T"
  unfolding revokings_ok_def
proof (intro ballI, clarify)
  fix p n w d
  assume t: "(p, n, w) \<in> T" and d: "map_of (rg_clients r') n = Some d" "b64_decode (sc_digest d) = Some (sha w)"
  from Revoke_owner [OF assms(1,2)] obtain c x where eff: "map_of (rg_clients r) name = Some c" "map_of (rg_clients r') name = Some x"
    "sc_digest x = sc_digest c" "sc_owner x = sc_owner c" "\<forall>m. m \<noteq> name \<longrightarrow> map_of (rg_clients r') m = map_of (rg_clients r) m" by blast
  show "sc_owner d = pr_owner p"
  proof (cases "n = name")
    case True
    then show ?thesis using eff d t assms(3) by (fastforce simp: revokings_ok_def)
  next
    case False
    then show ?thesis using eff d t assms(3) by (fastforce simp: revokings_ok_def)
  qed
qed

lemma good_mono: "good cs Q R p \<Longrightarrow> Q \<subseteq> Q' \<Longrightarrow> R \<subseteq> R' \<Longrightarrow> good cs Q' R' p"
  unfolding good_def by blast

lemma vouched_mono: "vouched cs R o' \<Longrightarrow> R \<subseteq> R' \<Longrightarrow> vouched cs R' o'"
  unfolding vouched_def by blast

subsection \<open>The invariant\<close>

definition cred_ok :: "(string \<Rightarrow> string) \<Rightarrow> remote_server \<Rightarrow> handler multiset \<Rightarrow> bool" where
  "cred_ok sha s hs \<longleftrightarrow>
     (let cs = rg_clients (rv_registry s); Q = rotations hs; R = revocations hs in
      registry_ok (rv_registry s) \<and> revokings_ok sha cs (revokings hs) \<and>
      (\<forall>c w. conn_of s c = Some w \<longrightarrow> \<not> wc_done w \<longrightarrow> good cs Q R (wc_principal w)) \<and>
      (\<forall>p\<in>checks hs. good cs Q R p) \<and> (\<forall>p\<in>creators hs. vouched cs R (pr_owner p)) \<and>
      (\<forall>o'. map_of (rv_services s) o' \<noteq> None \<longrightarrow> vouched cs R o'))"

text \<open>A step that leaves the registry alone, opens no connection, starts no service and adds no handler that
needs to be vouched for keeps the invariant.\<close>

lemma cred_quiet:
  assumes "cred_ok sha s hs" "rv_registry s' = rv_registry s" "conns_age s s'"
    and "dom (map_of (rv_services s')) \<subseteq> dom (map_of (rv_services s))"
    and "rotations hs' = rotations hs" "revocations hs' = revocations hs" "revokings hs' \<subseteq> revokings hs"
    and "checks hs' \<subseteq> checks hs" "creators hs' \<subseteq> creators hs"
  shows "cred_ok sha s' hs'"
proof -
  have "good (rg_clients (rv_registry s)) (rotations hs) (revocations hs) (wc_principal w')"
    if "conn_of s' c = Some w'" "\<not> wc_done w'" for c w'
    using conns_age_old [OF assms(3) that(1)] that(2) assms(1) by (auto simp: ages_def cred_ok_def Let_def)
  then show ?thesis
    using assms unfolding cred_ok_def Let_def revokings_ok_def by (simp add: assms(2,5,6)) blast
qed

lemma cred_okD:
  assumes "cred_ok sha s hs"
  shows "registry_ok (rv_registry s)" "revokings_ok sha (rg_clients (rv_registry s)) (revokings hs)"
    and "conn_of s c = Some w \<Longrightarrow> wc_done w \<or> good (rg_clients (rv_registry s)) (rotations hs) (revocations hs) (wc_principal w)"
    and "p \<in> checks hs \<Longrightarrow> good (rg_clients (rv_registry s)) (rotations hs) (revocations hs) p"
    and "p \<in> creators hs \<Longrightarrow> vouched (rg_clients (rv_registry s)) (revocations hs) (pr_owner p)"
    and "map_of (rv_services s) o' = Some v \<Longrightarrow> vouched (rg_clients (rv_registry s)) (revocations hs) o'"
  using assms by (auto simp: cred_ok_def Let_def)

lemma cred_okI:
  assumes "registry_ok (rv_registry s)" "revokings_ok sha (rg_clients (rv_registry s)) (revokings hs)"
    and "\<And>c w. conn_of s c = Some w \<Longrightarrow> \<not> wc_done w \<Longrightarrow>
      good (rg_clients (rv_registry s)) (rotations hs) (revocations hs) (wc_principal w)"
    and "\<And>p. p \<in> checks hs \<Longrightarrow> good (rg_clients (rv_registry s)) (rotations hs) (revocations hs) p"
    and "\<And>p. p \<in> creators hs \<Longrightarrow> vouched (rg_clients (rv_registry s)) (revocations hs) (pr_owner p)"
    and "\<And>o' v. map_of (rv_services s) o' = Some v \<Longrightarrow> vouched (rg_clients (rv_registry s)) (revocations hs) o'"
  shows "cred_ok sha s hs"
  using assms by (auto simp: cred_ok_def Let_def)

text \<open>A call of the registry that keeps what is good and vouched for.\<close>

lemma cred_registry:
  assumes "cred_ok sha s hs" "registry_ok r" "revokings_ok sha (rg_clients r) (revokings hs')"
    and "\<And>p. good (rg_clients (rv_registry s)) (rotations hs) (revocations hs) p \<Longrightarrow> good (rg_clients r) (rotations hs') (revocations hs') p"
    and "\<And>o'. vouched (rg_clients (rv_registry s)) (revocations hs) o' \<Longrightarrow> vouched (rg_clients r) (revocations hs') o'"
    and "checks hs' = checks hs" "creators hs' = creators hs"
  shows "cred_ok sha (s\<lparr>rv_registry := r\<rparr>) hs'"
proof (rule cred_okI)
  fix c w
  assume "conn_of (s\<lparr>rv_registry := r\<rparr>) c = Some w" "\<not> wc_done w"
  then have "good (rg_clients (rv_registry s)) (rotations hs) (revocations hs) (wc_principal w)"
    using cred_okD(3) [OF assms(1)] by auto
  then show "good (rg_clients (rv_registry (s\<lparr>rv_registry := r\<rparr>))) (rotations hs') (revocations hs') (wc_principal w)"
    using assms(4) by simp
qed (use assms(2,3) assms(4) [OF cred_okD(4) [OF assms(1)]] assms(5) [OF cred_okD(5) [OF assms(1)]]
    assms(5) [OF cred_okD(6) [OF assms(1)]] in \<open>auto simp: assms(6,7)\<close>)

lemma step_register:
  assumes "cred_ok sha s hs" "env_ok sha env (rv_registry s)" "fresh_password sha env hs"
    and "Register sha env name (rv_registry s) = (r, out)"
  shows "cred_ok sha (s\<lparr>rv_registry := r\<rparr>) hs"
proof (rule cred_registry [OF assms(1)])
  show "registry_ok r"
    using change_keeps [OF Register_change [OF cred_okD(1) [OF assms(1)] assms(2)] cred_okD(1) [OF assms(1)]] assms(4)
    by (metis fst_conv)
  show "revokings_ok sha (rg_clients r) (revokings hs)"
    using assms(3) by (intro Register_revokings [OF assms(4) cred_okD(2) [OF assms(1)]])
      (auto simp: fresh_password_def revokings_def)
qed (use Register_keeps [OF assms(4)] Register_vouched [OF assms(4)] in auto)

lemma step_rotate:
  assumes "cred_ok sha s hs" "env_ok sha env (rv_registry s)" "fresh_password sha env hs"
    and "Rotate sha env name pw (rv_registry s) = (r, out)" "outcome_value out = Some (new_pw, p)"
  shows "cred_ok sha (s\<lparr>rv_registry := r\<rparr>) (add_mset (H_rotated p) hs)"
proof (rule cred_registry [OF assms(1)])
  show "registry_ok r"
    using change_keeps [OF Rotate_change [OF cred_okD(1) [OF assms(1)] assms(2)] cred_okD(1) [OF assms(1)]] assms(4)
    by (metis fst_conv)
  show "revokings_ok sha (rg_clients r) (revokings (add_mset (H_rotated p) hs))"
    using assms(3) Rotate_revokings [OF assms(4,5,2) cred_okD(2) [OF assms(1)]]
    by (auto simp: fresh_password_def revokings_def)
qed (use Rotate_keeps [OF assms(4,5,2)] Rotate_vouched [OF assms(4,5,2)] in auto)

lemma step_revoke:
  assumes "cred_ok sha s (add_mset (H_revoking p name pw) hs)" "env_ok sha env (rv_registry s)"
    and "Revoke sha env name pw (rv_registry s) = (r, out)" "outcome_value out = Some ()"
  shows "cred_ok sha (s\<lparr>rv_registry := r\<rparr>) (add_mset (H_revoked (pr_owner p)) hs)"
proof (rule cred_registry [OF assms(1)])
  note T = cred_okD(2) [OF assms(1)]
  have t: "(p, name, pw) \<in> revokings (add_mset (H_revoking p name pw) hs)" by simp
  show "registry_ok r"
    using change_keeps [OF Revoke_change [OF cred_okD(1) [OF assms(1)] assms(2)] cred_okD(1) [OF assms(1)]] assms(3)
    by (metis fst_conv)
  show "revokings_ok sha (rg_clients r) (revokings (add_mset (H_revoked (pr_owner p)) hs))"
    using Revoke_revokings [OF assms(3,4) T] by (simp add: revokings_ok_def)
  show "good (rg_clients r) (rotations (add_mset (H_revoked (pr_owner p)) hs)) (revocations (add_mset (H_revoked (pr_owner p)) hs)) q"
    if "good (rg_clients (rv_registry s)) (rotations (add_mset (H_revoking p name pw) hs))
      (revocations (add_mset (H_revoking p name pw) hs)) q" for q
    using Revoke_keeps(1) [OF assms(3,4) T t] that by simp
  show "vouched (rg_clients r) (revocations (add_mset (H_revoked (pr_owner p)) hs)) o'"
    if "vouched (rg_clients (rv_registry s)) (revocations (add_mset (H_revoking p name pw) hs)) o'" for o'
    using Revoke_keeps(2) [OF assms(3,4) T t] that by simp
qed simp_all

text \<open>Closing what was rotated or revoked.\<close>

lemma open_after_close:
  assumes "conn_of (close_all code reason cs s) c = Some w'" "\<not> wc_done w'" "conns_ok s cps"
  shows "conn_of s c = Some w' \<and> c \<notin> set cs \<and> c \<in> set (owner_connections s (pr_owner (wc_principal w')))"
proof (cases "c \<in> set cs")
  case True
  then obtain w where w: "conn_of s c = Some w" "w' = signalClose w code reason" using assms(1) by (auto simp: conn_of_close_all)
  then have "wc_done w'" using conns_okD(1) [OF assms(3) w(1)] by (auto simp: signalClose_def)
  then show ?thesis using assms(2) by simp
next
  case False
  then show ?thesis using assms conns_okD(1) [OF assms(3), of c w'] by (simp add: conn_of_close_all)
qed

lemma step_rotated:
  assumes "cred_ok sha s (add_mset (H_rotated q) hs)" "no_reader hs" "conns_ok s cps"
  shows "cred_ok sha (close_rotated q s) hs"
proof (rule cred_okI)
  note c = cred_okD [OF assms(1)] and none = no_reader_none [OF assms(2)]
  fix e w
  assume w: "conn_of (close_rotated q s) e = Some w" "\<not> wc_done w"
  have o: "conn_of s e = Some w" "pr_owner (wc_principal w) = pr_owner q \<longrightarrow> \<not> pr_generation (wc_principal w) < pr_generation q"
    using open_after_close [OF w(1) [unfolded close_rotated_def closeOwnerConnections_def] w(2) assms(3)] by auto
  show "good (rg_clients (rv_registry (close_rotated q s))) (rotations hs) (revocations hs) (wc_principal w)"
    using c(3) [OF o(1)] o(2) w(2) by (auto simp: good_def)
qed (use cred_okD [OF assms(1)] no_reader_none [OF assms(2)] in auto)

lemma step_revoked:
  assumes "cred_ok sha s (add_mset (H_revoked o') hs)" "no_reader hs" "conns_ok s cps"
  shows "cred_ok sha (fst (close_revoked o' s)) hs"
proof (rule cred_okI)
  note c = cred_okD [OF assms(1)] and none = no_reader_none [OF assms(2)]
  have conn: "conn_of (fst (close_revoked o' s)) e = conn_of (closeOwnerConnections o' (\<lambda>w. True) ''client_revoked'' s) e" for e
    by (simp add: close_revoked_def removeService_def conn_of_def)
  fix e w
  assume w: "conn_of (fst (close_revoked o' s)) e = Some w" "\<not> wc_done w"
  have o: "conn_of s e = Some w" "pr_owner (wc_principal w) \<noteq> o'"
    using open_after_close [OF w(1) [unfolded conn closeOwnerConnections_def] w(2) assms(3)] by auto
  show "good (rg_clients (rv_registry (fst (close_revoked o' s)))) (rotations hs) (revocations hs) (wc_principal w)"
    using c(3) [OF o(1)] o(2) w(2) by (auto simp: good_def)
next
  fix o'' v
  assume "map_of (rv_services (fst (close_revoked o' s))) o'' = Some v"
  then show "vouched (rg_clients (rv_registry (fst (close_revoked o' s)))) (revocations hs) o''"
    using cred_okD(6) [OF assms(1), of o'' v] by (auto simp: delete_conv' vouched_def split: if_split_asm)
qed (use cred_okD [OF assms(1)] no_reader_none [OF assms(2)] in \<open>auto simp: revokings_ok_def\<close>)

lemma registry_results:
  "createLockFor o' s = (s', l) \<Longrightarrow> rv_registry s' = rv_registry s \<and> rv_services s' = rv_services s"
  "serviceFor p b s = (s', x) \<Longrightarrow> rv_registry s' = rv_registry s"
  "admitPreAuthConnection c' s = (s', ok) \<Longrightarrow> rv_registry s' = rv_registry s \<and> rv_services s' = rv_services s"
  "reserveConnection o' s = (s', e) \<Longrightarrow> rv_registry s' = rv_registry s \<and> rv_services s' = rv_services s"
  "activateConnection c' q s = (s', b') \<Longrightarrow> rv_registry s' = rv_registry s \<and> rv_services s' = rv_services s"
  by (auto simp: createLockFor_def serviceFor_def admitPreAuthConnection_def reserveConnection_def
      activateConnection_def releaseConnectionReservation_def Let_def split: if_split_asm option.split_asm)

lemma registry_frame [simp]:
  "rv_registry (releaseConnectionReservation o' s) = rv_registry s" "rv_services (releaseConnectionReservation o' s) = rv_services s"
  "rv_registry (ws_removeConnection c o' s) = rv_registry s" "rv_services (ws_removeConnection c o' s) = rv_services s"
  "rv_registry (put_service o' v s) = rv_registry s" "rv_registry (releasePreAuthConnection c s) = rv_registry s"
  "rv_services (releasePreAuthConnection c s) = rv_services s" "rv_registry (shutdown_start s) = rv_registry s"
  "rv_services (shutdown_start s) = rv_services s" "rv_registry (fst (closePreAuthConnections s)) = rv_registry s"
  "rv_services (fst (closePreAuthConnections s)) = rv_services s" "rv_registry (fst (shutdown_take_services s)) = rv_registry s"
  "rv_services (fst (shutdown_take_services s)) = []"
  by (simp_all add: releaseConnectionReservation_def ws_removeConnection_def Let_def put_service_def releasePreAuthConnection_def
      shutdown_start_def closePreAuthConnections_def shutdown_take_services_def)

lemma map_of_put_service [simp]: "map_of (rv_services (put_service o' v s)) = (map_of (rv_services s))(o' \<mapsto> v)"
  by (simp add: put_service_def update_conv')

lemma serviceFor_services:
  "serviceFor p b s = (s', x) \<Longrightarrow> map_of (rv_services s') o' = Some v \<Longrightarrow> o' = pr_owner p \<or> map_of (rv_services s) o' = Some v"
  by (auto simp: serviceFor_def update_conv' split: if_split_asm option.split_asm)

lemma step_activated:
  assumes "cred_ok sha s (add_mset (H_checked p) hs)" "activateConnection c p s = (s', True)"
  shows "cred_ok sha s' (add_mset (H_running c p) hs)"
proof (rule cred_okI)
  note d = cred_okD [OF assms(1)] and a = activated [OF assms(2)]
  fix e w
  assume "conn_of s' e = Some w" "\<not> wc_done w"
  then show "good (rg_clients (rv_registry s')) (rotations (add_mset (H_running c p) hs))
      (revocations (add_mset (H_running c p) hs)) (wc_principal w)"
    using d(3) [of e w] d(4) [of p] by (auto simp: a newWSConnection_def split: if_split_asm)
qed (use cred_okD [OF assms(1)] activated [OF assms(2)] in auto)

lemma step_admitted:
  assumes "cred_ok sha s (add_mset (H_running c p) hs)" "\<not> conn_done s c" "conns_ok s (servings (add_mset (H_running c p) hs))"
  shows "cred_ok sha s (add_mset (H_admitted c p k) hs)"
proof -
  obtain w where "conn_of s c = Some w" "wc_principal w = p" using conns_okD(2) [OF assms(3)] by auto
  then have "vouched (rg_clients (rv_registry s)) (revocations hs) (pr_owner p)"
    using cred_okD(3) [OF assms(1), of c w] assms(2) good_vouched by (auto simp: conn_done_def)
  then show ?thesis using cred_okD [OF assms(1)] by (intro cred_okI) auto
qed

lemma step_cred:
  "sys_step sha x y \<Longrightarrow> conns_ok (sy_server x) (servings (sy_handlers x)) \<Longrightarrow> cred_ok sha (sy_server x) (sy_handlers x) \<Longrightarrow>
   cred_ok sha (sy_server y) (sy_handlers y)"
proof (induction rule: sys_step.induct)
  case (recheck s name pw p hs n)
  then show ?case
    using cred_okD [OF recheck.prems(2)] Authenticate_good(1) [OF recheck.hyps] by (intro cred_okI) auto
next
  case (activate s c p s' hs n)
  then show ?case using step_activated by simp
next
  case (admit_create s c p hs n k)
  then show ?case using step_admitted by simp
next
  case (find_service p s s' v c k l hs n)
  note d = cred_okD [OF find_service.prems(2)]
  have "vouched (rg_clients (rv_registry s)) (revocations hs) o'" if "map_of (rv_services s') o' = Some v" for o' v
    using serviceFor_services [OF find_service.hyps that] d(5) [of p] d(6) [of o' v] by auto
  then show ?case
    using d registry_results(2) [OF find_service.hyps] conn_results(2) [OF find_service.hyps] by (intro cred_okI) auto
next
  case (no_service p s s' c k l hs n)
  have "dom (map_of (rv_services s')) \<subseteq> dom (map_of (rv_services s))"
    using no_service.hyps by (auto simp: serviceFor_def split: if_split_asm option.split_asm)
  then show ?case
    using no_service.prems(2) registry_results(2) [OF no_service.hyps] conn_results(2) [OF no_service.hyps]
    by (intro cred_quiet [OF no_service.prems(2)]) (auto intro: conns_age_same)
next
  case (register env s hs name r out n)
  then show ?case using step_register by simp
next
  case (rotate env s hs name pw r out new_pw p n)
  then show ?case using step_rotate by simp
next
  case (rotated hs s p n)
  then show ?case using step_rotated by simp
next
  case (begin_revoke s name pw p hs n)
  note d = cred_okD [OF begin_revoke.prems(2)]
  have "revokings_ok sha (rg_clients (rv_registry s)) (insert (p, name, pw) (revokings hs))"
    using d(2) Authenticate_good(2) [OF begin_revoke.hyps] by (auto simp: revokings_ok_def)
  then show ?case using d by (intro cred_okI) auto
next
  case (revoke env s name pw r out p hs n)
  then show ?case using step_revoke by simp
next
  case (revoked hs s o' n)
  then show ?case using step_revoked by simp
next
  case (close_registry s hs n a b)
  have "rg_clients (fst (Registry_Close a b (rv_registry s))) = rg_clients (rv_registry s)"
    "registry_ok (fst (Registry_Close a b (rv_registry s))) = registry_ok (rv_registry s)"
    by (simp_all add: Registry_Close_def registry_ok_def)
  then show ?case using cred_registry [OF close_registry.prems(2)] cred_okD [OF close_registry.prems(2)] by simp
next
  case (use_connection s c w w' hs n)
  then have "conns_age s (update_conn c (\<lambda>w. w') s)" by (intro conns_age_update) (simp add: section_ages)
  then show ?case using use_connection.prems by (intro cred_quiet [OF use_connection.prems(2)]) auto
next
  case (end_connection s c p hs n)
  have "conns_age s (update_conn c connection_stop s)"
    by (intro conns_age_update section_ages) (rule conn_section.intros)
  then have "conns_age s (ws_removeConnection c (pr_owner p) (update_conn c connection_stop s))"
    by (simp add: conns_age_def)
  then show ?case by (intro cred_quiet [OF end_connection.prems(2)]) auto
next
  case (stop_signal hs s)
  then show ?case by (intro cred_quiet [OF stop_signal.prems(2)])
      (auto simp: conns_age_closing)
qed (rule cred_quiet, assumption, (auto simp: registry_results conn_results intro!: conns_age_same)[8])+

subsection \<open>The stages of the shutdown\<close>

definition stop_ok :: "remote_server \<Rightarrow> handler multiset \<Rightarrow> nat \<Rightarrow> bool" where
  "stop_ok s hs n \<longleftrightarrow> (rv_closing s \<longleftrightarrow> 0 < n) \<and> (2 \<le> n \<longrightarrow> rv_pre_auth s = []) \<and>
     (3 \<le> n \<longrightarrow> creators hs = {} \<and> (\<forall>c w. conn_of s c = Some w \<longrightarrow> wc_done w)) \<and> (4 \<le> n \<longrightarrow> rv_services s = [])"

lemma stop_frame [simp]:
  "rv_closing (releaseConnectionReservation o' s) = rv_closing s" "rv_pre_auth (releaseConnectionReservation o' s) = rv_pre_auth s"
  "rv_closing (ws_removeConnection c o' s) = rv_closing s" "rv_pre_auth (ws_removeConnection c o' s) = rv_pre_auth s"
  "rv_closing (put_service o' v s) = rv_closing s" "rv_pre_auth (put_service o' v s) = rv_pre_auth s"
  "rv_closing (releasePreAuthConnection c s) = rv_closing s"
  "rv_pre_auth (releasePreAuthConnection c s) = removeAll c (rv_pre_auth s)" "rv_closing (shutdown_start s)"
  "rv_pre_auth (shutdown_start s) = rv_pre_auth s" "rv_closing (fst (closePreAuthConnections s)) = rv_closing s"
  "rv_pre_auth (fst (closePreAuthConnections s)) = []" "rv_closing (fst (shutdown_take_services s)) = rv_closing s"
  "rv_pre_auth (fst (shutdown_take_services s)) = rv_pre_auth s"
  by (simp_all add: releaseConnectionReservation_def ws_removeConnection_def Let_def put_service_def releasePreAuthConnection_def
      shutdown_start_def closePreAuthConnections_def shutdown_take_services_def)

lemma stop_results:
  "createLockFor o' s = (s', l) \<Longrightarrow> rv_closing s' = rv_closing s \<and> rv_pre_auth s' = rv_pre_auth s"
  "serviceFor p b s = (s', x) \<Longrightarrow> rv_closing s' = rv_closing s \<and> rv_pre_auth s' = rv_pre_auth s"
  "reserveConnection o' s = (s', e) \<Longrightarrow> rv_closing s' = rv_closing s \<and> rv_pre_auth s' = rv_pre_auth s"
  "activateConnection c' q s = (s', b') \<Longrightarrow> rv_closing s' = rv_closing s \<and> rv_pre_auth s' = rv_pre_auth s"
  "admitPreAuthConnection c' s = (s', True) \<Longrightarrow> \<not> rv_closing s \<and> rv_closing s' = rv_closing s"
  by (auto simp: createLockFor_def serviceFor_def reserveConnection_def admitPreAuthConnection_def
      activateConnection_def releaseConnectionReservation_def Let_def split: if_split_asm option.split_asm)

lemma stop_quiet:
  assumes "stop_ok s hs n" "rv_closing s' = rv_closing s" "rv_pre_auth s = [] \<longrightarrow> rv_pre_auth s' = []"
    and "conns_age s s'" "rv_services s = [] \<longrightarrow> rv_services s' = []" "creators hs = {} \<longrightarrow> creators hs' = {}"
  shows "stop_ok s' hs' n"
proof -
  have "wc_done w'" if "\<forall>c w. conn_of s c = Some w \<longrightarrow> wc_done w" "conn_of s' c = Some w'" for c w'
    using that conns_age_old [OF assms(4) that(2)] by (auto simp: ages_def)
  then show ?thesis using assms unfolding stop_ok_def by auto
qed

lemma all_connections_owner: "c \<in> set (owner_connections s o') \<Longrightarrow> c \<in> set (all_connections s)"
  using map_of_SomeD by (force simp: owner_connections_def all_connections_def split: option.split_asm)

lemma step_stop_signal:
  assumes "stop_ok s hs 2" "no_reader hs" "conns_ok s cps"
  shows "stop_ok (shutdown_signal s) hs 3"
proof -
  have "wc_done w" if "conn_of (shutdown_signal s) c = Some w" for c w
    using open_after_close [OF that [unfolded shutdown_signal_def] _ assms(3)] all_connections_owner by auto
  then show ?thesis using assms(1) no_reader_none [OF assms(2)] by (simp add: stop_ok_def)
qed

lemma step_stop:
  "sys_step sha x y \<Longrightarrow> conns_ok (sy_server x) (servings (sy_handlers x)) \<Longrightarrow>
   stop_ok (sy_server x) (sy_handlers x) (sy_shutdown x) \<Longrightarrow> stop_ok (sy_server y) (sy_handlers y) (sy_shutdown y)"
proof (induction rule: sys_step.induct)
  case (activate s c p s' hs n)
  then show ?case using activated [OF activate.hyps(2)] by (simp add: stop_ok_def)
next
  case (admit_create s c p hs n k)
  then show ?case by (simp add: stop_ok_def)
next
  case (stop_start s hs)
  then show ?case by (simp add: stop_ok_def)
next
  case (stop_pre_auth s hs)
  then show ?case by (simp add: stop_ok_def)
next
  case (stop_signal hs s)
  then show ?case using step_stop_signal by simp
next
  case (stop_services s hs)
  then show ?case by (simp add: stop_ok_def)
next
  case (use_connection s c w w' hs n)
  then have "conns_age s (update_conn c (\<lambda>w. w') s)" by (intro conns_age_update) (simp add: section_ages)
  then show ?case by simp (rule stop_quiet [OF use_connection.prems(2) [simplified]], auto)
next
  case (end_connection s c p hs n)
  have "conns_age s (update_conn c connection_stop s)"
    by (intro conns_age_update section_ages) (rule conn_section.intros)
  then have "conns_age s (ws_removeConnection c (pr_owner p) (update_conn c connection_stop s))"
    by (simp add: conns_age_def)
  then show ?case by simp (rule stop_quiet [OF end_connection.prems(2) [simplified]], auto)
next
  case (rotated hs s p n)
  then show ?case by simp (rule stop_quiet [OF rotated.prems(2) [simplified]], auto simp: conns_age_closing)
next
  case (revoked hs s o' n)
  then show ?case by simp (rule stop_quiet [OF revoked.prems(2) [simplified]], auto simp: conns_age_closing)
next
  case (find_service p s s' v c k l hs n)
  then show ?case
    using stop_results(2) [OF find_service.hyps] by (auto simp: stop_ok_def)
next
  case (no_service p s s' c k l hs n)
  then show ?case
    using stop_results(2) [OF no_service.hyps] by (auto simp: stop_ok_def)
next
  case (pre_admit c s s' hs n)
  then show ?case using stop_results(5) [OF pre_admit.hyps] by (simp add: stop_ok_def)
qed (simp, rule stop_quiet, assumption, (auto simp: stop_results registry_results conn_results intro!: conns_age_same)[5])+

subsection \<open>Properties\<close>

lemma fresh_cred:
  assumes "fresh_server sha s"
  shows "cred_ok sha s {#}" "stop_ok s {#} 0"
  using fresh_server_fields [OF assms] by (simp_all add: cred_ok_def revokings_ok_def conn_of_def stop_ok_def)

lemma reachable_cred:
  assumes "sys_reachable sha s0 x" "fresh_server sha s0"
  shows "conns_ok (sy_server x) (servings (sy_handlers x)) \<and> cred_ok sha (sy_server x) (sy_handlers x) \<and>
    stop_ok (sy_server x) (sy_handlers x) (sy_shutdown x)"
  using assms(1)
proof (induction rule: sys_reachable.induct)
  case sys_start
  then show ?case using fresh_ok [OF assms(2)] fresh_cred [OF assms(2)] by simp
next
  case (sys_next x y)
  then show ?case using step_conns step_cred step_stop by blast
qed

text \<open>C3: Every open connection of the remote server belongs to a client that the registry has as active with
exactly the credentials the connection was opened with, unless a rotation or revocation of this client is
about to close it; and every service belongs to an active client, unless a revocation is about to remove it.
So once a rotation or revocation has been answered, nothing that was opened with the old credentials is
open, even when the connection was being set up meanwhile.\<close>

lemma credentials_enforced:
  assumes "fresh_server sha s0" "sys_reachable sha s0 (Sys s hs n)"
  shows "(\<forall>c w. conn_of s c = Some w \<longrightarrow> \<not> wc_done w \<longrightarrow> H_revoked (pr_owner (wc_principal w)) \<notin># hs \<longrightarrow>
      (\<exists>name client. map_of (rg_clients (rv_registry s)) name = Some client \<and> sc_status client = ClientActive \<and>
        sc_owner client = pr_owner (wc_principal w) \<and>
        (sc_generation client = pr_generation (wc_principal w) \<or>
          (\<exists>q. H_rotated q \<in># hs \<and> pr_owner q = pr_owner (wc_principal w) \<and>
            pr_generation (wc_principal w) < pr_generation q)))) \<and>
    (\<forall>o' v. map_of (rv_services s) o' = Some v \<longrightarrow> H_revoked o' \<notin># hs \<longrightarrow>
      (\<exists>name client. map_of (rg_clients (rv_registry s)) name = Some client \<and> sc_status client = ClientActive \<and>
        sc_owner client = o'))"
proof -
  have c: "cred_ok sha s hs" using reachable_cred [OF assms(2,1)] by simp
  have "\<exists>name client. map_of (rg_clients (rv_registry s)) name = Some client \<and> sc_status client = ClientActive \<and>
        sc_owner client = pr_owner (wc_principal w) \<and>
        (sc_generation client = pr_generation (wc_principal w) \<or>
          (\<exists>q. H_rotated q \<in># hs \<and> pr_owner q = pr_owner (wc_principal w) \<and> pr_generation (wc_principal w) < pr_generation q))"
    if "conn_of s e = Some w" "\<not> wc_done w" "H_revoked (pr_owner (wc_principal w)) \<notin># hs" for e w
    using cred_okD(3) [OF c that(1)] that(2,3) unfolding good_def active_client_def rotations_def revocations_def
    by (metis mem_Collect_eq)
  moreover have "\<exists>name client. map_of (rg_clients (rv_registry s)) name = Some client \<and> sc_status client = ClientActive \<and>
        sc_owner client = o'" if "map_of (rv_services s) o' = Some v" "H_revoked o' \<notin># hs" for o' v
    using cred_okD(6) [OF c that(1)] that(2) unfolding vouched_def active_client_def revocations_def by blast
  ultimately show ?thesis by blast
qed

text \<open>C18: From the section of \<open>Shutdown\<close> under the lifecycle lock on, whatever else is under way, every
connection is done and none is opened again, no handler is inside the creation of a target, so that the
services hold all targets there will ever be; once it has taken the services, there is none and none is
started again; and no connection waits for its authentication once those have been closed.\<close>

lemma shutdown_is_final:
  assumes "fresh_server sha s0" "sys_reachable sha s0 (Sys s hs n)"
  shows "(3 \<le> n \<longrightarrow> (\<forall>c w. conn_of s c = Some w \<longrightarrow> wc_done w) \<and> (\<forall>h\<in>#hs. \<not> creating h)) \<and>
    (4 \<le> n \<longrightarrow> rv_services s = []) \<and> (2 \<le> n \<longrightarrow> rv_pre_auth s = []) \<and> (rv_closing s \<longleftrightarrow> 0 < n)"
proof -
  have s: "stop_ok s hs n" using reachable_cred [OF assms(2,1)] by simp
  have "\<not> creating h" if "creators hs = {}" "h \<in># hs" for h
  proof
    assume "creating h"
    moreover from this obtain c p where "serving h = Some (c, p)" by (cases h) auto
    ultimately show False using that by (auto simp: creators_def)
  qed
  with s show ?thesis by (auto simp: stop_ok_def)
qed

subsection \<open>Witnesses\<close>

lemma credentials_enforced_witness:
  "\<exists>s w. sys_reachable sample_sha sample_server (Sys s {#H_running 0 box_principal#} 0) \<and> conn_of s 0 = Some w \<and>
    \<not> wc_done w \<and> (\<exists>name client. map_of (rg_clients (rv_registry s)) name = Some client \<and>
      sc_status client = ClientActive \<and> sc_generation client = pr_generation (wc_principal w))"
proof -
  obtain s where s: "sys_reachable sample_sha sample_server (Sys s {#H_running 0 box_principal#} 0)"
    and a: "activateConnection 0 box_principal (fst (reserveConnection (pr_owner box_principal) sample_server)) = (s, True)"
    using connecting_run by blast
  let ?w = "newWSConnection box_principal (rv_queue_bytes (fst (reserveConnection (pr_owner box_principal) sample_server)))"
  have w: "conn_of s 0 = Some ?w" "\<not> wc_done ?w" using activated(1) [OF a] by (simp_all add: newWSConnection_def)
  from conjunct1 [OF credentials_enforced [OF sample_server_fresh s]] have
    "\<exists>name client. map_of (rg_clients (rv_registry s)) name = Some client \<and> sc_status client = ClientActive \<and>
      sc_generation client = pr_generation (wc_principal ?w)"
    using w by fastforce
  then show ?thesis using s w by blast
qed

lemma shutdown_is_final_witness:
  "\<exists>s. sys_reachable sample_sha sample_server (Sys s {#} 4) \<and> rv_services s = [] \<and> rv_pre_auth s = [] \<and> rv_closing s"
proof -
  let ?s1 = "shutdown_start sample_server"
  let ?s2 = "fst (closePreAuthConnections ?s1)"
  let ?s3 = "shutdown_signal ?s2"
  let ?s4 = "fst (shutdown_take_services ?s3)"
  have "sys_step sample_sha (Sys sample_server {#} 0) (Sys ?s1 {#} 1)" by (rule stop_start)
  moreover have "sys_step sample_sha (Sys ?s1 {#} 1) (Sys ?s2 {#} 2)" by (rule stop_pre_auth)
  moreover have "sys_step sample_sha (Sys ?s2 {#} 2) (Sys ?s3 {#} 3)" by (rule stop_signal) simp
  moreover have "sys_step sample_sha (Sys ?s3 {#} 3) (Sys ?s4 {#} 4)" by (rule stop_services)
  ultimately have "sys_reachable sample_sha sample_server (Sys ?s4 {#} 4)" by (meson sys_reachable.intros)
  then show ?thesis using shutdown_is_final [OF sample_server_fresh] by fastforce
qed

end
