(* ===== verification/Remote_Targets.thy ===== *)
theory Remote_Targets
  imports Remote_Credentials Service_Lifecycle
begin

section \<open>The limit on targets over all interleavings\<close>

text \<open>
  A target is created in many sections: the lock of the client, its service, the look for the target, the
  count, the start and its end. This theory shows that the client's lock makes the limit exact, although
  other connections of the client use and close targets between any two of the sections.
\<close>

subsection \<open>Counting targets\<close>

lemma find_dom_tabs:
  assumes "store_inv st"
  shows "set (map fst (all_tabs (st_sessions st))) = dom (findTabLocked st)" "distinct (map fst (all_tabs (st_sessions st)))"
proof -
  have wf: "wf_sessions (st_sessions st)" using assms by (simp add: store_inv_def)
  show "set (map fst (all_tabs (st_sessions st))) = dom (findTabLocked st)"
    using all_tabs_find [OF wf] by (force simp: findTabLocked_def)
  show "distinct (map fst (all_tabs (st_sessions st)))" by (rule all_tabs_distinct [OF wf])
qed

lemma targetCount_card:
  assumes "store_inv st"
  shows "targetCount st = card (dom (findTabLocked st))" "finite (dom (findTabLocked st))"
  using find_dom_tabs [OF assms] distinct_card [OF find_dom_tabs(2) [OF assms]] targetCount_all_tabs [of st]
  by (simp_all flip: find_dom_tabs(1) [OF assms])

text \<open>A section that creates nothing installs no target and leaves the starting ones alone.\<close>

lemma store_section_shrinks:
  assumes "store_section st st'" "store_inv st"
  shows "store_inv st'" "dom (findTabLocked st') \<subseteq> dom (findTabLocked st)" "st_starting st' = st_starting st"
proof -
  have idle: "dom (findTabLocked (fst (CloseIdleTargets now d st))) \<subseteq> dom (findTabLocked st)" for now d
    using flat_CloseIdleTargets [OF assms(2), of d now]
    by (cases "0 < d") (auto simp: dom_def CloseIdleTargets_def split: option.split_asm if_split_asm)
  show "store_inv st'" using assms by (induction rule: store_section.induct) (simp_all add: store_preserves)
  show "dom (findTabLocked st') \<subseteq> dom (findTabLocked st)"
    using assms
  proof (induction rule: store_section.induct)
    case (6 now d)
    then show ?case using idle by blast
  qed (auto simp: BeginExistingUse_def finishUse_def TouchTarget_def flat_closeTarget flat_CloseAll flat_removeWhenDone
      split: option.split if_split_asm)
  show "st_starting st' = st_starting st" using assms(1) by (induction rule: store_section.induct) simp_all
qed

lemma service_section_shrinks:
  assumes "service_section v v'" "store_inv (sv_store v)"
  shows "store_inv (sv_store v')" "dom (findTabLocked (sv_store v')) \<subseteq> dom (findTabLocked (sv_store v))"
    "st_starting (sv_store v') = st_starting (sv_store v)"
proof -
  have "sv_store v' = sv_store v \<or> store_section (sv_store v) (sv_store v')"
    using assms(1) by (cases rule: service_section.cases) (auto simp: beginOperation_def endOperation_def split: if_split_asm)
  then show "store_inv (sv_store v')" "dom (findTabLocked (sv_store v')) \<subseteq> dom (findTabLocked (sv_store v))"
    "st_starting (sv_store v') = st_starting (sv_store v)"
    using assms(2) store_section_shrinks [OF _ assms(2), of "sv_store v'"] by auto
qed

text \<open>There is room for target \<open>k\<close> when the count is below the limit or \<open>k\<close> is there already.\<close>

definition room :: "int \<Rightarrow> service \<Rightarrow> target_key \<Rightarrow> bool" where
  "room m v k \<longleftrightarrow> TargetCount v < m \<or> targetExists (sv_store v) k"

definition in_limit :: "int \<Rightarrow> service \<Rightarrow> bool" where
  "in_limit m v \<longleftrightarrow> store_inv (sv_store v) \<and> TargetCount v \<le> m"

lemma shrink_room:
  assumes "in_limit m v" "store_inv (sv_store v')" "dom (findTabLocked (sv_store v')) \<subseteq> dom (findTabLocked (sv_store v))"
  shows "in_limit m v'" "room m v k \<Longrightarrow> room m v' k"
proof -
  let ?D = "dom (findTabLocked (sv_store v))" and ?D' = "dom (findTabLocked (sv_store v'))"
  have inv: "store_inv (sv_store v)" using assms(1) by (simp add: in_limit_def)
  note c = targetCount_card [OF inv] and c' = targetCount_card [OF assms(2)]
  have le: "TargetCount v' \<le> TargetCount v" using card_mono [OF c(2) assms(3)] by (simp add: TargetCount_def c(1) c'(1))
  then show "in_limit m v'" using assms by (simp add: in_limit_def)
  have "TargetCount v' < TargetCount v" if "k \<in> ?D" "k \<notin> ?D'"
    using psubset_card_mono [OF c(2), of ?D'] assms(3) that by (auto simp: TargetCount_def c(1) c'(1))
  then show "room m v k \<Longrightarrow> room m v' k"
    using le assms(1) by (cases "k \<in> ?D'"; cases "k \<in> ?D") (auto simp: room_def in_limit_def targetExists_def)
qed

lemma install_in_limit:
  assumes "in_limit m v" "room m v k" "map_of (st_starting (sv_store v)) k = Some j"
    and "finish_start k a j runner err now (sv_store v) = (st, x)"
  shows "in_limit m (v\<lparr>sv_store := st\<rparr>)"
proof -
  have inv: "store_inv (sv_store v)" using assms(1) by (simp add: in_limit_def)
  have inv': "store_inv st" using finish_start_inv [OF inv assms(3), of a runner err now] assms(4) by simp
  note c = targetCount_card [OF inv] and c' = targetCount_card [OF inv']
  have "dom (findTabLocked st) \<subseteq> insert k (dom (findTabLocked (sv_store v)))"
    using flat_finish_start [of k a j runner err now "sv_store v" st] flat_finish_start_other [OF assms(4)] assms(4)
    by (cases "\<exists>i. x = Installed i") auto
  then have "card (dom (findTabLocked st)) \<le> card (insert k (dom (findTabLocked (sv_store v))))"
    by (intro card_mono) (simp_all add: c)
  also have "\<dots> \<le> nat m"
    using assms(1,2) c(2) by (auto simp: room_def in_limit_def TargetCount_def c(1) targetExists_def card_insert_if)
  finally show ?thesis
    using inv' assms(1) by (auto simp: in_limit_def TargetCount_def c'(1))
qed

subsection \<open>The lock of a client\<close>

definition lock_ok :: "(string \<times> lock_id) list \<Rightarrow> handler multiset \<Rightarrow> bool" where
  "lock_ok locks hs \<longleftrightarrow>
     (\<forall>h\<in>#hs. \<forall>c p l. serving h = Some (c, p) \<longrightarrow> has_lock h = Some l \<longrightarrow> map_of locks (pr_owner p) = Some l) \<and>
     (\<forall>l. size {#h \<in># hs. holds h = Some l#} \<le> 1)"

lemma lock_ok_empty [simp]: "lock_ok locks {#}"
  by (simp add: lock_ok_def)

lemma lock_ok_add [simp]:
  "lock_ok locks (add_mset h hs) \<longleftrightarrow> lock_ok locks hs \<and>
     (\<forall>c p l. serving h = Some (c, p) \<longrightarrow> has_lock h = Some l \<longrightarrow> map_of locks (pr_owner p) = Some l) \<and>
     (\<forall>l. holds h = Some l \<longrightarrow> (\<forall>h'\<in>#hs. holds h' \<noteq> Some l))"
proof -
  have none: "size {#h' \<in># hs. holds h' = Some l#} = 0 \<longleftrightarrow> (\<forall>h'\<in>#hs. holds h' \<noteq> Some l)" for l
    by (simp flip: set_mset_eq_empty_iff) auto
  have "size {#h' \<in># add_mset h hs. holds h' = Some l#} \<le> 1 \<longleftrightarrow>
      size {#h' \<in># hs. holds h' = Some l#} \<le> 1 \<and> (holds h = Some l \<longrightarrow> (\<forall>h'\<in>#hs. holds h' \<noteq> Some l))" for l
  proof -
    have "size {#h' \<in># add_mset h hs. holds h' = Some l#} = (if holds h = Some l then 1 else 0) + size {#h' \<in># hs. holds h' = Some l#}"
      by simp
    moreover have "a = (if P then 1 else 0) + b \<Longrightarrow> a \<le> 1 \<longleftrightarrow> b \<le> 1 \<and> (P \<longrightarrow> b = 0)" for a b :: nat and P by auto
    ultimately show ?thesis unfolding none [symmetric] by blast
  qed
  then show ?thesis unfolding lock_ok_def by auto
qed

lemma lock_ok_grows:
  "lock_ok locks hs \<Longrightarrow> (\<And>o' l. map_of locks o' = Some l \<Longrightarrow> map_of locks' o' = Some l) \<Longrightarrow> lock_ok locks' hs"
  unfolding lock_ok_def by blast

lemma holds_simps [simp]:
  "holds (H_reserved p) = None" "holds (H_checked p) = None" "holds (H_running c p) = None" "holds (H_rotated p) = None"
  "holds (H_revoking p n w) = None" "holds (H_revoked o') = None" "holds (H_admitted c p k) = None"
  "holds (H_waiting c p k l) = None" "holds (H_locked c p k l) = Some l" "holds (H_found c p k l) = Some l"
  "holds (H_counting c p k l) = Some l" "holds (H_allowed c p k l) = Some l" "holds (H_launching c p k l j) = Some l"
  "holds (H_canceled c p k l j) = Some l"
  by (simp_all add: holds_def)

lemma holds_has_lock: "holds h = Some l \<Longrightarrow> has_lock h = Some l"
  by (simp add: holds_def split: if_split_asm)

lemma no_reader_no_lock: "no_reader hs \<Longrightarrow> lock_ok locks hs \<Longrightarrow> lock_ok locks' hs"
proof -
  assume r: "no_reader hs" and l: "lock_ok locks hs"
  have "has_lock h = None" if "h \<in># hs" for h using r that by (cases h) auto
  then show ?thesis using l unfolding lock_ok_def by auto
qed

subsection \<open>What a handler may rely on\<close>

fun claim_ok :: "int \<Rightarrow> (string \<Rightarrow> service option) \<Rightarrow> handler \<Rightarrow> bool" where
  "claim_ok m services (H_allowed c p k l) = (\<exists>v. services (pr_owner p) = Some v \<and> room m v k)"
| "claim_ok m services (H_launching c p k l j) =
     (\<exists>v. services (pr_owner p) = Some v \<and> room m v k \<and> map_of (st_starting (sv_store v)) k = Some j)"
| "claim_ok m services (H_canceled c p k l j) =
     (\<exists>v. services (pr_owner p) = Some v \<and> map_of (st_starting (sv_store v)) k = Some j)"
| "claim_ok m services h = True"

lemma claim_other:
  assumes "claim_ok m services h" "\<And>c p l. serving h = Some (c, p) \<Longrightarrow> holds h = Some l \<Longrightarrow> services' (pr_owner p) = services (pr_owner p)"
  shows "claim_ok m services' h"
  using assms by (cases h) auto

definition targets_ok :: "remote_server \<Rightarrow> handler multiset \<Rightarrow> bool" where
  "targets_ok s hs \<longleftrightarrow> lock_ok (rv_create_lock s) hs \<and> rv_factory s = None \<and> 0 < rv_max_targets s \<and>
     (\<forall>o' v. map_of (rv_services s) o' = Some v \<longrightarrow> in_limit (rv_max_targets s) v) \<and>
     (\<forall>h\<in>#hs. claim_ok (rv_max_targets s) (map_of (rv_services s)) h)"

text \<open>The other handlers do not rely on the service of the client whose lock is held.\<close>

lemma holder_changes_service:
  assumes "targets_ok s (add_mset h hs)" "serving h = Some (c, p)" "holds h = Some l" "has_lock h' = None \<or> has_lock h' = Some l \<and> serving h' = Some (c, p) \<and> holds h' = Some l"
    and "map_of (rv_services s) (pr_owner p) = Some v" "in_limit (rv_max_targets s) v'"
    and "claim_ok (rv_max_targets s) ((map_of (rv_services s))(pr_owner p \<mapsto> v')) h'"
  shows "targets_ok (put_service (pr_owner p) v' s) (add_mset h' hs)"
proof -
  have old: "lock_ok (rv_create_lock s) hs" "map_of (rv_create_lock s) (pr_owner p) = Some l" "\<forall>x\<in>#hs. holds x \<noteq> Some l"
    using assms(1,2,3) holds_has_lock [OF assms(3)] by (auto simp: targets_ok_def)
  have free: "pr_owner p' \<noteq> pr_owner p" if "x \<in># hs" "serving x = Some (c', p')" "holds x = Some l'" for x c' p' l'
  proof
    assume same: "pr_owner p' = pr_owner p"
    have "map_of (rv_create_lock s) (pr_owner p') = Some l'"
      using old(1) that(1,2) holds_has_lock [OF that(3)] unfolding lock_ok_def by blast
    then show False using same old(2,3) that(1,3) by auto
  qed
  have claims: "claim_ok (rv_max_targets s) ((map_of (rv_services s))(pr_owner p \<mapsto> v')) x" if "x \<in># hs" for x
  proof (rule claim_other)
    show "claim_ok (rv_max_targets s) (map_of (rv_services s)) x" using assms(1) that by (simp add: targets_ok_def)
  qed (use free [OF that] in simp)
  have locks: "lock_ok (rv_create_lock s) (add_mset h' hs)"
  proof (cases "has_lock h' = None")
    case True
    then have "holds h' = None" by (simp add: holds_def)
    then show ?thesis using True old(1) by simp
  next
    case False
    then have "has_lock h' = Some l" "serving h' = Some (c, p)" "holds h' = Some l" using assms(4) by auto
    then show ?thesis using old by simp
  qed
  have services: "map_of (rv_services (put_service (pr_owner p) v' s)) = (map_of (rv_services s))(pr_owner p \<mapsto> v')"
    by (simp add: put_service_def update_conv' fun_eq_iff)
  have rest: "rv_create_lock (put_service (pr_owner p) v' s) = rv_create_lock s" "rv_factory (put_service (pr_owner p) v' s) = rv_factory s"
    "rv_max_targets (put_service (pr_owner p) v' s) = rv_max_targets s" by (simp_all add: put_service_def)
  have lim: "in_limit (rv_max_targets s) u" if "((map_of (rv_services s))(pr_owner p \<mapsto> v')) o' = Some u" for o' u
    using that assms(1,6) by (cases "o' = pr_owner p") (simp_all add: targets_ok_def)
  have "rv_factory s = None" "0 < rv_max_targets s" using assms(1) by (simp_all add: targets_ok_def)
  moreover have "\<forall>x\<in>#add_mset h' hs. claim_ok (rv_max_targets s) ((map_of (rv_services s))(pr_owner p \<mapsto> v')) x"
    using assms(7) claims by simp
  ultimately show ?thesis
    using lim locks unfolding targets_ok_def services rest by blast
qed

text \<open>A step that leaves the services, the locks of clients and the limit alone.\<close>

definition target_state :: "remote_server \<Rightarrow> (string \<times> service) list \<times> (string \<times> lock_id) list \<times> int \<times> (principal \<Rightarrow> service option) option" where
  "target_state s = (rv_services s, rv_create_lock s, rv_max_targets s, rv_factory s)"

lemma targets_same:
  assumes "targets_ok s hs" "target_state s' = target_state s" "lock_ok (rv_create_lock s) hs'"
    and "\<And>h. h \<in># hs' \<Longrightarrow> h \<in># hs \<or> claim_ok (rv_max_targets s) (map_of (rv_services s)) h"
  shows "targets_ok s' hs'"
  using assms unfolding targets_ok_def target_state_def by auto

lemma targets_okD:
  assumes "targets_ok s hs"
  shows "lock_ok (rv_create_lock s) hs" "rv_factory s = None" "0 < rv_max_targets s"
    "map_of (rv_services s) o' = Some v \<Longrightarrow> in_limit (rv_max_targets s) v"
    "h \<in># hs \<Longrightarrow> claim_ok (rv_max_targets s) (map_of (rv_services s)) h"
  using assms by (auto simp: targets_ok_def)

lemma target_state_frame [simp]:
  "target_state (releaseConnectionReservation o' s) = target_state s" "target_state (ws_removeConnection c o' s) = target_state s"
  "target_state (update_conn c f s) = target_state s" "target_state (s\<lparr>rv_registry := r\<rparr>) = target_state s"
  "target_state (releasePreAuthConnection c s) = target_state s" "target_state (shutdown_start s) = target_state s"
  "target_state (fst (closePreAuthConnections s)) = target_state s" "target_state (shutdown_signal s) = target_state s"
  "target_state (close_rotated p s) = target_state s"
  by (simp_all add: target_state_def releaseConnectionReservation_def ws_removeConnection_def Let_def
      releasePreAuthConnection_def shutdown_start_def closePreAuthConnections_def)

lemma target_state_results:
  "admitPreAuthConnection c' s = (s', ok) \<Longrightarrow> target_state s' = target_state s"
  "reserveConnection o' s = (s', e) \<Longrightarrow> target_state s' = target_state s"
  "activateConnection c' q s = (s', b') \<Longrightarrow> target_state s' = target_state s"
  by (auto simp: target_state_def admitPreAuthConnection_def reserveConnection_def
      activateConnection_def releaseConnectionReservation_def Let_def split: if_split_asm)

lemma lock_found:
  assumes "createLockFor o' s = (s', l)"
  shows "map_of (rv_create_lock s') o' = Some l" "map_of (rv_create_lock s) o'' = Some l' \<Longrightarrow> map_of (rv_create_lock s') o'' = Some l'"
    "rv_services s' = rv_services s" "rv_factory s' = rv_factory s" "rv_max_targets s' = rv_max_targets s"
  using assms by (auto simp: createLockFor_def update_conv' split: option.split_asm)

lemma step_find_lock:
  assumes "targets_ok s (add_mset (H_admitted c p k) hs)" "createLockFor (pr_owner p) s = (s', l)"
  shows "targets_ok s' (add_mset (H_waiting c p k l) hs)"
proof -
  note f = lock_found [OF assms(2)] and d = targets_okD [OF assms(1)]
  have "lock_ok (rv_create_lock s') hs" using lock_ok_grows [of "rv_create_lock s" hs] d(1) f(2) by simp
  then show ?thesis using assms(1) f by (auto simp: targets_ok_def)
qed

lemma step_use_service:
  assumes "targets_ok s hs" "map_of (rv_services s) o' = Some v" "service_section v v'"
  shows "targets_ok (put_service o' v' s) hs"
proof -
  note d = targets_okD [OF assms(1)]
  have lim: "in_limit (rv_max_targets s) v" by (rule d(4) [OF assms(2)])
  then have inv: "store_inv (sv_store v)" by (simp add: in_limit_def)
  note shr = service_section_shrinks [OF assms(3) inv]
  note room = shrink_room [OF lim shr(1,2)]
  have "claim_ok (rv_max_targets s) ((map_of (rv_services s))(o' \<mapsto> v')) h" if "h \<in># hs" for h
    using d(5) [OF that] assms(2) room(2) shr(3) by (cases h) auto
  then show ?thesis using assms(1) room(1) by (auto simp: targets_ok_def put_service_def update_conv')
qed

lemma step_find_service:
  assumes "targets_ok s (add_mset (H_locked c p k l) hs)" "serviceFor p True s = (s', x)"
  shows "targets_ok s' (add_mset (H_locked c p k l) hs)"
proof (cases "s' = s")
  case False
  then have s': "map_of (rv_services s) (pr_owner p) = None" "s' = put_service (pr_owner p) newServiceWithRunnerFactory s"
    using assms targets_okD(2) [OF assms(1)] by (auto simp: serviceFor_def put_service_def split: if_split_asm option.split_asm)
  have "targetCount NewStore = 0" by (simp add: targetCount_def NewStore_def)
  then have lim: "in_limit (rv_max_targets s) newServiceWithRunnerFactory"
    using targets_okD(3) [OF assms(1)] by (simp add: in_limit_def newServiceWithRunnerFactory_def TargetCount_def)
  have "claim_ok (rv_max_targets s) ((map_of (rv_services s))(pr_owner p \<mapsto> newServiceWithRunnerFactory)) h"
    if "h \<in># add_mset (H_locked c p k l) hs" for h
    using targets_okD(5) [OF assms(1) that] s'(1) by (cases h) auto
  then show ?thesis
    using assms(1) lim unfolding s'(2) targets_ok_def by (simp add: put_service_def update_conv')
qed (use assms in simp)

lemma step_targets:
  "sys_step sha x y \<Longrightarrow> stop_ok (sy_server x) (sy_handlers x) (sy_shutdown x) \<Longrightarrow> targets_ok (sy_server x) (sy_handlers x) \<Longrightarrow>
   targets_ok (sy_server y) (sy_handlers y)"
proof (induction rule: sys_step.induct)
  case (use_service s o' v v' hs n)
  then show ?case using step_use_service by simp
next
  case (revoked hs s o' n)
  have "\<not> creating h" if "h \<in># hs" for h using revoked.hyps that by (cases h) auto
  then have free: "claim_ok m services h" if "h \<in># hs" for h m services using that by (cases h) force+
  have "lock_ok (rv_create_lock (fst (close_revoked o' s))) hs"
    using no_reader_no_lock [OF revoked.hyps, of "rv_create_lock s"] targets_okD(1) [OF revoked.prems(2)] by simp
  then show ?case
    using revoked.prems(2) free by (auto simp: targets_ok_def delete_conv' split: if_split_asm)
next
  case (find_lock p s s' l c k hs n)
  then show ?case using step_find_lock by simp
next
  case (lock hs l s c p k n)
  then show ?case by (auto simp: targets_ok_def)
next
  case (find_service p s s' v c k l hs n)
  then have "targets_ok s' (add_mset (H_locked c p k l) hs)" using step_find_service by simp
  then show ?case by (auto simp: targets_ok_def)
next
  case (no_service p s s' c k l hs n)
  then have "targets_ok s' (add_mset (H_locked c p k l) hs)" using step_find_service by simp
  then show ?case by (auto simp: targets_ok_def)
next
  case (exists s p v k c l hs n)
  then show ?case by (auto simp: targets_ok_def room_def)
next
  case (below_limit s p v c k l hs n)
  then show ?case by (auto simp: targets_ok_def room_def)
next
  case (create_found s p v k now st i c l hs n)
  note d = targets_okD [OF create_found.prems(2) [simplified]]
  have st: "st = fst (get_or_start k True now (sv_store v))" using create_found.hyps(2) by simp
  have lim: "in_limit (rv_max_targets s) v" by (rule d(4) [OF create_found.hyps(1)])
  have inv: "store_inv st" "targetCount st = targetCount (sv_store v)"
    using lim get_or_start_inv [of "sv_store v" k True now] targetCount_card(1) by (simp_all add: in_limit_def st)
  then have "in_limit (rv_max_targets s) (v\<lparr>sv_store := st\<rparr>)" using lim by (simp add: in_limit_def TargetCount_def)
  then show ?case
    using holder_changes_service [OF create_found.prems(2) [simplified], where h' = "H_running c p"] create_found.hyps(1) by simp
next
  case (create_start s p v k now st j c l hs n)
  note d = targets_okD [OF create_start.prems(2) [simplified]]
  have st: "st = fst (get_or_start k True now (sv_store v))" using create_start.hyps(2) by simp
  have lim: "in_limit (rv_max_targets s) v" by (rule d(4) [OF create_start.hyps(1)])
  have inv: "store_inv st" "targetCount st = targetCount (sv_store v)"
    using lim get_or_start_inv [of "sv_store v" k True now] targetCount_card(1) by (simp_all add: in_limit_def st)
  then have lim': "in_limit (rv_max_targets s) (v\<lparr>sv_store := st\<rparr>)" using lim by (simp add: in_limit_def TargetCount_def)
  have "room (rv_max_targets s) v k" using d(5) [of "H_allowed c p k l"] create_start.hyps(1) by simp
  then have "room (rv_max_targets s) (v\<lparr>sv_store := st\<rparr>) k"
    using inv(2) by (simp add: room_def TargetCount_def targetExists_def st)
  moreover have "map_of (st_starting st) k = Some j"
    using create_start.hyps(2) by (auto simp: get_or_start_def Let_def update_conv' split: option.split_asm)
  ultimately show ?case
    using holder_changes_service [OF create_start.prems(2) [simplified], where h' = "H_launching c p k l j"] create_start.hyps(1) lim' by simp
next
  case (create_done s p v k j runner err now st x c l hs n)
  note d = targets_okD [OF create_done.prems(2) [simplified]]
  have "in_limit (rv_max_targets s) (v\<lparr>sv_store := st\<rparr>)"
    using d(4) [OF create_done.hyps(1)] d(5) [of "H_launching c p k l j"] create_done.hyps(1,2)
    by (intro install_in_limit [of _ v k j]) auto
  then show ?case
    using holder_changes_service [OF create_done.prems(2) [simplified], where h' = "H_running c p"] create_done.hyps(1) by simp
next
  case (create_canceled s p v k j runner err now st runner' c l hs n)
  then show ?case by (auto simp: targets_ok_def)
next
  case (create_closed s p v c k l j hs n e)
  note d = targets_okD [OF create_closed.prems(2) [simplified]]
  have lim: "in_limit (rv_max_targets s) v" by (rule d(4) [OF create_closed.hyps])
  have st: "map_of (st_starting (sv_store v)) k = Some j" using d(5) [of "H_canceled c p k l j"] create_closed.hyps by simp
  have inv: "store_inv (finish_canceled k j e (sv_store v))" using lim finish_canceled_inv [OF _ st, of e] by (simp add: in_limit_def)
  have "findTabLocked (finish_canceled k j e (sv_store v)) = findTabLocked (sv_store v)" by (simp add: finish_canceled_def)
  then have "in_limit (rv_max_targets s) (v\<lparr>sv_store := finish_canceled k j e (sv_store v)\<rparr>)"
    using shrink_room(1) [OF lim, of "v\<lparr>sv_store := finish_canceled k j e (sv_store v)\<rparr>"] inv by simp
  then show ?case
    using holder_changes_service [OF create_closed.prems(2) [simplified], where h' = "H_running c p"] create_closed.hyps by simp
next
  case (stop_services s hs)
  have "creators hs = {}" using stop_services.prems(1) by (simp add: stop_ok_def)
  then have "claim_ok m services h" if "h \<in># hs" for h m services
    using that by (cases h) (force simp: creators_def)+
  then show ?case using stop_services.prems(2) by (simp add: targets_ok_def shutdown_take_services_def)
qed (rule targets_same, assumption, (auto simp: target_state_results targets_ok_def)[3])+

subsection \<open>Property\<close>

lemma reachable_targets:
  assumes "sys_reachable sha s0 x" "fresh_server sha s0"
  shows "targets_ok (sy_server x) (sy_handlers x) \<and> stop_ok (sy_server x) (sy_handlers x) (sy_shutdown x)"
proof -
  have "targets_ok (sy_server x) (sy_handlers x)"
    using assms(1)
  proof (induction rule: sys_reachable.induct)
    case sys_start
    then show ?case using fresh_server_fields [OF assms(2)] by (simp add: targets_ok_def)
  next
    case (sys_next x y)
    then show ?case using step_targets reachable_cred [OF sys_next.hyps(1) assms(2)] by blast
  qed
  then show ?thesis using reachable_cred [OF assms] by simp
qed

text \<open>C4: However the requests of a client interleave, over any number of connections, its service never has
more targets than the server's limit, and no two of its requests are inside the creation of a target at the
same time, although checking the limit and creating the target are separate sections.\<close>

lemma target_limit_holds:
  assumes "fresh_server sha s0" "sys_reachable sha s0 (Sys s hs n)"
  shows "(\<forall>o' v. map_of (rv_services s) o' = Some v \<longrightarrow> TargetCount v \<le> rv_max_targets s0) \<and>
    (\<forall>h h' hs' c p c' p'. hs = add_mset h (add_mset h' hs') \<longrightarrow> holds h \<noteq> None \<longrightarrow> holds h' \<noteq> None \<longrightarrow>
      serving h = Some (c, p) \<longrightarrow> serving h' = Some (c', p') \<longrightarrow> pr_owner p \<noteq> pr_owner p')"
proof -
  have t: "targets_ok s hs" using reachable_targets [OF assms(2,1)] by simp
  have m: "rv_max_targets s = rv_max_targets s0" using reachable_params [OF assms(2)] by (simp add: params_def)
  have "pr_owner p \<noteq> pr_owner p'"
    if hs: "hs = add_mset h (add_mset h' hs')" and h: "holds h = Some l" "holds h' = Some l'"
      "serving h = Some (c, p)" "serving h' = Some (c', p')" for h h' hs' c p c' p' l l'
  proof
    assume same: "pr_owner p = pr_owner p'"
    have k: "lock_ok (rv_create_lock s) (add_mset h (add_mset h' hs'))" using targets_okD(1) [OF t] unfolding hs .
    note k' = k [unfolded lock_ok_add]
    have "map_of (rv_create_lock s) (pr_owner p) = Some l" "map_of (rv_create_lock s) (pr_owner p') = Some l'"
      using k' h(3,4) holds_has_lock [OF h(1)] holds_has_lock [OF h(2)] by blast+
    then have "l = l'" using same by simp
    then show False using k' h(1,2) by (metis union_single_eq_member)
  qed
  moreover have "TargetCount v \<le> rv_max_targets s0" if "map_of (rv_services s) o' = Some v" for o' v
    using targets_okD(4) [OF t that] m by (simp add: in_limit_def)
  ultimately show ?thesis by blast
qed

text \<open>A run in which the client starts its first target.\<close>

lemma creating_run:
  assumes "sys_reachable sha s0 (Sys s {#H_running c p#} 0)" "\<not> rv_closing s" "\<not> conn_done s c" "rv_services s = []"
    "rv_factory s = None" "0 < rv_max_targets s" "rv_create_lock s = []"
  shows "\<exists>s' j. sys_reachable sha s0 (Sys s' {#H_launching c p k (rv_locks s) j#} 0) \<and>
    map_of (rv_services s') (pr_owner p) \<noteq> None"
proof -
  let ?l = "rv_locks s"
  obtain s1 where s1: "createLockFor (pr_owner p) s = (s1, ?l)" "rv_services s1 = []" "rv_factory s1 = None" "\<not> rv_closing s1"
      "0 < rv_max_targets s1"
    using assms(2,4-7) by (simp add: createLockFor_def)
  let ?v = newServiceWithRunnerFactory
  obtain s2 where s2: "serviceFor p True s1 = (s2, Some ?v)" "map_of (rv_services s2) (pr_owner p) = Some ?v" "0 < rv_max_targets s2"
    using s1 by (simp add: serviceFor_def)
  have find: "\<not> targetExists (sv_store ?v) k" "TargetCount ?v = 0"
    by (simp_all add: targetExists_def newServiceWithRunnerFactory_def NewStore_def findTabLocked_def find_in_def TargetCount_def targetCount_def)
  obtain st j where st: "get_or_start k True 0 (sv_store ?v) = (st, Start j)"
    by (simp add: newServiceWithRunnerFactory_def get_or_start_def NewStore_def findTabLocked_def find_in_def Let_def)
  have "sys_step sha (Sys s {#H_running c p#} 0) (Sys s {#H_admitted c p k#} 0)" by (rule admit_create) (rule assms)+
  moreover have "sys_step sha (Sys s {#H_admitted c p k#} 0) (Sys s1 {#H_waiting c p k ?l#} 0)" by (rule find_lock) (rule s1)
  moreover have "sys_step sha (Sys s1 {#H_waiting c p k ?l#} 0) (Sys s1 {#H_locked c p k ?l#} 0)" by (rule lock) simp
  moreover have "sys_step sha (Sys s1 {#H_locked c p k ?l#} 0) (Sys s2 {#H_found c p k ?l#} 0)" by (rule find_service) (rule s2)
  moreover have "sys_step sha (Sys s2 {#H_found c p k ?l#} 0) (Sys s2 {#H_counting c p k ?l#} 0)" by (rule missing) (rule s2, rule find)
  moreover have "sys_step sha (Sys s2 {#H_counting c p k ?l#} 0) (Sys s2 {#H_allowed c p k ?l#} 0)"
    by (rule below_limit) (rule s2, simp add: find s2)
  moreover have "sys_step sha (Sys s2 {#H_allowed c p k ?l#} 0)
      (Sys (put_service (pr_owner p) (?v\<lparr>sv_store := st\<rparr>) s2) {#H_launching c p k ?l j#} 0)"
    by (rule create_start) (rule s2, rule st)
  ultimately have "sys_reachable sha s0 (Sys (put_service (pr_owner p) (?v\<lparr>sv_store := st\<rparr>) s2) {#H_launching c p k ?l j#} 0)"
    using assms(1) by (meson sys_next)
  then show ?thesis by (intro exI [of _ "put_service (pr_owner p) (?v\<lparr>sv_store := st\<rparr>) s2"] exI [of _ j]) simp
qed

lemma target_limit_holds_witness:
  "\<exists>s h v. sys_reachable sample_sha sample_server (Sys s {#h#} 0) \<and> holds h \<noteq> None \<and>
    map_of (rv_services s) (pr_owner box_principal) = Some v \<and> TargetCount v \<le> 64"
proof -
  obtain s where s: "sys_reachable sample_sha sample_server (Sys s {#H_running 0 box_principal#} 0)"
    and a: "activateConnection 0 box_principal (fst (reserveConnection (pr_owner box_principal) sample_server)) = (s, True)"
    using connecting_run by blast
  have f: "rv_services s = []" "rv_factory s = None" "rv_max_targets s = 64" "rv_create_lock s = []" "\<not> rv_closing s"
    "\<not> conn_done s 0"
    using activated [OF a] sample_server_fields
    by (simp_all add: reserveConnection_def conn_done_def newWSConnection_def)
  obtain s' j where r: "sys_reachable sample_sha sample_server
      (Sys s' {#H_launching 0 box_principal (Target_key ''s'' ''p'' ''t'') (rv_locks s) j#} 0)"
    "map_of (rv_services s') (pr_owner box_principal) \<noteq> None"
    using creating_run [OF s f(5,6,1,2) _ f(4), of "Target_key ''s'' ''p'' ''t''"] f(3) by auto
  moreover have "rv_max_targets sample_server = 64" using reachable_params [OF s] f(3) by (simp add: params_def)
  ultimately show ?thesis using target_limit_holds [OF sample_server_fresh r(1)] by fastforce
qed

end
