(* ===== verification/Pty_Subscribers.thy ===== *)
theory Pty_Subscribers
  imports Pty_Prelude "HOL-Library.AList"
begin

section \<open>Who reads the output of a PTY (internal/server/tab.go)\<close>

text \<open>
  One goroutine reads the PTY and hands every chunk to the subscribers, each over a channel of 128 chunks.
  A reliable subscriber is waited for; a best-effort one that has fallen behind is stopped. Subscribers are
  compared as pointers and outlive their map entry, so they live on a heap (\<open>hb_heap\<close>) and a pointer is an
  index. First the operations as functions of what \<open>stateMu\<close> guards, then a step relation of the reader
  against the loops that receive (\<open>select\<close> statements that look at the channel first), then what a
  subscriber gets.
\<close>

subsection \<open>The hub\<close>

text \<open>An error result of a subscription; \<open>err\<close> of \<open>Read_error\<close> is the error of the system call.\<close>

datatype sub_error = Subscriber_too_slow | Io_EOF | Read_error string

record subscriber =
  sb_id :: nat
  sb_reliable :: bool
  sb_ch :: "string list"
  sb_done :: bool
  sb_err :: "sub_error option"

record hub =
  hb_heap :: "subscriber list"
  hb_subscribers :: "(nat \<times> nat) list"
  hb_nextSubID :: nat
  hb_closed :: bool
  hb_readErr :: "string option"

definition new_hub :: hub where
  "new_hub = \<lparr>hb_heap = [], hb_subscribers = [], hb_nextSubID = 0, hb_closed = False, hb_readErr = None\<rparr>"

definition sub_capacity :: nat where "sub_capacity = 128"

text \<open>\<open>stopOnce\<close>: the channel \<open>done\<close> is closed exactly when \<open>stop\<close> has run.\<close>

definition sub_stop :: "sub_error option \<Rightarrow> subscriber \<Rightarrow> subscriber" where
  "sub_stop err s = (if sb_done s then s else s\<lparr>sb_done := True, sb_err := err\<rparr>)"

definition upd_sub :: "(subscriber \<Rightarrow> subscriber) \<Rightarrow> nat \<Rightarrow> hub \<Rightarrow> hub" where
  "upd_sub f p h = h\<lparr>hb_heap := (hb_heap h)[p := f (hb_heap h ! p)]\<rparr>"

text \<open>The error that ends a subscription when the reader has ended.\<close>

definition end_error :: "string option \<Rightarrow> sub_error" where
  "end_error err = (case err of None \<Rightarrow> Io_EOF | Some e \<Rightarrow> Read_error e)"

text \<open>\<open>subscribe\<close> returns the pointer of the new subscriber, which is the last of the heap.\<close>

definition subscribe :: "bool \<Rightarrow> hub \<Rightarrow> hub \<times> nat" where
  "subscribe reliable h =
     (let sub = \<lparr>sb_id = 0, sb_reliable = reliable, sb_ch = [], sb_done = False, sb_err = None\<rparr>; p = length (hb_heap h) in
      if hb_closed h then (h\<lparr>hb_heap := hb_heap h @ [sub_stop (Some (end_error (hb_readErr h))) sub]\<rparr>, p)
      else (h\<lparr>hb_heap := hb_heap h @ [sub\<lparr>sb_id := hb_nextSubID h\<rparr>],
              hb_nextSubID := hb_nextSubID h + 1,
              hb_subscribers := AList.update (hb_nextSubID h) p (hb_subscribers h)\<rparr>, p))"

definition unsubscribe :: "nat \<Rightarrow> hub \<Rightarrow> hub" where
  "unsubscribe i h =
     (let sub = map_of (hb_subscribers h) i; h = h\<lparr>hb_subscribers := AList.delete i (hb_subscribers h)\<rparr> in
      case sub of None \<Rightarrow> h | Some p \<Rightarrow> upd_sub (sub_stop None) p h)"

definition subscriptionErr :: "hub \<Rightarrow> sub_error option" where
  "subscriptionErr h =
     (case hb_readErr h of Some e \<Rightarrow> Some (Read_error e) | None \<Rightarrow> if hb_closed h then Some Io_EOF else None)"

text \<open>The error in the channel is taken out of it.\<close>

definition subscriptionResultErr :: "nat \<Rightarrow> hub \<Rightarrow> hub \<times> sub_error option" where
  "subscriptionResultErr p h =
     (case sb_err (hb_heap h ! p) of
        Some e \<Rightarrow> (upd_sub (\<lambda>s. s\<lparr>sb_err := None\<rparr>) p h, Some e)
      | None \<Rightarrow> (h, subscriptionErr h))"

text \<open>The pieces of \<open>broadcast\<close> and \<open>closeSubscribers\<close>: who gets a chunk, what sending does, and the end.\<close>

definition pushed :: "string \<Rightarrow> subscriber \<Rightarrow> subscriber" where
  "pushed chunk s = s\<lparr>sb_ch := sb_ch s @ [chunk]\<rparr>"

definition has_room :: "subscriber \<Rightarrow> bool" where
  "has_room s \<longleftrightarrow> length (sb_ch s) < sub_capacity"

definition drop_slow :: "nat \<Rightarrow> hub \<Rightarrow> hub" where
  "drop_slow p h =
     (let i = sb_id (hb_heap h ! p) in
      if map_of (hb_subscribers h) i = Some p then h\<lparr>hb_subscribers := AList.delete i (hb_subscribers h)\<rparr> else h)"

definition close_hub :: "string option \<Rightarrow> hub \<Rightarrow> hub \<times> nat list" where
  "close_hub err h =
     (if hb_closed h then (h, [])
      else (h\<lparr>hb_closed := True, hb_readErr := err, hb_subscribers := []\<rparr>, map snd (hb_subscribers h)))"

subsection \<open>The reader and the receivers\<close>

text \<open>
  Where the reading goroutine is: reading; sending a chunk to those who still have to get it, in any order;
  about to delete one that it has stopped; stopping the rest after a read error; finished.
\<close>

datatype reader =
    Reading
  | Delivering string "nat list"
  | Dropping string nat "nat list"
  | Stopping sub_error "nat list"
  | Finished

text \<open>
  Where the goroutine of a subscriber is: writing to the PTY what the operation types, which may block, after it
  has subscribed; in its loop before its look at the channel; at its \<open>select\<close>, with or without the case of
  \<open>done\<close>; returned from it with the error of the subscription, or for a reason of its own (canceled,
  quiet long enough, complete, or its output failed); and after \<open>unsubscribe\<close>.
\<close>

datatype loop_end = Sub_ended "sub_error option" | Own_reason

datatype receiver = Typing | Looking | Selecting bool | Returned loop_end | Gone loop_end

text \<open>The chunks broadcast so far, how many there were when the loop subscribed, and what it received are history.\<close>

record loop_state =
  ls_pc :: receiver
  ls_from :: nat
  ls_got :: "string list"

record pty_world =
  pw_hub :: hub
  pw_reader :: reader
  pw_log :: "string list"
  pw_loops :: "loop_state list"

definition start_world :: pty_world where
  "start_world = \<lparr>pw_hub = new_hub, pw_reader = Reading, pw_log = [], pw_loops = []\<rparr>"

abbreviation the_sub :: "pty_world \<Rightarrow> nat \<Rightarrow> subscriber" where
  "the_sub w p \<equiv> hb_heap (pw_hub w) ! p"

abbreviation set_pc :: "nat \<Rightarrow> receiver \<Rightarrow> pty_world \<Rightarrow> pty_world" where
  "set_pc p pc w \<equiv> w\<lparr>pw_loops := (pw_loops w)[p := (pw_loops w ! p)\<lparr>ls_pc := pc\<rparr>]\<rparr>"

text \<open>
  Every operation but \<open>Follow\<close>, whose subscriber is not reliable, types between \<open>subscribe\<close> and its loop;
  \<open>runWithLimit\<close> types again when it is canceled. When such a write ends is up to the PTY (\<open>types\<close>), and it may
  fail (\<open>leaves\<close>).
\<close>

inductive pty_step :: "pty_world \<Rightarrow> pty_world \<Rightarrow> bool" where
  subscribes: "subscribe reliable (pw_hub w) = (h, p) \<Longrightarrow> pc = Typing \<or> pc = Looking \<and> \<not> reliable \<Longrightarrow>
    pty_step w (w\<lparr>pw_hub := h, pw_loops := pw_loops w @ [\<lparr>ls_pc = pc, ls_from = length (pw_log w), ls_got = []\<rparr>]\<rparr>)"
| reads: "pw_reader w = Reading \<Longrightarrow> chunk \<noteq> [] \<Longrightarrow>
    pty_step w (w\<lparr>pw_log := pw_log w @ [chunk], pw_reader := Delivering chunk (map snd (hb_subscribers (pw_hub w)))\<rparr>)"
| sends: "pw_reader w = Delivering chunk (ps @ p # qs) \<Longrightarrow> has_room (the_sub w p) \<Longrightarrow>
    pty_step w (w\<lparr>pw_hub := upd_sub (pushed chunk) p (pw_hub w), pw_reader := Delivering chunk (ps @ qs)\<rparr>)"
| skips: "pw_reader w = Delivering chunk (ps @ p # qs) \<Longrightarrow> sb_done (the_sub w p) \<Longrightarrow>
    pty_step w (w\<lparr>pw_reader := Delivering chunk (ps @ qs)\<rparr>)"
| stops_slow: "pw_reader w = Delivering chunk (ps @ p # qs) \<Longrightarrow> \<not> sb_reliable (the_sub w p) \<Longrightarrow>
    \<not> has_room (the_sub w p) \<Longrightarrow> \<not> sb_done (the_sub w p) \<Longrightarrow>
    pty_step w (w\<lparr>pw_hub := upd_sub (sub_stop (Some Subscriber_too_slow)) p (pw_hub w), pw_reader := Dropping chunk p (ps @ qs)\<rparr>)"
| drops: "pw_reader w = Dropping chunk p ps \<Longrightarrow>
    pty_step w (w\<lparr>pw_hub := drop_slow p (pw_hub w), pw_reader := Delivering chunk ps\<rparr>)"
| sent: "pw_reader w = Delivering chunk [] \<Longrightarrow> pty_step w (w\<lparr>pw_reader := Reading\<rparr>)"
| fails: "pw_reader w = Reading \<Longrightarrow> close_hub err (pw_hub w) = (h, ps) \<Longrightarrow>
    pty_step w (w\<lparr>pw_hub := h, pw_reader := Stopping (end_error err) ps\<rparr>)"
| stops: "pw_reader w = Stopping e (p # ps) \<Longrightarrow>
    pty_step w (w\<lparr>pw_hub := upd_sub (sub_stop (Some e)) p (pw_hub w), pw_reader := Stopping e ps\<rparr>)"
| finishes: "pw_reader w = Stopping e [] \<Longrightarrow> pty_step w (w\<lparr>pw_reader := Finished\<rparr>)"
| types: "p < length (pw_loops w) \<Longrightarrow> ls_pc (pw_loops w ! p) = Typing \<Longrightarrow> pty_step w (set_pc p Looking w)"
| interrupts: "p < length (pw_loops w) \<Longrightarrow> ls_pc (pw_loops w ! p) = Selecting watch \<Longrightarrow> sb_reliable (the_sub w p) \<Longrightarrow>
    pty_step w (set_pc p Typing w)"
| looks: "p < length (pw_loops w) \<Longrightarrow> ls_pc (pw_loops w ! p) = Looking \<Longrightarrow>
    pty_step w (set_pc p (Selecting (sb_ch (the_sub w p) = [])) w)"
| receives: "p < length (pw_loops w) \<Longrightarrow> ls_pc (pw_loops w ! p) = Selecting watch \<Longrightarrow> sb_ch (the_sub w p) = c # cs \<Longrightarrow>
    pty_step w (w\<lparr>pw_hub := upd_sub (\<lambda>s. s\<lparr>sb_ch := cs\<rparr>) p (pw_hub w),
      pw_loops := (pw_loops w)[p := (pw_loops w ! p)\<lparr>ls_pc := Looking, ls_got := ls_got (pw_loops w ! p) @ [c]\<rparr>]\<rparr>)"
| ends: "p < length (pw_loops w) \<Longrightarrow> ls_pc (pw_loops w ! p) = Selecting True \<Longrightarrow> sb_done (the_sub w p) \<Longrightarrow>
    subscriptionResultErr p (pw_hub w) = (h, r) \<Longrightarrow>
    pty_step w (set_pc p (Returned (Sub_ended r)) (w\<lparr>pw_hub := h\<rparr>))"
| leaves: "p < length (pw_loops w) \<Longrightarrow> ls_pc (pw_loops w ! p) \<in> {Typing, Looking, Selecting watch} \<Longrightarrow>
    pty_step w (set_pc p (Returned Own_reason) w)"
| unsubscribes: "p < length (pw_loops w) \<Longrightarrow> ls_pc (pw_loops w ! p) = Returned r \<Longrightarrow>
    pty_step w (set_pc p (Gone r) (w\<lparr>pw_hub := unsubscribe (sb_id (the_sub w p)) (pw_hub w)\<rparr>))"

abbreviation pty_reachable :: "pty_world \<Rightarrow> bool" where
  "pty_reachable \<equiv> pty_step\<^sup>*\<^sup>* start_world"

subsection \<open>The invariant of the hub\<close>

fun to_serve :: "reader \<Rightarrow> nat list" where
  "to_serve (Delivering c ps) = ps"
| "to_serve (Dropping c p ps) = ps"
| "to_serve r = []"

fun to_stop :: "reader \<Rightarrow> nat list" where
  "to_stop (Stopping e ps) = ps"
| "to_stop r = []"

fun at_end :: "reader \<Rightarrow> bool" where
  "at_end (Stopping e ps) = True"
| "at_end Finished = True"
| "at_end r = False"

fun slow_one :: "reader \<Rightarrow> nat option" where
  "slow_one (Dropping c p ps) = Some p"
| "slow_one r = None"

text \<open>
  Ids are unique while the hub is open, map entries point to subscribers that were not stopped (but for the
  one about to be deleted), and the reader's lists hold each subscriber once.
\<close>

definition hub_inv :: "reader \<Rightarrow> hub \<Rightarrow> bool" where
  "hub_inv rd h \<longleftrightarrow>
     distinct (map fst (hb_subscribers h)) \<and>
     (hb_closed h \<longleftrightarrow> at_end rd) \<and> (hb_closed h \<longrightarrow> hb_subscribers h = []) \<and>
     (\<not> hb_closed h \<longrightarrow> distinct (map sb_id (hb_heap h)) \<and> (\<forall>s\<in>set (hb_heap h). sb_id s < hb_nextSubID h)) \<and>
     (\<forall>i p. (i, p) \<in> set (hb_subscribers h) \<longrightarrow> p < length (hb_heap h) \<and> sb_id (hb_heap h ! p) = i \<and>
        (sb_done (hb_heap h ! p) \<longrightarrow> slow_one rd = Some p)) \<and>
     distinct (to_serve rd) \<and> (\<forall>p\<in>set (to_serve rd). p < length (hb_heap h)) \<and>
     (\<forall>p. slow_one rd = Some p \<longrightarrow> p < length (hb_heap h) \<and> p \<notin> set (to_serve rd) \<and> sb_done (hb_heap h ! p)) \<and>
     distinct (to_stop rd) \<and> (\<forall>p\<in>set (to_stop rd). p < length (hb_heap h) \<and> \<not> sb_done (hb_heap h ! p)) \<and>
     (\<forall>e ps. rd = Stopping e ps \<longrightarrow> e \<noteq> Subscriber_too_slow)"

lemma hub_invI:
  assumes "distinct (map fst (hb_subscribers h))" "hb_closed h \<longleftrightarrow> at_end rd" "hb_closed h \<Longrightarrow> hb_subscribers h = []"
    "\<not> hb_closed h \<Longrightarrow> distinct (map sb_id (hb_heap h))" "\<And>s. \<not> hb_closed h \<Longrightarrow> s \<in> set (hb_heap h) \<Longrightarrow> sb_id s < hb_nextSubID h"
    "\<And>i p. (i, p) \<in> set (hb_subscribers h) \<Longrightarrow> p < length (hb_heap h) \<and> sb_id (hb_heap h ! p) = i \<and>
       (sb_done (hb_heap h ! p) \<longrightarrow> slow_one rd = Some p)"
    "distinct (to_serve rd)" "\<And>p. p \<in> set (to_serve rd) \<Longrightarrow> p < length (hb_heap h)"
    "\<And>p. slow_one rd = Some p \<Longrightarrow> p < length (hb_heap h) \<and> p \<notin> set (to_serve rd) \<and> sb_done (hb_heap h ! p)"
    "distinct (to_stop rd)" "\<And>p. p \<in> set (to_stop rd) \<Longrightarrow> p < length (hb_heap h) \<and> \<not> sb_done (hb_heap h ! p)"
    "\<And>e ps. rd = Stopping e ps \<Longrightarrow> e \<noteq> Subscriber_too_slow"
  shows "hub_inv rd h"
  unfolding hub_inv_def using assms by blast

lemma hub_invD:
  assumes "hub_inv rd h"
  shows "distinct (map fst (hb_subscribers h))" "hb_closed h \<longleftrightarrow> at_end rd" "hb_closed h \<Longrightarrow> hb_subscribers h = []"
    "\<not> hb_closed h \<Longrightarrow> distinct (map sb_id (hb_heap h))" "\<And>s. \<not> hb_closed h \<Longrightarrow> s \<in> set (hb_heap h) \<Longrightarrow> sb_id s < hb_nextSubID h"
    "\<And>i p. (i, p) \<in> set (hb_subscribers h) \<Longrightarrow> p < length (hb_heap h) \<and> sb_id (hb_heap h ! p) = i \<and>
       (sb_done (hb_heap h ! p) \<longrightarrow> slow_one rd = Some p)"
    "distinct (to_serve rd)" "\<And>p. p \<in> set (to_serve rd) \<Longrightarrow> p < length (hb_heap h)"
    "\<And>p. slow_one rd = Some p \<Longrightarrow> p < length (hb_heap h) \<and> p \<notin> set (to_serve rd) \<and> sb_done (hb_heap h ! p)"
    "distinct (to_stop rd)" "\<And>p. p \<in> set (to_stop rd) \<Longrightarrow> p < length (hb_heap h) \<and> \<not> sb_done (hb_heap h ! p)"
    "\<And>e ps. rd = Stopping e ps \<Longrightarrow> e \<noteq> Subscriber_too_slow"
  using assms unfolding hub_inv_def by blast+

lemma pointers_distinct:
  assumes "hub_inv rd h"
  shows "distinct (map snd (hb_subscribers h))"
proof -
  have "inj_on snd (set (hb_subscribers h))"
    using hub_invD(6) [OF assms] by (metis inj_on_def prod.collapse)
  moreover have "distinct (hb_subscribers h)" using hub_invD(1) [OF assms] by (simp add: distinct_map)
  ultimately show ?thesis by (simp add: distinct_map)
qed

lemma upd_sub_simps [simp]:
  "hb_subscribers (upd_sub f p h) = hb_subscribers h" "hb_nextSubID (upd_sub f p h) = hb_nextSubID h"
  "hb_closed (upd_sub f p h) = hb_closed h" "hb_readErr (upd_sub f p h) = hb_readErr h"
  "length (hb_heap (upd_sub f p h)) = length (hb_heap h)"
  by (simp_all add: upd_sub_def)

lemma upd_sub_nth:
  "q < length (hb_heap h) \<Longrightarrow> hb_heap (upd_sub f p h) ! q = (if q = p then f (hb_heap h ! p) else hb_heap h ! q)"
  by (simp add: upd_sub_def nth_list_update)

lemma sub_stop_simps [simp]:
  "sb_id (sub_stop e s) = sb_id s" "sb_reliable (sub_stop e s) = sb_reliable s" "sb_ch (sub_stop e s) = sb_ch s"
  "sb_done (sub_stop e s)"
  "sb_done s \<Longrightarrow> sub_stop e s = s"
  by (simp_all add: sub_stop_def)

lemma pushed_simps [simp]:
  "sb_id (pushed c s) = sb_id s" "sb_reliable (pushed c s) = sb_reliable s" "sb_ch (pushed c s) = sb_ch s @ [c]"
  "sb_done (pushed c s) = sb_done s" "sb_err (pushed c s) = sb_err s"
  by (simp_all add: pushed_def)

text \<open>Changing the heap: ids stay, and whoever is newly stopped has no map entry, or one about to be deleted.\<close>

lemma hub_inv_heap:
  assumes inv: "hub_inv rd h" and ids: "map sb_id hs = map sb_id (hb_heap h)"
    and kept: "\<And>q. q < length (hb_heap h) \<Longrightarrow> sb_done (hb_heap h ! q) \<Longrightarrow> sb_done (hs ! q)"
    and stopped: "\<And>q. q < length (hb_heap h) \<Longrightarrow> sb_done (hs ! q) \<Longrightarrow> sb_done (hb_heap h ! q) \<or>
      (\<forall>i. (i, q) \<in> set (hb_subscribers h) \<longrightarrow> slow_one rd = Some q) \<and> q \<notin> set (to_stop rd)"
  shows "hub_inv rd (h\<lparr>hb_heap := hs\<rparr>)"
proof -
  note d = hub_invD [OF inv]
  have len: "length hs = length (hb_heap h)" using ids by (metis length_map)
  have id_eq: "sb_id (hs ! q) = sb_id (hb_heap h ! q)" if "q < length (hb_heap h)" for q
    using ids that len by (metis nth_map)
  have "sb_id ` set hs = sb_id ` set (hb_heap h)" using ids by (metis set_map)
  then have bound: "\<not> hb_closed h \<Longrightarrow> s \<in> set hs \<Longrightarrow> sb_id s < hb_nextSubID h" for s
    using d(5) by (metis image_iff)
  have entry: "p < length hs \<and> sb_id (hs ! p) = i \<and> (sb_done (hs ! p) \<longrightarrow> slow_one rd = Some p)"
    if "(i, p) \<in> set (hb_subscribers h)" for i p
    using d(6) [OF that] that stopped [of p] id_eq [of p] len by auto
  have "p < length hs \<and> \<not> sb_done (hs ! p)" if "p \<in> set (to_stop rd)" for p
    using d(11) [OF that] stopped [of p] that len by auto
  moreover have "p < length hs \<and> p \<notin> set (to_serve rd) \<and> sb_done (hs ! p)" if "slow_one rd = Some p" for p
    using d(9) [OF that] kept [of p] len by auto
  moreover have "distinct (map sb_id hs)" if "\<not> hb_closed h" using d(4) [OF that] ids by simp
  moreover have "\<forall>p\<in>set (to_serve rd). p < length hs" using d(8) len by simp
  ultimately show ?thesis using d(1,2,3,7,10,12) bound entry by (cases h) (simp only: hub_inv_def hub.simps, blast)
qed

lemma nth_upd: "q < length xs \<Longrightarrow> xs[p := x] ! q = (if q = p then x else xs ! q)"
  by (simp add: nth_list_update)

lemma upd_sub_alt: "upd_sub f p h = h\<lparr>hb_heap := (hb_heap h)[p := f (hb_heap h ! p)]\<rparr>"
  by (rule upd_sub_def)

lemma ids_list_update: "sb_id s = sb_id (hs ! p) \<Longrightarrow> map sb_id (hs[p := s]) = map sb_id hs"
  by (metis list_update_id map_update)

lemma hub_inv_upd:
  assumes "hub_inv rd h" "\<And>s. sb_id (f s) = sb_id s" "\<And>s. sb_done (f s) = sb_done s"
  shows "hub_inv rd (upd_sub f p h)"
  unfolding upd_sub_alt using assms
  by (intro hub_inv_heap ids_list_update) (auto simp: nth_upd split: if_split_asm)

lemma hub_inv_stop:
  assumes "hub_inv rd h" "\<And>i. (i, p) \<in> set (hb_subscribers h) \<Longrightarrow> slow_one rd = Some p" "p \<notin> set (to_stop rd)"
  shows "hub_inv rd (upd_sub (sub_stop e) p h)"
  unfolding upd_sub_alt using assms
  by (intro hub_inv_heap ids_list_update) (auto simp: nth_upd split: if_split_asm)

lemma AList_delete_entry: "(i, p) \<in> set (AList.delete k xs) \<longleftrightarrow> (i, p) \<in> set xs \<and> i \<noteq> k"
  by (induction xs) auto

lemma AList_update_fresh: "k \<notin> fst ` set xs \<Longrightarrow> AList.update k v xs = xs @ [(k, v)]"
  by (induction xs) auto

lemma distinct_ids_delete: "distinct (map fst xs) \<Longrightarrow> distinct (map fst (AList.delete k xs))"
  by (rule distinct_delete)

lemma hub_inv_subscribe:
  assumes "hub_inv rd h" "subscribe reliable h = (h', p)"
  shows "hub_inv rd h'"
proof -
  note d = hub_invD [OF assms(1)]
  have old: "(hb_heap h @ [s]) ! q = hb_heap h ! q" if "q < length (hb_heap h)" for q s using that by (simp add: nth_append)
  show ?thesis
  proof (cases "hb_closed h")
    case True
    then show ?thesis using assms(2) d(1,2,3,6-12)
      by (intro hub_invI) (auto simp: subscribe_def Let_def old nth_append less_SucI)
  next
    case False
    then have no_end: "\<not> at_end rd" "to_stop rd = []" using d(2) by (cases rd; simp)+
    have fresh: "hb_nextSubID h \<notin> fst ` set (hb_subscribers h)"
      using d(5,6) False by (metis imageE less_irrefl nth_mem prod.collapse)
    have h': "h' = h\<lparr>hb_heap := hb_heap h @ [\<lparr>sb_id = hb_nextSubID h, sb_reliable = reliable, sb_ch = [], sb_done = False, sb_err = None\<rparr>],
        hb_nextSubID := hb_nextSubID h + 1, hb_subscribers := hb_subscribers h @ [(hb_nextSubID h, length (hb_heap h))]\<rparr>"
      using assms(2) False AList_update_fresh [OF fresh] by (auto simp: subscribe_def Let_def)
    have ids: "hb_nextSubID h \<notin> sb_id ` set (hb_heap h)" using d(5) False by fastforce
    show ?thesis
    proof (rule hub_invI)
      show "(i, q) \<in> set (hb_subscribers h') \<Longrightarrow> q < length (hb_heap h') \<and> sb_id (hb_heap h' ! q) = i \<and>
          (sb_done (hb_heap h' ! q) \<longrightarrow> slow_one rd = Some q)" for i q
        using d(6) [of i q] by (auto simp: h' old)
      show "q \<in> set (to_serve rd) \<Longrightarrow> q < length (hb_heap h')" for q using d(8) [of q] by (simp add: h')
      show "slow_one rd = Some q \<Longrightarrow> q < length (hb_heap h') \<and> q \<notin> set (to_serve rd) \<and> sb_done (hb_heap h' ! q)" for q
        using d(9) [of q] by (simp add: h' old)
      show "s \<in> set (hb_heap h') \<Longrightarrow> sb_id s < hb_nextSubID h'" for s
        using d(5) [of s] False by (auto simp: h')
    qed (use d(1,2,7,10,12) d(4) [OF False] False no_end fresh ids in \<open>auto simp: h'\<close>)
  qed
qed

lemma hub_inv_unsubscribe:
  assumes "hub_inv rd h"
  shows "hub_inv rd (unsubscribe i h)"
proof -
  let ?h = "h\<lparr>hb_subscribers := AList.delete i (hb_subscribers h)\<rparr>"
  note d = hub_invD [OF assms]
  have del: "hub_inv rd ?h"
    using d by (intro hub_invI) (auto simp: AList_delete_entry distinct_ids_delete)
  show ?thesis
  proof (cases "map_of (hb_subscribers h) i")
    case (Some p)
    then have e: "(i, p) \<in> set (hb_subscribers h)" by (rule map_of_SomeD)
    then have "to_stop rd = []" using d(2,3) by (cases rd) auto
    moreover have "(j, p) \<notin> set (hb_subscribers ?h)" for j
      using d(6) e by (auto simp: AList_delete_entry)
    ultimately have "hub_inv rd (upd_sub (sub_stop None) p ?h)" using del by (intro hub_inv_stop) simp_all
    then show ?thesis using Some by (simp add: unsubscribe_def)
  qed (use del in \<open>simp add: unsubscribe_def\<close>)
qed

lemma hub_inv_drop_slow:
  assumes "hub_inv (Dropping c p ps) h"
  shows "hub_inv (Delivering c ps) (drop_slow p h)"
proof -
  note d = hub_invD [OF assms]
  have "\<exists>i. (i, p) \<in> set (hb_subscribers h) \<Longrightarrow> map_of (hb_subscribers h) (sb_id (hb_heap h ! p)) = Some p"
    using d(1,6) by (metis map_of_is_SomeI)
  then have gone: "\<nexists>i. (i, p) \<in> set (hb_subscribers (drop_slow p h))"
    using d(6) by (auto simp: drop_slow_def Let_def AList_delete_entry)
  have sub: "set (hb_subscribers (drop_slow p h)) \<subseteq> set (hb_subscribers h)"
    and heap: "hb_heap (drop_slow p h) = hb_heap h" "hb_closed (drop_slow p h) = hb_closed h" "hb_nextSubID (drop_slow p h) = hb_nextSubID h"
    by (auto simp: drop_slow_def Let_def AList_delete_entry)
  show ?thesis
  proof (rule hub_invI)
    show "(i, q) \<in> set (hb_subscribers (drop_slow p h)) \<Longrightarrow> q < length (hb_heap (drop_slow p h)) \<and>
        sb_id (hb_heap (drop_slow p h) ! q) = i \<and> (sb_done (hb_heap (drop_slow p h) ! q) \<longrightarrow> slow_one (Delivering c ps) = Some q)" for i q
      using d(6) [of i q] sub gone by (auto simp: heap)
    show "distinct (map fst (hb_subscribers (drop_slow p h)))"
      using d(1) by (simp add: drop_slow_def Let_def distinct_ids_delete)
  qed (use d(2-5,7,8) sub in \<open>auto simp: heap\<close>)
qed

lemma hub_inv_close:
  assumes "hub_inv Reading h" "close_hub err h = (h', ps)"
  shows "hub_inv (Stopping (end_error err) ps) h'" "hb_closed h'" "ps = map snd (hb_subscribers h)" "hb_heap h' = hb_heap h"
proof -
  note d = hub_invD [OF assms(1)]
  have eq: "h' = h\<lparr>hb_closed := True, hb_readErr := err, hb_subscribers := []\<rparr>" "ps = map snd (hb_subscribers h)"
    using assms(2) d(2) by (simp_all add: close_hub_def)
  show "hub_inv (Stopping (end_error err) ps) h'"
    using d pointers_distinct [OF assms(1)] by (intro hub_invI) (auto simp: eq end_error_def split: option.splits)
  show "hb_closed h'" "ps = map snd (hb_subscribers h)" "hb_heap h' = hb_heap h" by (simp_all add: eq)
qed

lemma hub_inv_slow:
  assumes "hub_inv (Delivering c qs) h" "p < length (hb_heap h)" "p \<notin> set qs"
  shows "hub_inv (Dropping c p qs) (upd_sub (sub_stop e) p h)"
proof -
  note d = hub_invD [OF assms(1)]
  have ids: "map sb_id (hb_heap (upd_sub (sub_stop e) p h)) = map sb_id (hb_heap h)"
    by (simp add: upd_sub_def ids_list_update)
  then have set_ids: "sb_id ` set (hb_heap (upd_sub (sub_stop e) p h)) = sb_id ` set (hb_heap h)" by (metis set_map)
  have bound: "sb_id s < hb_nextSubID h" if "\<not> hb_closed h" "s \<in> set (hb_heap (upd_sub (sub_stop e) p h))" for s
  proof -
    from that(2) have "sb_id s \<in> sb_id ` set (hb_heap h)" using set_ids by blast
    then show ?thesis using d(5) [OF that(1)] by auto
  qed
  show ?thesis
  proof (rule hub_invI)
    show "(i, q) \<in> set (hb_subscribers (upd_sub (sub_stop e) p h)) \<Longrightarrow> q < length (hb_heap (upd_sub (sub_stop e) p h)) \<and>
        sb_id (hb_heap (upd_sub (sub_stop e) p h) ! q) = i \<and>
        (sb_done (hb_heap (upd_sub (sub_stop e) p h) ! q) \<longrightarrow> slow_one (Dropping c p qs) = Some q)" for i q
      using d(6) [of i q] by (auto simp: upd_sub_nth)
    show "\<not> hb_closed (upd_sub (sub_stop e) p h) \<Longrightarrow> distinct (map sb_id (hb_heap (upd_sub (sub_stop e) p h)))"
      unfolding ids using d(4) by simp
    show "s \<in> set (hb_heap (upd_sub (sub_stop e) p h)) \<Longrightarrow> sb_id s < hb_nextSubID (upd_sub (sub_stop e) p h)"
      if "\<not> hb_closed (upd_sub (sub_stop e) p h)" for s using bound that by simp
  qed (use d(1,2,3,7,8) assms(2,3) in \<open>simp_all add: upd_sub_nth, blast?\<close>)
qed

lemma pty_step_hub_inv:
  assumes "pty_step w w'" "hub_inv (pw_reader w) (pw_hub w)"
  shows "hub_inv (pw_reader w') (pw_hub w')"
  using assms
proof cases
  case (sends chunk ps p qs)
  from assms(2) have "hub_inv (Delivering chunk (ps @ qs)) (pw_hub w)" using sends(2) by (auto simp: hub_inv_def)
  then show ?thesis using sends(1) by (simp add: hub_inv_upd)
next
  case (stops_slow chunk ps p qs)
  from assms(2) have "hub_inv (Delivering chunk (ps @ qs)) (pw_hub w)" "p < length (hb_heap (pw_hub w))" "p \<notin> set (ps @ qs)"
    using stops_slow(2) by (auto simp: hub_inv_def)
  from hub_inv_slow [OF this] show ?thesis using stops_slow(1) by simp
next
  case (stops e p ps)
  from assms(2) have "hub_inv (Stopping e ps) (pw_hub w)" "p \<notin> set ps" "hb_subscribers (pw_hub w) = []"
    using stops(2) by (auto simp: hub_inv_def)
  then have "hub_inv (Stopping e ps) (upd_sub (sub_stop (Some e)) p (pw_hub w))" by (intro hub_inv_stop) simp_all
  then show ?thesis using stops(1) by simp
next
  case (receives p watch c cs)
  then show ?thesis using assms(2) by (simp add: hub_inv_upd)
next
  case (ends p h r)
  then show ?thesis using assms(2)
    by (auto simp: subscriptionResultErr_def hub_inv_upd split: option.splits)
next
  case (reads chunk)
  then show ?thesis using assms(2) pointers_distinct [OF assms(2)] by (auto simp: hub_inv_def)
next
  case (skips chunk ps p qs)
  then show ?thesis using assms(2) by (simp add: hub_inv_def)
next
  case (sent chunk)
  then show ?thesis using assms(2) by (simp add: hub_inv_def)
next
  case (finishes e)
  then show ?thesis using assms(2) by (simp add: hub_inv_def)
qed (auto simp: hub_inv_subscribe hub_inv_unsubscribe hub_inv_drop_slow hub_inv_close)

subsection \<open>What a subscriber gets\<close>

fun current_chunk :: "reader \<Rightarrow> string" where
  "current_chunk (Delivering c ps) = c"
| "current_chunk (Dropping c p ps) = c"
| "current_chunk r = []"

text \<open>Everything broadcast since it subscribed, and what it received or still has in its channel.\<close>

definition owed :: "string list \<Rightarrow> loop_state \<Rightarrow> string list" where
  "owed log c = drop (ls_from c) log"

definition seen :: "subscriber \<Rightarrow> loop_state \<Rightarrow> string list" where
  "seen s c = ls_got c @ sb_ch s"

text \<open>Why it was stopped: the error that is still in its channel, or that the loop has returned.\<close>

definition stop_reason :: "subscriber \<Rightarrow> loop_state \<Rightarrow> sub_error option" where
  "stop_reason s c = (case ls_pc c of Returned (Sub_ended r) \<Rightarrow> r | Gone (Sub_ended r) \<Rightarrow> r | _ \<Rightarrow> sb_err s)"

definition reason_ok :: "bool \<Rightarrow> string list \<Rightarrow> subscriber \<Rightarrow> loop_state \<Rightarrow> bool" where
  "reason_ok closed log s c \<longleftrightarrow>
     (\<exists>e. stop_reason s c = Some e \<and>
       (if e = Subscriber_too_slow then \<not> sb_reliable s else closed \<and> seen s c = owed log c))"

definition loop_ok :: "reader \<Rightarrow> bool \<Rightarrow> (nat \<times> nat) list \<Rightarrow> string list \<Rightarrow> nat \<Rightarrow> subscriber \<Rightarrow> loop_state \<Rightarrow> bool" where
  "loop_ok rd closed subs log p s c \<longleftrightarrow>
     ls_from c \<le> length log \<and> length (sb_ch s) \<le> sub_capacity \<and>
     (if p \<in> set (to_serve rd) then seen s c @ [current_chunk rd] = owed log c
      else prefix (seen s c) (owed log c) \<and> (\<not> sb_done s \<longrightarrow> seen s c = owed log c)) \<and>
     (sb_done s \<or> p \<in> snd ` set subs \<or> p \<in> set (to_stop rd)) \<and>
     (sb_done s \<and> ls_pc c \<noteq> Gone Own_reason \<longrightarrow> reason_ok closed log s c) \<and>
     ((\<exists>r. ls_pc c = Returned (Sub_ended r) \<or> ls_pc c = Gone (Sub_ended r)) \<longrightarrow> sb_done s) \<and>
     ((\<exists>r. ls_pc c = Gone r) \<longrightarrow> p \<notin> snd ` set subs)"

definition pty_inv :: "pty_world \<Rightarrow> bool" where
  "pty_inv w \<longleftrightarrow> hub_inv (pw_reader w) (pw_hub w) \<and> length (pw_loops w) = length (hb_heap (pw_hub w)) \<and>
     (\<forall>p<length (pw_loops w).
        loop_ok (pw_reader w) (hb_closed (pw_hub w)) (hb_subscribers (pw_hub w)) (pw_log w) p (the_sub w p) (pw_loops w ! p))"

lemma loop_ok_step:
  assumes "loop_ok rd closed subs log p s c"
    and "p \<in> set (to_serve rd') \<longleftrightarrow> p \<in> set (to_serve rd)" "p \<in> set (to_serve rd) \<Longrightarrow> current_chunk rd' = current_chunk rd"
    and "closed \<Longrightarrow> closed'" "p \<in> snd ` set subs \<Longrightarrow> p \<in> snd ` set subs' \<or> p \<in> set (to_stop rd') \<or> sb_done s"
    and "p \<in> set (to_stop rd) \<Longrightarrow> p \<in> set (to_stop rd') \<or> sb_done s"
    and "p \<in> snd ` set subs' \<Longrightarrow> p \<in> snd ` set subs"
  shows "loop_ok rd' closed' subs' log p s c"
  using assms unfolding loop_ok_def reason_ok_def by (auto split: if_split_asm)

lemma stop_reason_cong: "sb_err s = sb_err s' \<Longrightarrow> stop_reason s c = stop_reason s' c"
  by (simp add: stop_reason_def split: receiver.split loop_end.split)

lemma stop_reason_pushed [simp]: "stop_reason (pushed x s) c = stop_reason s c"
  by (rule stop_reason_cong) simp

text \<open>A loop moves on, or takes a chunk out of its channel.\<close>

lemma seen_pc [simp]: "seen s (c\<lparr>ls_pc := pc\<rparr>) = seen s c" "owed log (c\<lparr>ls_pc := pc\<rparr>) = owed log c"
  by (simp_all add: seen_def owed_def)

lemma reason_ok_cong:
  "seen s' c' = seen s c \<Longrightarrow> owed log c' = owed log c \<Longrightarrow> stop_reason s' c' = stop_reason s c \<Longrightarrow>
     sb_reliable s' = sb_reliable s \<Longrightarrow> reason_ok closed log s' c' = reason_ok closed log s c"
  by (simp add: reason_ok_def)

lemma loop_ok_pc:
  assumes "loop_ok rd closed subs log p s c" "ls_pc c \<in> {Typing, Looking, Selecting watch}"
    and "pc \<in> {Typing, Looking, Selecting watch', Returned Own_reason}"
  shows "loop_ok rd closed subs log p s (c\<lparr>ls_pc := pc\<rparr>)"
proof -
  have "stop_reason s (c\<lparr>ls_pc := pc\<rparr>) = stop_reason s c" using assms(2,3) by (auto simp: stop_reason_def)
  then have "reason_ok closed log s (c\<lparr>ls_pc := pc\<rparr>) = reason_ok closed log s c" by (intro reason_ok_cong) simp_all
  then show ?thesis using assms unfolding loop_ok_def by auto
qed

lemma loop_ok_receive:
  assumes "loop_ok rd closed subs log p s c" "ls_pc c = Selecting watch" "sb_ch s = x # cs"
  shows "loop_ok rd closed subs log p (s\<lparr>sb_ch := cs\<rparr>) (c\<lparr>ls_pc := Looking, ls_got := ls_got c @ [x]\<rparr>)"
proof -
  have "seen (s\<lparr>sb_ch := cs\<rparr>) (c\<lparr>ls_pc := Looking, ls_got := ls_got c @ [x]\<rparr>) = seen s c"
    "owed log (c\<lparr>ls_pc := Looking, ls_got := ls_got c @ [x]\<rparr>) = owed log c"
    "stop_reason (s\<lparr>sb_ch := cs\<rparr>) (c\<lparr>ls_pc := Looking, ls_got := ls_got c @ [x]\<rparr>) = stop_reason s c"
    using assms(2,3) by (simp_all add: seen_def owed_def stop_reason_def)
  moreover from this have "reason_ok closed log (s\<lparr>sb_ch := cs\<rparr>) (c\<lparr>ls_pc := Looking, ls_got := ls_got c @ [x]\<rparr>) = reason_ok closed log s c"
    by (intro reason_ok_cong) simp_all
  ultimately show ?thesis using assms by (simp add: loop_ok_def)
qed

lemma loop_ok_ended:
  assumes "loop_ok rd closed subs log p s c" "ls_pc c = Selecting True" "sb_err s = Some e" "sb_done s"
  shows "loop_ok rd closed subs log p (s\<lparr>sb_err := None\<rparr>) (c\<lparr>ls_pc := Returned (Sub_ended (Some e))\<rparr>)"
proof -
  have "seen (s\<lparr>sb_err := None\<rparr>) c = seen s c" by (simp add: seen_def)
  then show ?thesis using assms by (simp add: loop_ok_def reason_ok_def stop_reason_def)
qed

lemma loop_ok_gone:
  assumes "loop_ok rd closed subs log p s c" "ls_pc c = Returned r" "s' = s \<or> s' = sub_stop None s"
    and "sb_done s' \<or> p \<in> set (to_stop rd)" "p \<notin> snd ` set subs'"
  shows "loop_ok rd closed subs' log p s' (c\<lparr>ls_pc := Gone r\<rparr>)"
proof -
  have frame: "seen s' c = seen s c" "sb_ch s' = sb_ch s" "sb_reliable s' = sb_reliable s" "sb_done s \<longrightarrow> sb_done s'"
    using assms(3) by (auto simp: seen_def)
  have "reason_ok closed log s' (c\<lparr>ls_pc := Gone r\<rparr>) \<and> sb_done s'" if not_own: "r \<noteq> Own_reason"
  proof -
    obtain e where r: "r = Sub_ended e" using not_own by (cases r) simp_all
    then have "reason_ok closed log s c" "sb_done s" using assms(1,2) by (auto simp: loop_ok_def)
    moreover have "stop_reason s' (c\<lparr>ls_pc := Gone r\<rparr>) = stop_reason s c" using assms(2) r by (simp add: stop_reason_def)
    ultimately show ?thesis using frame reason_ok_cong [of s' "c\<lparr>ls_pc := Gone r\<rparr>" s c log closed] by simp
  qed
  moreover have "\<not> sb_done s' \<longrightarrow> \<not> sb_done s" using frame by blast
  ultimately show ?thesis using assms(1,4,5) frame unfolding loop_ok_def by auto
qed

lemma updated_value: "v \<in> snd ` set (AList.update k v xs)"
  by (induction xs) auto

lemma new_loop_ok:
  assumes "subscribe reliable h = (h', p)" "hub_inv rd h" "pc = Typing \<or> pc = Looking"
  shows "loop_ok rd (hb_closed h') (hb_subscribers h') log p (hb_heap h' ! p)
    \<lparr>ls_pc = pc, ls_from = length log, ls_got = []\<rparr>"
proof -
  have n: "length (hb_heap h) \<notin> set (to_serve rd)" using hub_invD(8) [OF assms(2)] by auto
  show ?thesis
  proof (cases "hb_closed h")
    case True
    have e: "end_error (hb_readErr h) \<noteq> Subscriber_too_slow" by (simp add: end_error_def split: option.split)
    have "p = length (hb_heap h)" "hb_closed h'" "hb_heap h' ! p =
        \<lparr>sb_id = 0, sb_reliable = reliable, sb_ch = [], sb_done = True, sb_err = Some (end_error (hb_readErr h))\<rparr>"
      using assms(1) True by (auto simp: subscribe_def Let_def sub_stop_def)
    note sub = this
    from assms(3) show ?thesis
      by (elim disjE; hypsubst) (use sub n e in \<open>simp add: loop_ok_def reason_ok_def seen_def owed_def stop_reason_def\<close>)+
  next
    case False
    from assms(3) show ?thesis
      by (elim disjE; hypsubst)
        (use assms(1) n False updated_value [of "length (hb_heap h)" "hb_nextSubID h" "hb_subscribers h"] in
          \<open>auto simp: subscribe_def Let_def loop_ok_def seen_def owed_def sub_capacity_def\<close>)
  qed
qed

lemma subscribe_entries:
  assumes "hub_inv rd h" "subscribe reliable h = (h', p)"
  shows "snd ` set (hb_subscribers h) \<subseteq> snd ` set (hb_subscribers h') \<and>
    snd ` set (hb_subscribers h') \<subseteq> snd ` set (hb_subscribers h) \<union> {p}"
proof (cases "hb_closed h")
  case False
  have "hb_nextSubID h \<notin> fst ` set (hb_subscribers h)"
    using hub_invD(5,6) [OF assms(1)] False by (metis imageE less_irrefl nth_mem prod.collapse)
  then show ?thesis using assms(2) False by (auto simp: subscribe_def Let_def AList_update_fresh)
qed (use assms(2) in \<open>auto simp: subscribe_def Let_def\<close>)

lemma others_entry:
  assumes "hub_inv rd h" "p < length (hb_heap h)" "q < length (hb_heap h)" "q \<noteq> p" "q \<in> snd ` set (hb_subscribers h)"
  shows "q \<in> snd ` set (AList.delete (sb_id (hb_heap h ! p)) (hb_subscribers h))"
proof -
  obtain i where i: "(i, q) \<in> set (hb_subscribers h)" using assms(5) by auto
  then have "\<not> hb_closed h" using hub_invD(3) [OF assms(1)] by auto
  then have "sb_id (hb_heap h ! q) \<noteq> sb_id (hb_heap h ! p)"
    using hub_invD(4) [OF assms(1)] assms(2-4) by (simp add: distinct_conv_nth)
  then show ?thesis using i hub_invD(6) [OF assms(1) i] by (auto simp: AList_delete_entry image_iff intro!: bexI [of _ "(i, q)"])
qed

lemma unsubscribe_self:
  assumes "hub_inv rd h" "p < length (hb_heap h)"
  shows "map_of (hb_subscribers h) (sb_id (hb_heap h ! p)) = Some q \<Longrightarrow> q = p"
proof -
  assume "map_of (hb_subscribers h) (sb_id (hb_heap h ! p)) = Some q"
  then have e: "(sb_id (hb_heap h ! p), q) \<in> set (hb_subscribers h)" by (rule map_of_SomeD)
  then have "\<not> hb_closed h" using hub_invD(3) [OF assms(1)] by auto
  then show "q = p" using hub_invD(4) [OF assms(1)] hub_invD(6) [OF assms(1) e] assms(2) by (auto simp: distinct_conv_nth)
qed

lemma entry_of:
  assumes "hub_inv rd h" "p \<in> snd ` set (hb_subscribers h)"
  shows "map_of (hb_subscribers h) (sb_id (hb_heap h ! p)) = Some p"
  using assms(2) hub_invD(1,6) [OF assms(1)] by (auto simp: map_of_is_SomeI)

text \<open>Own step of a loop: only its place changes, or it takes a chunk from its channel.\<close>

lemma pty_invI:
  assumes "pty_step w w'" "pty_inv w" "length (pw_loops w') = length (hb_heap (pw_hub w'))"
    and "\<And>p. p < length (pw_loops w') \<Longrightarrow>
      loop_ok (pw_reader w') (hb_closed (pw_hub w')) (hb_subscribers (pw_hub w')) (pw_log w') p (the_sub w' p) (pw_loops w' ! p)"
  shows "pty_inv w'"
  using assms pty_step_hub_inv [OF assms(1)] by (simp add: pty_inv_def)

lemma pty_inv_step:
  assumes step: "pty_step w w'" and inv: "pty_inv w"
  shows "pty_inv w'"
proof (rule pty_invI [OF step inv])
  have hub: "hub_inv (pw_reader w) (pw_hub w)" and len: "length (pw_loops w) = length (hb_heap (pw_hub w))"
    and ok: "\<And>p. p < length (pw_loops w) \<Longrightarrow>
      loop_ok (pw_reader w) (hb_closed (pw_hub w)) (hb_subscribers (pw_hub w)) (pw_log w) p (the_sub w p) (pw_loops w ! p)"
    using inv by (simp_all add: pty_inv_def)
  show "length (pw_loops w') = length (hb_heap (pw_hub w'))"
    using step len hub hub_inv_close(4) [of "pw_hub w"]
    by cases (auto simp: subscribe_def Let_def unsubscribe_def drop_slow_def subscriptionResultErr_def split: if_splits option.splits)
  fix q
  assume q: "q < length (pw_loops w')"
  from step show "loop_ok (pw_reader w') (hb_closed (pw_hub w')) (hb_subscribers (pw_hub w')) (pw_log w') q (the_sub w' q) (pw_loops w' ! q)"
  proof cases
    case (subscribes reliable h p pc)
    from subscribes(2) have p: "p = length (hb_heap (pw_hub w))" "hb_heap h = hb_heap (pw_hub w) @ [hb_heap h ! p]" "hb_closed h = hb_closed (pw_hub w)"
      by (auto simp: subscribe_def Let_def split: if_split_asm)
    note entries = subscribe_entries [OF hub subscribes(2)]
    have pc: "pc = Typing \<or> pc = Looking" using subscribes(3) by blast
    show ?thesis
    proof (cases "q = p")
      case True
      then show ?thesis using new_loop_ok [OF subscribes(2) hub, of pc] subscribes(1) pc p(1) len by (simp add: nth_append)
    next
      case False
      then have "q < length (pw_loops w)" using q subscribes(1) p(1) len by simp
      moreover from this have "the_sub w' q = the_sub w q"
        using subscribes(1) p(2) len by (metis nth_append pty_world.select_convs(1) pty_world.surjective pty_world.update_convs(1,4))
      moreover have "q \<in> snd ` set (hb_subscribers h) \<longleftrightarrow> q \<in> snd ` set (hb_subscribers (pw_hub w))"
        using entries False by blast
      ultimately show ?thesis using loop_ok_step [OF ok, of q "pw_reader w" "hb_closed h" "hb_subscribers h"] subscribes(1) p(3)
        by (auto simp: nth_append)
    qed
  next
    case (reads chunk)
    have n: "\<not> hb_closed (pw_hub w)" "slow_one (pw_reader w) = None" using hub_invD(2) [OF hub] reads(2) by simp_all
    have live: "\<not> sb_done (the_sub w q)" if "q \<in> snd ` set (hb_subscribers (pw_hub w))"
      using that hub_invD(6) [OF hub] n(2) by auto
    have q': "q < length (pw_loops w)" and same: "pw_hub w' = pw_hub w" "pw_loops w' = pw_loops w" using q reads(1) by simp_all
    note old = ok [OF q', unfolded loop_ok_def]
    have more: "owed (pw_log w') (pw_loops w ! q) = owed (pw_log w) (pw_loops w ! q) @ [chunk]"
      using old reads(1) by (simp add: owed_def)
    show ?thesis
    proof (cases "q \<in> snd ` set (hb_subscribers (pw_hub w))")
      case True
      then have "q \<in> set (to_serve (pw_reader w'))" "current_chunk (pw_reader w') = chunk" using reads(1) by simp_all
      then show ?thesis using old live [OF True] more True reads(1,2) by (simp add: loop_ok_def)
    next
      case False
      then have halted: "sb_done (the_sub w q)" "q \<notin> set (to_serve (pw_reader w'))" using old reads(1,2) by auto
      moreover have "reason_ok (hb_closed (pw_hub w)) (pw_log w') (the_sub w q) (pw_loops w ! q)"
        if "ls_pc (pw_loops w ! q) \<noteq> Gone Own_reason"
        using old halted(1) that n(1) by (auto simp: reason_ok_def split: if_split_asm)
      ultimately show ?thesis using old more reads(1,2) by (simp add: loop_ok_def same prefix_prefix)
    qed
  next
    case (sends chunk ps p qs)
    have q': "q < length (pw_loops w)" and open_hub: "\<not> hb_closed (pw_hub w)" and once: "p \<notin> set (ps @ qs)"
      using q sends(1,2) hub_invD(2,7) [OF hub] by simp_all
    note old = ok [OF q']
    show ?thesis
    proof (cases "q = p")
      case True
      have "seen (the_sub w p) (pw_loops w ! p) @ [chunk] = owed (pw_log w) (pw_loops w ! p)"
        using old True sends(2) by (simp add: loop_ok_def)
      then have "seen (the_sub w' p) (pw_loops w ! p) = owed (pw_log w) (pw_loops w ! p)"
        using sends(1) True q' len by (simp add: seen_def upd_sub_nth)
      then show ?thesis using old True sends q' len once open_hub
        by (simp add: loop_ok_def upd_sub_nth has_room_def reason_ok_def split: if_split_asm)
    next
      case False
      then show ?thesis using loop_ok_step [OF old, of "pw_reader w'"] sends(1,2) q' len by (simp add: upd_sub_nth)
    qed
  next
    case (skips chunk ps p qs)
    have q': "q < length (pw_loops w)" and once: "p \<notin> set (ps @ qs)" using q skips(1,2) hub_invD(7) [OF hub] by simp_all
    note old = ok [OF q']
    show ?thesis
    proof (cases "q = p")
      case True
      have "seen (the_sub w p) (pw_loops w ! p) @ [chunk] = owed (pw_log w) (pw_loops w ! p)"
        using old True skips(2) by (simp add: loop_ok_def)
      then have "prefix (seen (the_sub w p) (pw_loops w ! p)) (owed (pw_log w) (pw_loops w ! p))" by (metis prefixI)
      then show ?thesis using old True skips once by (simp add: loop_ok_def)
    next
      case False
      then show ?thesis using loop_ok_step [OF old, of "pw_reader w'"] skips(1,2) by simp
    qed
  next
    case (stops_slow chunk ps p qs)
    have q': "q < length (pw_loops w)" and once: "p \<notin> set (ps @ qs)" using q stops_slow(1,2) hub_invD(7) [OF hub] by simp_all
    note old = ok [OF q']
    show ?thesis
    proof (cases "q = p")
      case True
      have sub: "the_sub w' p = (the_sub w p)\<lparr>sb_done := True, sb_err := Some Subscriber_too_slow\<rparr>"
        using stops_slow(1,5) True q' len by (simp add: upd_sub_nth sub_stop_def)
      have "seen (the_sub w p) (pw_loops w ! p) @ [chunk] = owed (pw_log w) (pw_loops w ! p)"
        using old True stops_slow(2) by (simp add: loop_ok_def)
      then have "prefix (seen (the_sub w p) (pw_loops w ! p)) (owed (pw_log w) (pw_loops w ! p))" by (metis prefixI)
      then have "prefix (seen (the_sub w' p) (pw_loops w ! p)) (owed (pw_log w) (pw_loops w ! p))" by (simp add: sub seen_def)
      moreover have "stop_reason (the_sub w' p) (pw_loops w ! p) = Some Subscriber_too_slow"
        using old True stops_slow(5) by (auto simp: sub stop_reason_def loop_ok_def split: receiver.split loop_end.split)
      moreover have "pw_loops w' = pw_loops w" "pw_log w' = pw_log w" "hb_subscribers (pw_hub w') = hb_subscribers (pw_hub w)"
        "q \<notin> set (to_serve (pw_reader w'))" using stops_slow(1) True once by simp_all
      moreover have "p \<notin> set (to_stop (pw_reader w))" "p \<in> set (to_serve (pw_reader w))" "ls_pc (pw_loops w ! p) \<noteq> Returned (Sub_ended r)"
        "ls_pc (pw_loops w ! p) \<noteq> Gone (Sub_ended r)" for r
        using old True stops_slow(2,5) by (auto simp: loop_ok_def)
      ultimately show ?thesis using old unfolding True loop_ok_def reason_ok_def by (simp add: sub stops_slow(3))
    next
      case False
      then show ?thesis using loop_ok_step [OF old, of "pw_reader w'"] stops_slow(1,2) q' len by (simp add: upd_sub_nth)
    qed
  next
    case (drops chunk p ps)
    have p: "p < length (hb_heap (pw_hub w))" "sb_done (the_sub w p)" using hub_invD(9) [OF hub, of p] drops(2) by simp_all
    have "q \<in> snd ` set (hb_subscribers (drop_slow p (pw_hub w))) \<or> sb_done (the_sub w q)"
      if "q \<in> snd ` set (hb_subscribers (pw_hub w))"
      using others_entry [OF hub p(1), of q] that p(2) q drops(1) len by (cases "q = p") (auto simp: drop_slow_def Let_def)
    moreover have "snd ` set (hb_subscribers (drop_slow p (pw_hub w))) \<subseteq> snd ` set (hb_subscribers (pw_hub w))"
      by (auto simp: drop_slow_def Let_def AList_delete_entry)
    moreover have "hb_heap (drop_slow p (pw_hub w)) = hb_heap (pw_hub w)" "hb_closed (drop_slow p (pw_hub w)) = hb_closed (pw_hub w)"
      by (simp_all add: drop_slow_def Let_def)
    ultimately show ?thesis using loop_ok_step [OF ok, of q "Delivering chunk ps" "hb_closed (pw_hub w)" "hb_subscribers (drop_slow p (pw_hub w))"] q drops by auto
  next
    case (sent chunk)
    then show ?thesis using ok [of q] q by (auto simp: loop_ok_def)
  next
    case (fails err h ps)
    note c = hub_inv_close [OF hub [unfolded fails(2)] fails(3)]
    have "hb_subscribers h = []" using hub_invD(3) [OF c(1)] c(2) by simp
    then show ?thesis using loop_ok_step [OF ok, of q "pw_reader w'" True "[]"] q fails(1,2) c(2-4) by auto
  next
    case (stops e p ps)
    have p: "\<not> sb_done (the_sub w p)" "hb_closed (pw_hub w)" "e \<noteq> Subscriber_too_slow"
      using hub_invD(2,11,12) [OF hub] stops(2) by auto
    have q': "q < length (pw_loops w)" using q stops(1) by simp
    note old = ok [OF q']
    show ?thesis
    proof (cases "q = p")
      case True
      have sub: "the_sub w' p = (the_sub w p)\<lparr>sb_done := True, sb_err := Some e\<rparr>"
        using stops(1) p(1) True q' len by (simp add: upd_sub_nth sub_stop_def)
      have "seen (the_sub w p) (pw_loops w ! p) = owed (pw_log w) (pw_loops w ! p)"
        using old True stops(2) p(1) by (simp add: loop_ok_def)
      then have "seen (the_sub w' p) (pw_loops w ! p) = owed (pw_log w) (pw_loops w ! p)" by (simp add: sub seen_def)
      moreover have "stop_reason (the_sub w' p) (pw_loops w ! p) = Some e"
        using old True p(1) by (auto simp: sub stop_reason_def loop_ok_def split: receiver.split loop_end.split)
      moreover have "pw_loops w' = pw_loops w" "pw_log w' = pw_log w" "hb_closed (pw_hub w')" "hb_subscribers (pw_hub w') = hb_subscribers (pw_hub w)"
        "q \<notin> set (to_serve (pw_reader w'))" using stops(1) p(2) True by simp_all
      ultimately show ?thesis using old p(3) stops(2) unfolding True loop_ok_def reason_ok_def by (simp add: sub)
    next
      case False
      then show ?thesis using loop_ok_step [OF old, of "pw_reader w'"] stops(1,2) q' len by (simp add: upd_sub_nth)
    qed
  next
    case (finishes e)
    then show ?thesis using ok [of q] q by (auto simp: loop_ok_def)
  next
    case (types p)
    then show ?thesis using ok [of q] q loop_ok_pc [OF ok [OF types(2)], of _ Looking]
      by (cases "q = p") simp_all
  next
    case (interrupts p watch)
    then show ?thesis using ok [of q] q loop_ok_pc [OF ok [OF interrupts(2)], of watch Typing]
      by (cases "q = p") simp_all
  next
    case (looks p)
    then show ?thesis using ok [of q] q loop_ok_pc [OF ok, of p]
      by (cases "q = p") simp_all
  next
    case (receives p watch c cs)
    then show ?thesis using ok [of q] q len loop_ok_receive [OF ok [OF receives(2)] receives(3,4)]
      by (cases "q = p") (simp_all add: upd_sub_nth)
  next
    case (ends p h r)
    obtain e where "sb_err (the_sub w p) = Some e"
      using ok [OF ends(2)] ends(3,4) by (auto simp: loop_ok_def reason_ok_def stop_reason_def)
    moreover from this have "h = upd_sub (\<lambda>s. s\<lparr>sb_err := None\<rparr>) p (pw_hub w)" "r = Some e"
      using ends(5) by (simp_all add: subscriptionResultErr_def)
    ultimately show ?thesis using ok [of q] q ends(1) len loop_ok_ended [OF ok [OF ends(2)] ends(3) _ ends(4)]
      by (cases "q = p") (simp_all add: upd_sub_nth)
  next
    case (leaves p watch)
    then show ?thesis using ok [of q] q loop_ok_pc [OF ok [OF leaves(2)], of watch "Returned Own_reason"]
      by (cases "q = p") auto
  next
    case (unsubscribes p r)
    let ?h = "pw_hub w"
    let ?i = "sb_id (the_sub w p)"
    have p: "p < length (hb_heap ?h)" using unsubscribes(2) len by simp
    have other: "the_sub w' q = the_sub w q" if "q \<noteq> p"
      using that unsubscribe_self [OF hub p] q unsubscribes(1) len by (auto simp: unsubscribe_def Let_def upd_sub_nth split: option.splits)
    have self: "the_sub w' p = the_sub w p \<or> the_sub w' p = sub_stop None (the_sub w p)"
      using unsubscribe_self [OF hub p] p unsubscribes(1) by (auto simp: unsubscribe_def Let_def upd_sub_nth split: option.splits)
    have gone: "sb_done (the_sub w' p)" if "p \<in> snd ` set (hb_subscribers ?h)"
      using entry_of [OF hub that] p unsubscribes(1) by (simp add: unsubscribe_def Let_def upd_sub_nth)
    have entries: "hb_subscribers (pw_hub w') = AList.delete ?i (hb_subscribers ?h)" "hb_closed (pw_hub w') = hb_closed ?h"
      using unsubscribes(1) by (auto simp: unsubscribe_def Let_def split: option.splits)
    show ?thesis
    proof (cases "q = p")
      case True
      have c: "pw_loops w' ! q = (pw_loops w ! p)\<lparr>ls_pc := Gone r\<rparr>" using unsubscribes(1,2) True by simp
      have rest: "pw_reader w' = pw_reader w" "pw_log w' = pw_log w" using unsubscribes(1) by simp_all
      have live: "sb_done (the_sub w' p) \<or> p \<in> set (to_stop (pw_reader w))"
        using self gone ok [OF unsubscribes(2)] by (auto simp: loop_ok_def)
      have no_entry: "p \<notin> snd ` set (AList.delete ?i (hb_subscribers ?h))"
        using hub_invD(6) [OF hub] by (auto simp: AList_delete_entry)
      show ?thesis
        unfolding True c [unfolded True] rest entries
        by (rule loop_ok_gone [OF ok [OF unsubscribes(2)] unsubscribes(3) self live no_entry])
    next
      case False
      then have "the_sub w' q = the_sub w q" "pw_loops w' ! q = pw_loops w ! q" "pw_reader w' = pw_reader w" "pw_log w' = pw_log w"
        using other unsubscribes(1) by simp_all
      moreover have "q \<in> snd ` set (hb_subscribers (pw_hub w')) \<longleftrightarrow> q \<in> snd ` set (hb_subscribers ?h)"
        using others_entry [OF hub p, of q] False q unsubscribes(1) len unfolding entries by (auto simp: AList_delete_entry)
      ultimately show ?thesis using loop_ok_step [OF ok, of q "pw_reader w" "hb_closed ?h" "hb_subscribers (pw_hub w')"] q unsubscribes(1) entries(2)
        by auto
    qed
  qed
qed

lemma pty_inv_reachable: "pty_reachable w \<Longrightarrow> pty_inv w"
proof (induction rule: rtranclp_induct)
  case base
  show ?case by (simp add: pty_inv_def start_world_def new_hub_def hub_inv_def)
qed (rule pty_inv_step)

lemmas loop_inv = pty_inv_reachable [unfolded pty_inv_def, THEN conjunct2, THEN conjunct2, rule_format]

lemma loop_received:
  assumes "pty_reachable w" "p < length (pw_loops w)"
  shows "prefix (ls_got (pw_loops w ! p)) (owed (pw_log w) (pw_loops w ! p))"
proof -
  note ok = loop_inv [OF assms, unfolded loop_ok_def seen_def]
  show ?thesis
  proof (cases "p \<in> set (to_serve (pw_reader w))")
    case True
    then have "owed (pw_log w) (pw_loops w ! p) = ls_got (pw_loops w ! p) @ sb_ch (the_sub w p) @ [current_chunk (pw_reader w)]"
      using ok by simp
    then show ?thesis by simp
  next
    case False
    then have "prefix (ls_got (pw_loops w ! p) @ sb_ch (the_sub w p)) (owed (pw_log w) (pw_loops w ! p))" using ok by simp
    then show ?thesis by (rule append_prefixD)
  qed
qed

text \<open>C33: for all interleavings of the reader with the loops that receive, a loop has received the chunks that
  were broadcast since it subscribed, in order and without a gap, and at most 128 wait for it. Between two chunks,
  one that was not stopped has nothing missing but what waits. A subscription ends with an error only when it
  is a best-effort one that fell behind, or when reading the PTY has ended; then all chunks were handed to it.\<close>

lemma subscribers_get_their_stream:
  assumes "pty_reachable w" "p < length (pw_loops w)"
  shows "prefix (ls_got (pw_loops w ! p)) (owed (pw_log w) (pw_loops w ! p)) \<and>
    length (sb_ch (the_sub w p)) \<le> 128 \<and>
    (pw_reader w = Reading \<and> \<not> sb_done (the_sub w p) \<longrightarrow>
      ls_got (pw_loops w ! p) @ sb_ch (the_sub w p) = owed (pw_log w) (pw_loops w ! p)) \<and>
    (\<forall>r. ls_pc (pw_loops w ! p) = Returned (Sub_ended r) \<longrightarrow>
      (r = Some Subscriber_too_slow \<and> \<not> sb_reliable (the_sub w p)) \<or>
      (\<exists>e. r = Some e \<and> hb_closed (pw_hub w) \<and>
        ls_got (pw_loops w ! p) @ sb_ch (the_sub w p) = owed (pw_log w) (pw_loops w ! p)))"
proof -
  note ok = loop_inv [OF assms, unfolded loop_ok_def seen_def]
  note loop_received [OF assms]
  moreover have "(r = Some Subscriber_too_slow \<and> \<not> sb_reliable (the_sub w p)) \<or>
      (\<exists>e. r = Some e \<and> hb_closed (pw_hub w) \<and>
        ls_got (pw_loops w ! p) @ sb_ch (the_sub w p) = owed (pw_log w) (pw_loops w ! p))"
    if "ls_pc (pw_loops w ! p) = Returned (Sub_ended r)" for r
    using ok that by (auto simp: reason_ok_def stop_reason_def seen_def split: if_split_asm)
  ultimately show ?thesis using ok by (auto simp: sub_capacity_def)
qed

lemma pc_changes: "ls_pc c' \<noteq> ls_pc c \<Longrightarrow> c' \<noteq> c"
  by auto

text \<open>C34: the reader waits for nobody but a typing operation: while it hands out a chunk or stops the subscribers, it
  can take a step itself; or the loop of a reliable subscriber whose channel is full can take one, towards the next
  chunk or its unsubscription, whatever else happens; or this subscriber is still writing to the PTY what its
  operation types. With no operation typing, the reader is never stuck.\<close>

lemma reader_waits_only_for_typing:
  assumes "pty_reachable w" "pw_reader w \<noteq> Reading" "pw_reader w \<noteq> Finished"
  shows "(\<exists>w'. pty_step w w' \<and> pw_reader w' \<noteq> pw_reader w) \<or>
    (\<exists>p w'. pty_step w w' \<and> pw_loops w' ! p \<noteq> pw_loops w ! p \<and> p \<in> set (to_serve (pw_reader w)) \<and>
      sb_reliable (the_sub w p) \<and> \<not> has_room (the_sub w p) \<and> ls_pc (pw_loops w ! p) \<noteq> Typing) \<or>
    (\<exists>p<length (pw_loops w). p \<in> set (to_serve (pw_reader w)) \<and> sb_reliable (the_sub w p) \<and> \<not> has_room (the_sub w p) \<and>
      ls_pc (pw_loops w ! p) = Typing)"
proof -
  have inv: "pty_inv w" by (rule pty_inv_reachable) fact
  then have hub: "hub_inv (pw_reader w) (pw_hub w)" and len: "length (pw_loops w) = length (hb_heap (pw_hub w))"
    by (simp_all add: pty_inv_def)
  show ?thesis
  proof (cases "pw_reader w")
    case (Delivering chunk ps)
    show ?thesis
    proof (cases ps)
      case Nil
      then show ?thesis using sent [of w chunk] Delivering by (intro disjI1 exI conjI) auto
    next
      case (Cons p qs)
      then have rd: "pw_reader w = Delivering chunk ([] @ p # qs)" using Delivering by simp
      consider "has_room (the_sub w p)" | "sb_done (the_sub w p)" | "\<not> sb_reliable (the_sub w p)" "\<not> has_room (the_sub w p)" "\<not> sb_done (the_sub w p)"
        | "sb_reliable (the_sub w p)" "\<not> has_room (the_sub w p)" "\<not> sb_done (the_sub w p)" by blast
      then show ?thesis
      proof cases
        case 1
        show ?thesis using sends [OF rd 1] rd by (intro disjI1 exI conjI) (assumption, simp)
      next
        case 2
        show ?thesis using skips [OF rd 2] rd by (intro disjI1 exI conjI) (assumption, simp)
      next
        case 3
        show ?thesis using stops_slow [OF rd 3] rd by (intro disjI1 exI conjI) (assumption, simp)
      next
        case 4
        have p: "p < length (pw_loops w)" using hub_invD(8) [OF hub, of p] rd len by simp
        obtain x cs where ch: "sb_ch (the_sub w p) = x # cs" using 4(2) by (cases "sb_ch (the_sub w p)") (auto simp: has_room_def sub_capacity_def)
        have serve: "p \<in> set (to_serve (pw_reader w))" using rd by simp
        show ?thesis
        proof (cases "ls_pc (pw_loops w ! p) = Typing")
          case True
          then show ?thesis using 4(1,2) p serve by blast
        next
          case False
          have "\<exists>w'. pty_step w w' \<and> pw_loops w' ! p \<noteq> pw_loops w ! p"
          proof (cases "ls_pc (pw_loops w ! p)")
            case Looking
            have "(pw_loops w ! p)\<lparr>ls_pc := Selecting False\<rparr> \<noteq> pw_loops w ! p" by (rule pc_changes) (simp add: Looking)
            then show ?thesis using looks [OF p Looking] p ch by (intro exI conjI) (assumption, simp)
          next
            case (Selecting watch)
            have "(pw_loops w ! p)\<lparr>ls_pc := Looking, ls_got := ls_got (pw_loops w ! p) @ [x]\<rparr> \<noteq> pw_loops w ! p" by (rule pc_changes) (simp add: Selecting)
            then show ?thesis using receives [OF p Selecting ch] p by (intro exI conjI) (assumption, simp)
          next
            case (Returned r)
            have "(pw_loops w ! p)\<lparr>ls_pc := Gone r\<rparr> \<noteq> pw_loops w ! p" by (rule pc_changes) (simp add: Returned)
            then show ?thesis using unsubscribes [OF p Returned] p by (intro exI conjI) (assumption, simp)
          next
            case (Gone r)
            then have "sb_done (the_sub w p) \<or> p \<in> set (to_stop (pw_reader w))"
              using loop_inv [OF assms(1) p] unfolding loop_ok_def by blast
            then show ?thesis using 4(3) rd by simp
          qed (use False in simp)
          then show ?thesis using 4(1,2) serve False by blast
        qed
      qed
    qed
  next
    case (Dropping chunk p ps)
    then show ?thesis using drops [OF Dropping] by (intro disjI1 exI conjI) (assumption, simp)
  next
    case (Stopping e ps)
    show ?thesis
    proof (cases ps)
      case Nil
      then show ?thesis using finishes [of w e] Stopping by (intro disjI1 exI conjI) (simp, simp)
    next
      case (Cons p qs)
      then show ?thesis using stops [of w e p qs] Stopping by (intro disjI1 exI conjI) (simp, simp)
    qed
  qed (use assms in simp_all)
qed

subsection \<open>Two runs\<close>

abbreviation one_world :: "string list \<Rightarrow> sub_error option \<Rightarrow> bool \<Rightarrow> reader \<Rightarrow> string list \<Rightarrow> receiver \<Rightarrow> string list \<Rightarrow> bool \<Rightarrow> pty_world" where
  "one_world ch err closed rd log pc got stopped \<equiv>
     \<lparr>pw_hub = \<lparr>hb_heap = [\<lparr>sb_id = 0, sb_reliable = False, sb_ch = ch, sb_done = stopped, sb_err = err\<rparr>],
        hb_subscribers = (if closed then [] else [(0, 0)]), hb_nextSubID = 1, hb_closed = closed, hb_readErr = None\<rparr>,
      pw_reader = rd, pw_log = log, pw_loops = [\<lparr>ls_pc = pc, ls_from = 0, ls_got = got\<rparr>]\<rparr>"

lemma run_subscribe: "pty_step start_world (one_world [] None False Reading [] Looking [] False)"
  using subscribes [of False start_world _ _ Looking] by (simp add: start_world_def new_hub_def subscribe_def Let_def)

lemma run_look: "b = (ch = []) \<Longrightarrow> pty_step (one_world ch e cl rd log Looking got d) (one_world ch e cl rd log (Selecting b) got d)"
  using looks [of 0 "one_world ch e cl rd log Looking got d"] by simp

lemma run_read: "x \<noteq> [] \<Longrightarrow> log' = log @ [x] \<Longrightarrow>
    pty_step (one_world ch e False Reading log pc got d) (one_world ch e False (Delivering x [0]) log' pc got d)"
  using reads [of "one_world ch e False Reading log pc got d" x] by simp

lemma run_send:
  "length ch < 128 \<Longrightarrow> ch' = ch @ [x] \<Longrightarrow> pty_step (one_world ch e False (Delivering x [0]) log pc got d) (one_world ch' e False (Delivering x []) log pc got d)"
  using sends [of "one_world ch e False (Delivering x [0]) log pc got d" x "[]" 0 "[]"]
  by (simp add: has_room_def sub_capacity_def upd_sub_def pushed_def)

lemma run_sent: "pty_step (one_world ch e cl (Delivering x []) log pc got d) (one_world ch e cl Reading log pc got d)"
  using sent [of "one_world ch e cl (Delivering x []) log pc got d" x] by simp

lemma run_receive: "got' = got @ [x] \<Longrightarrow>
    pty_step (one_world (x # ch) e cl rd log (Selecting w) got d) (one_world ch e cl rd log Looking got' d)"
  using receives [of 0 "one_world (x # ch) e cl rd log (Selecting w) got d" w x ch] by (simp add: upd_sub_def)

lemma run_fail: "pty_step (one_world ch e False Reading log pc got d) (one_world ch e True (Stopping Io_EOF [0]) log pc got d)"
  using fails [of "one_world ch e False Reading log pc got d" None] by (simp add: close_hub_def end_error_def)

lemma run_stop:
  "pty_step (one_world ch None True (Stopping Io_EOF [0]) log pc got False) (one_world ch (Some Io_EOF) True (Stopping Io_EOF []) log pc got True)"
  using stops [of "one_world ch None True (Stopping Io_EOF [0]) log pc got False" Io_EOF 0 "[]"] by (simp add: upd_sub_def sub_stop_def)

lemma run_end:
  "pty_step (one_world ch (Some e) True rd log (Selecting True) got True) (one_world ch None True rd log (Returned (Sub_ended (Some e))) got True)"
  using ends [of 0 "one_world ch (Some e) True rd log (Selecting True) got True"] by (simp add: subscriptionResultErr_def upd_sub_def)

lemmas run_steps = run_subscribe run_look run_read run_send run_sent run_receive run_fail run_stop run_end

lemma one_chunk_run: "pty_reachable (one_world [] None False Reading [''hi''] Looking [''hi''] False)"
proof -
  let ?w = "\<lambda>ch rd. one_world ch None False rd [''hi'']"
  have r1: "pty_reachable (one_world [] None False Reading [] Looking [] False)" by (intro r_into_rtranclp run_subscribe)
  have r2: "pty_reachable (?w [] (Delivering ''hi'' [0]) Looking [] False)" by (intro rtranclp.rtrancl_into_rtrancl [OF r1] run_read) simp_all
  have r3: "pty_reachable (?w [''hi''] (Delivering ''hi'' []) Looking [] False)" by (intro rtranclp.rtrancl_into_rtrancl [OF r2] run_send) simp_all
  have r4: "pty_reachable (?w [''hi''] Reading Looking [] False)" by (rule rtranclp.rtrancl_into_rtrancl [OF r3 run_sent])
  have r5: "pty_reachable (?w [''hi''] Reading (Selecting False) [] False)" by (intro rtranclp.rtrancl_into_rtrancl [OF r4] run_look) simp_all
  have r6: "pty_reachable (?w [] Reading Looking [''hi''] False)" by (intro rtranclp.rtrancl_into_rtrancl [OF r5] run_receive) simp_all
  from r6 show ?thesis .
qed

lemma subscribers_get_their_stream_witness:
  "\<exists>w. pty_reachable w \<and> pw_log w = [''hi''] \<and> ls_got (pw_loops w ! 0) = [''hi''] \<and>
     ls_got (pw_loops w ! 0) @ sb_ch (the_sub w 0) = owed (pw_log w) (pw_loops w ! 0)"
proof (intro exI conjI)
  show "pty_reachable (one_world [] None False Reading [''hi''] Looking [''hi''] False)" by (rule one_chunk_run)
  from subscribers_get_their_stream [OF this, of 0]
  show "ls_got (pw_loops (one_world [] None False Reading [''hi''] Looking [''hi''] False) ! 0) @
      sb_ch (the_sub (one_world [] None False Reading [''hi''] Looking [''hi''] False) 0) =
      owed (pw_log (one_world [] None False Reading [''hi''] Looking [''hi''] False))
        (pw_loops (one_world [] None False Reading [''hi''] Looking [''hi''] False) ! 0)" by simp
qed simp_all

text \<open>
  The look at the channel and the \<open>select\<close> are two steps. A last chunk that arrives between them, with the end of
  the PTY right behind it, can stay in the channel: \<open>select\<close> then finds both cases ready and may choose the end.
\<close>

lemma last_chunk_can_be_lost:
  "\<exists>w. pty_reachable w \<and> ls_pc (pw_loops w ! 0) = Returned (Sub_ended (Some Io_EOF)) \<and>
     pw_log w = [''bye''] \<and> ls_got (pw_loops w ! 0) = []"
proof -
  let ?w = "\<lambda>ch e cl rd. one_world ch e cl rd [''bye'']"
  have r1: "pty_reachable (one_world [] None False Reading [] Looking [] False)" by (intro r_into_rtranclp run_subscribe)
  have r2: "pty_reachable (one_world [] None False Reading [] (Selecting True) [] False)" by (intro rtranclp.rtrancl_into_rtrancl [OF r1] run_look) simp_all
  have r3: "pty_reachable (?w [] None False (Delivering ''bye'' [0]) (Selecting True) [] False)" by (intro rtranclp.rtrancl_into_rtrancl [OF r2] run_read) simp_all
  have r4: "pty_reachable (?w [''bye''] None False (Delivering ''bye'' []) (Selecting True) [] False)" by (intro rtranclp.rtrancl_into_rtrancl [OF r3] run_send) simp_all
  have r5: "pty_reachable (?w [''bye''] None False Reading (Selecting True) [] False)" by (rule rtranclp.rtrancl_into_rtrancl [OF r4 run_sent])
  have r6: "pty_reachable (?w [''bye''] None True (Stopping Io_EOF [0]) (Selecting True) [] False)" by (rule rtranclp.rtrancl_into_rtrancl [OF r5 run_fail])
  have r7: "pty_reachable (?w [''bye''] (Some Io_EOF) True (Stopping Io_EOF []) (Selecting True) [] True)" by (rule rtranclp.rtrancl_into_rtrancl [OF r6 run_stop])
  have r8: "pty_reachable (?w [''bye''] None True (Stopping Io_EOF []) (Returned (Sub_ended (Some Io_EOF))) [] True)" by (rule rtranclp.rtrancl_into_rtrancl [OF r7 run_end])
  from r8 show ?thesis by (intro exI conjI) (assumption, simp_all)
qed

lemma reader_waits_only_for_typing_witness:
  "\<exists>w. pty_reachable w \<and> pw_reader w = Delivering ''hi'' [0] \<and> (\<exists>w'. pty_step w w')"
proof -
  let ?w = "one_world [] None False (Delivering ''hi'' [0]) [''hi''] Looking [] False"
  have r1: "pty_reachable (one_world [] None False Reading [] Looking [] False)" by (intro r_into_rtranclp run_subscribe)
  have r2: "pty_reachable ?w" by (intro rtranclp.rtrancl_into_rtrancl [OF r1] run_read) simp_all
  from reader_waits_only_for_typing [OF r2] have "\<exists>w'. pty_step ?w w'" by auto
  then have "pty_reachable ?w \<and> pw_reader ?w = Delivering ''hi'' [0] \<and> (\<exists>w'. pty_step ?w w')" using r2 by simp
  then show ?thesis by (rule exI)
qed

text \<open>A run to the end: the chunk is received before the loop sees the end.\<close>

lemma ended_run: "pty_reachable (one_world [] None True (Stopping Io_EOF []) [''hi''] (Returned (Sub_ended (Some Io_EOF))) [''hi''] True)"
proof -
  let ?w = "\<lambda>e cl rd. one_world [] e cl rd [''hi'']"
  have r1: "pty_reachable (?w None False Reading (Selecting True) [''hi''] False)"
    by (intro rtranclp.rtrancl_into_rtrancl [OF one_chunk_run] run_look) simp
  have r2: "pty_reachable (?w None True (Stopping Io_EOF [0]) (Selecting True) [''hi''] False)"
    by (rule rtranclp.rtrancl_into_rtrancl [OF r1 run_fail])
  have r3: "pty_reachable (?w (Some Io_EOF) True (Stopping Io_EOF []) (Selecting True) [''hi''] True)"
    by (rule rtranclp.rtrancl_into_rtrancl [OF r2 run_stop])
  show ?thesis by (rule rtranclp.rtrancl_into_rtrancl [OF r3 run_end])
qed

text \<open>
  The third case is real. A reliable subscriber that still types when its channel is full holds the reader, and with
  it the output of the PTY, until the PTY has taken the input; a terminal that waits for its output to be read,
  say of the echo, before it takes more input never does. No step but the end of the write moves the reader.
\<close>

abbreviation typing_world :: "string list \<Rightarrow> string list \<Rightarrow> reader \<Rightarrow> pty_world" where
  "typing_world ch log rd \<equiv>
     \<lparr>pw_hub = \<lparr>hb_heap = [\<lparr>sb_id = 0, sb_reliable = True, sb_ch = ch, sb_done = False, sb_err = None\<rparr>],
        hb_subscribers = [(0, 0)], hb_nextSubID = 1, hb_closed = False, hb_readErr = None\<rparr>,
      pw_reader = rd, pw_log = log, pw_loops = [\<lparr>ls_pc = Typing, ls_from = 0, ls_got = []\<rparr>]\<rparr>"

lemma typing_read: "x \<noteq> [] \<Longrightarrow> pty_step (typing_world ch log Reading) (typing_world ch (log @ [x]) (Delivering x [0]))"
  using reads [of "typing_world ch log Reading" x] by simp

lemma typing_send: "length ch < 128 \<Longrightarrow>
    pty_step (typing_world ch log (Delivering x [0])) (typing_world (ch @ [x]) log (Delivering x []))"
  using sends [of "typing_world ch log (Delivering x [0])" x "[]" 0 "[]"]
  by (simp add: has_room_def sub_capacity_def upd_sub_def pushed_def)

lemma typing_sent: "pty_step (typing_world ch log (Delivering x [])) (typing_world ch log Reading)"
  using sent [of "typing_world ch log (Delivering x [])" x] by simp

lemma typing_subscribe: "pty_step start_world (typing_world [] [] Reading)"
  using subscribes [of True start_world _ _ Typing] by (simp add: start_world_def new_hub_def subscribe_def Let_def)

lemma typing_fills: "length cs \<le> 128 \<Longrightarrow> [] \<notin> set cs \<Longrightarrow> pty_reachable (typing_world cs cs Reading)"
proof (induction cs rule: rev_induct)
  case Nil
  show ?case by (intro r_into_rtranclp typing_subscribe)
next
  case (snoc x cs)
  have x: "x \<noteq> []" "length cs < 128" using snoc.prems by auto
  have q0: "pty_reachable (typing_world cs cs Reading)" using snoc by simp
  have q1: "pty_reachable (typing_world cs (cs @ [x]) (Delivering x [0]))"
    by (rule rtranclp.rtrancl_into_rtrancl [OF q0 typing_read [OF x(1)]])
  have q2: "pty_reachable (typing_world (cs @ [x]) (cs @ [x]) (Delivering x []))"
    by (rule rtranclp.rtrancl_into_rtrancl [OF q1 typing_send [OF x(2)]])
  show ?case by (rule rtranclp.rtrancl_into_rtrancl [OF q2 typing_sent])
qed

lemma typing_stuck:
  assumes "pty_step (typing_world ch log (Delivering x [0])) w'" "\<not> length ch < 128" "ls_pc (pw_loops w' ! 0) = Typing"
  shows "pw_reader w' = Delivering x [0]"
  using assms(1)
proof cases
  case (sends chunk ps p qs)
  then show ?thesis using assms(2) by (simp add: Cons_eq_append_conv has_room_def sub_capacity_def)
next
  case (skips chunk ps p qs)
  then show ?thesis by (simp add: Cons_eq_append_conv)
next
  case (stops_slow chunk ps p qs)
  then show ?thesis by (simp add: Cons_eq_append_conv)
qed (use assms(3) in simp_all)

lemma typing_can_block_the_reader:
  "\<exists>w. pty_reachable w \<and> pw_reader w = Delivering ''x'' [0] \<and> ls_pc (pw_loops w ! 0) = Typing \<and>
     (\<forall>w'. pty_step w w' \<and> ls_pc (pw_loops w' ! 0) = Typing \<longrightarrow> pw_reader w' = pw_reader w)"
proof -
  define cs where "cs = replicate 128 ''x''"
  have c: "length cs = 128" "[] \<notin> set cs" by (simp_all add: cs_def)
  have full: "pty_reachable (typing_world cs cs Reading)" by (rule typing_fills) (use c in simp_all)
  let ?w = "typing_world cs (cs @ [''x'']) (Delivering ''x'' [0])"
  have "pty_reachable ?w" by (rule rtranclp.rtrancl_into_rtrancl [OF full typing_read]) simp
  moreover have "pw_reader w' = Delivering ''x'' [0]" if "pty_step ?w w'" "ls_pc (pw_loops w' ! 0) = Typing" for w'
    by (rule typing_stuck [OF that(1) _ that(2)]) (simp add: c)
  ultimately show ?thesis by (intro exI [of _ ?w]) simp
qed

end
