(* ===== verification/Pty_Runner.thy ===== *)
theory Pty_Runner
  imports Pty_Subscribers Run_Collector Terminal_Cleaner Key_Sequences Stream_Session
begin

section \<open>The operations of a PTY runner (internal/server/tab.go)\<close>

text \<open>
  Every operation types bytes into the PTY and some then read its output from a subscription. An operation
  is a function of what its \<open>select\<close> statements choose, one event each: a chunk, the end of the
  subscription, its cancellation, or one of its timers. An event whose channel is nil at that moment is
  never chosen; the functions skip it. \<open>None\<close> means that the operation still waits after the last event.
  Which chunks a loop can get is the subject of \<open>Pty_Subscribers\<close>. The bytes typed are part of the result.
\<close>

datatype loop_event = Chunk string | Sub_done "sub_error option" | Canceled | Quiet | Flush_due

datatype 'e runner_error =
    Operation_canceled
  | No_random_token
  | Bad_key_sequence key_error
  | Pty_write string
  | Bad_completion collector_error
  | Subscription sub_error
  | Output_write 'e

text \<open>What an operation finds: random bytes, the line before the cursor, and the PTY, which takes bytes or fails.\<close>

record runner_env =
  pe_random :: "string option"
  pe_line :: string
  pe_write :: "string \<Rightarrow> string option"

definition empty_result :: run_result where
  "empty_result = \<lparr>rr_output = [], rr_exit_code = 0, rr_truncated = False\<rparr>"

subsection \<open>Typing\<close>

definition type_bytes :: "runner_env \<Rightarrow> string \<Rightarrow> 'e runner_error option" where
  "type_bytes env bytes = map_option Pty_write (pe_write env bytes)"

definition Runner_Send :: "runner_env \<Rightarrow> string \<Rightarrow> string list \<times> 'e runner_error option" where
  "Runner_Send env input = ([input @ [chr_lf]], type_bytes env (input @ [chr_lf]))"

definition Runner_Text :: "runner_env \<Rightarrow> string \<Rightarrow> string list \<times> 'e runner_error option" where
  "Runner_Text env input = ([input], type_bytes env input)"

definition Runner_Command :: "runner_env \<Rightarrow> string \<Rightarrow> string list \<times> 'e runner_error option" where
  "Runner_Command env keys =
     (case parseKeySequence keys of
        Inl e \<Rightarrow> ([], Some (Bad_key_sequence e))
      | Inr bytes \<Rightarrow> ([bytes], type_bytes env bytes))"

definition Runner_Keys :: "runner_env \<Rightarrow> string \<Rightarrow> string list \<times> 'e runner_error option" where
  "Runner_Keys env keys =
     (case parseKeySequenceNoEnter keys of
        Inl e \<Rightarrow> ([], Some (Bad_key_sequence e))
      | Inr bytes \<Rightarrow> ([bytes], type_bytes env bytes))"

subsection \<open>Running a command\<close>

text \<open>\<open>collectQuietOutput\<close>; its error is ignored, the collector is kept.\<close>

fun collectQuietOutput :: "run_collector \<Rightarrow> loop_event list \<Rightarrow> run_collector option" where
  "collectQuietOutput c [] = None"
| "collectQuietOutput c (Chunk d # es) = collectQuietOutput (appendOutput c d) es"
| "collectQuietOutput c (Sub_done r # es) = Some c"
| "collectQuietOutput c (Quiet # es) = Some c"
| "collectQuietOutput c (e # es) = collectQuietOutput c es"

definition interrupt_bytes :: "string \<Rightarrow> string" where
  "interrupt_bytes token = char_of (3::nat) # wrapCompletion token"

text \<open>\<open>armed\<close> says whether \<open>doneCh\<close> is not nil; \<open>typed\<close> are the writes so far.\<close>

fun run_loop ::
  "runner_env \<Rightarrow> string \<Rightarrow> string \<Rightarrow> string \<Rightarrow> bool \<Rightarrow> bool \<Rightarrow> string list \<Rightarrow> run_collector \<Rightarrow> loop_event list \<Rightarrow>
     (string list \<times> run_result \<times> 'e runner_error option) option" where
  "run_loop env token command pre armed canceled typed c [] = None"
| "run_loop env token command pre armed canceled typed c (Chunk d # es) =
     (case consume c d of
        Inl e \<Rightarrow> Some (typed, empty_result, Some (Bad_completion e))
      | Inr c' \<Rightarrow>
          if rc_complete c'
          then map_option (\<lambda>c''. (typed, collector_result c'' command pre, if canceled then Some Operation_canceled else None))
                 (collectQuietOutput c' es)
          else run_loop env token command pre armed canceled typed c' es)"
| "run_loop env token command pre armed canceled typed c (Sub_done r # es) =
     Some (typed, empty_result, map_option Subscription r)"
| "run_loop env token command pre armed canceled typed c (Canceled # es) =
     (if armed then
        (case type_bytes env (interrupt_bytes token) of
           Some e \<Rightarrow> Some (typed @ [interrupt_bytes token], empty_result, Some e)
         | None \<Rightarrow> run_loop env token command pre False True (typed @ [interrupt_bytes token]) c es)
      else run_loop env token command pre armed canceled typed c es)"
| "run_loop env token command pre armed canceled typed c (e # es) =
     run_loop env token command pre armed canceled typed c es"

text \<open>\<open>cancelable\<close>: a channel was passed; \<open>canceled\<close>: it is closed already. An operation that types nothing
  waits for nothing.\<close>

definition runWithLimit ::
  "runner_env \<Rightarrow> string \<Rightarrow> bool \<Rightarrow> bool \<Rightarrow> int \<Rightarrow> loop_event list \<Rightarrow> (string list \<times> run_result \<times> 'e runner_error option) option" where
  "runWithLimit env command cancelable canceled outputLimit es =
     (if cancelable \<and> canceled then Some ([], empty_result, Some Operation_canceled)
      else (case newCommandToken (pe_random env) of
        None \<Rightarrow> Some ([], empty_result, Some No_random_token)
      | Some token \<Rightarrow>
          (let wrapped = wrapCommand command token in
           case type_bytes env wrapped of
             Some e \<Rightarrow> Some ([wrapped], empty_result, Some e)
           | None \<Rightarrow> run_loop env token command (pe_line env) cancelable False [wrapped]
                       (newRunCollector (token @ '':'') outputLimit) es)))"

definition RunWithDone ::
  "runner_env \<Rightarrow> string \<Rightarrow> bool \<Rightarrow> bool \<Rightarrow> loop_event list \<Rightarrow> (string list \<times> run_result \<times> 'e runner_error option) option" where
  "RunWithDone env command cancelable canceled es =
     runWithLimit env command cancelable canceled (int MaxRunOutputBytes) es"

definition Runner_Run ::
  "runner_env \<Rightarrow> string \<Rightarrow> loop_event list \<Rightarrow> (string list \<times> run_result \<times> 'e runner_error option) option" where
  "Runner_Run env command es = RunWithDone env command False False es"

subsection \<open>Waiting until the output is quiet\<close>

fun collectUntilQuiet :: "string \<Rightarrow> bool \<Rightarrow> loop_event list \<Rightarrow> (sub_error option + string \<times> bool) option" where
  "collectUntilQuiet output truncated [] = None"
| "collectUntilQuiet output truncated (Chunk d # es) =
     (let b = appendBounded output d (int MaxRunOutputBytes) in collectUntilQuiet (fst b) (truncated \<or> snd b) es)"
| "collectUntilQuiet output truncated (Sub_done r # es) = Some (Inl r)"
| "collectUntilQuiet output truncated (Quiet # es) =
     (let complete = completeUTF8Prefix output
      in Some (Inr (take complete output, truncated \<or> complete < length output)))"
| "collectUntilQuiet output truncated (e # es) = collectUntilQuiet output truncated es"

definition typed_then_quiet ::
  "runner_env \<Rightarrow> string \<Rightarrow> (string \<Rightarrow> string) \<Rightarrow> loop_event list \<Rightarrow> (string list \<times> run_result \<times> 'e runner_error option) option" where
  "typed_then_quiet env bytes format_output es =
     (case type_bytes env bytes of
        Some e \<Rightarrow> Some ([bytes], empty_result, Some e)
      | None \<Rightarrow>
          map_option (\<lambda>r. case r of
              Inl e \<Rightarrow> ([bytes], empty_result, map_option Subscription e)
            | Inr (output, truncated) \<Rightarrow>
                ([bytes], \<lparr>rr_output = format_output (trimOutputBoundary (cleanTerminalNoise output)), rr_exit_code = 0,
                   rr_truncated = truncated\<rparr>, None))
            (collectUntilQuiet [] False es))"

definition runIdle ::
  "runner_env \<Rightarrow> string \<Rightarrow> loop_event list \<Rightarrow> (string list \<times> run_result \<times> 'e runner_error option) option" where
  "runIdle env command es =
     typed_then_quiet env (command @ [chr_lf]) (\<lambda>output. formatCommandTranscript output command (pe_line env)) es"

definition sendWait ::
  "runner_env \<Rightarrow> string \<Rightarrow> bool \<Rightarrow> loop_event list \<Rightarrow> (string list \<times> run_result \<times> 'e runner_error option) option" where
  "sendWait env input returnOutput es =
     typed_then_quiet env (input @ [chr_lf])
       (\<lambda>output. if returnOutput then formatCommandTranscript output input (pe_line env) else []) es"

definition commandWait ::
  "runner_env \<Rightarrow> string \<Rightarrow> loop_event list \<Rightarrow> (string list \<times> run_result \<times> 'e runner_error option) option" where
  "commandWait env keys es =
     (case parseKeySequence keys of
        Inl e \<Rightarrow> Some ([], empty_result, Some (Bad_key_sequence e))
      | Inr bytes \<Rightarrow> typed_then_quiet env bytes (\<lambda>output. formatCommandTranscript output keys (pe_line env)) es)"

definition keysWait ::
  "runner_env \<Rightarrow> string \<Rightarrow> loop_event list \<Rightarrow> (string list \<times> run_result \<times> 'e runner_error option) option" where
  "keysWait env keys es =
     (case parseKeySequenceNoEnter keys of
        Inl e \<Rightarrow> Some ([], empty_result, Some (Bad_key_sequence e))
      | Inr bytes \<Rightarrow> typed_then_quiet env bytes (\<lambda>output. output) es)"

subsection \<open>Following\<close>

definition write_string :: "('s, 'e) writer \<Rightarrow> 's \<Rightarrow> string \<Rightarrow> 's \<times> 'e runner_error option" where
  "write_string wr s text = (case wr s text of (s', n, e) \<Rightarrow> (s', map_option Output_write e))"

fun writeRawSubscription ::
  "('s, 'e) writer \<Rightarrow> bool \<Rightarrow> 's \<Rightarrow> loop_event list \<Rightarrow> ('s \<times> 'e runner_error option) option" where
  "writeRawSubscription wr armed s [] = None"
| "writeRawSubscription wr armed s (Chunk d # es) =
     (case write_string wr s d of
        (s', Some e) \<Rightarrow> Some (s', Some e)
      | (s', None) \<Rightarrow> writeRawSubscription wr armed s' es)"
| "writeRawSubscription wr armed s (Sub_done r # es) = Some (s, map_option Subscription r)"
| "writeRawSubscription wr armed s (Canceled # es) =
     (if armed then Some (s, None) else writeRawSubscription wr armed s es)"
| "writeRawSubscription wr armed s (e # es) = writeRawSubscription wr armed s es"

definition Runner_Follow ::
  "('s, 'e) writer \<Rightarrow> bool \<Rightarrow> 's \<Rightarrow> loop_event list \<Rightarrow> ('s \<times> 'e runner_error option) option" where
  "Runner_Follow wr cancelable s es = writeRawSubscription wr cancelable s es"

text \<open>\<open>flushNow\<close> of \<open>writeSubscription\<close>.\<close>

definition flush_now :: "('s, 'e) writer \<Rightarrow> cleaner \<Rightarrow> 's \<Rightarrow> cleaner \<times> 's \<times> 'e runner_error option" where
  "flush_now wr c s =
     (let f = Flush c in if snd f \<noteq> [] then (fst f, write_string wr s (snd f)) else (fst f, s, None))"

text \<open>
  \<open>timed\<close> says whether there is a quiet timer (\<open>quietFor > 0\<close>), \<open>scheduled\<close> whether the channel \<open>flush\<close> is set,
  which \<open>scheduleFlush\<close> does after every chunk that leaves something in the cleaner.
\<close>

fun writeSubscription ::
  "('s, 'e) writer \<Rightarrow> bool \<Rightarrow> bool \<Rightarrow> bool \<Rightarrow> cleaner \<Rightarrow> 's \<Rightarrow> loop_event list \<Rightarrow> ('s \<times> 'e runner_error option) option" where
  "writeSubscription wr armed timed scheduled c s [] = None"
| "writeSubscription wr armed timed scheduled c s (Chunk d # es) =
     (let cleaned = WriteString c d in
      case write_string wr s (snd cleaned) of
        (s', Some e) \<Rightarrow> Some (s', Some e)
      | (s', None) \<Rightarrow> writeSubscription wr armed timed (Pending (fst cleaned)) (fst cleaned) s' es)"
| "writeSubscription wr armed timed scheduled c s (Sub_done r # es) =
     (case flush_now wr c s of
        (c', s', Some e) \<Rightarrow> Some (s', Some e)
      | (c', s', None) \<Rightarrow> Some (s', map_option Subscription r))"
| "writeSubscription wr armed timed scheduled c s (Canceled # es) =
     (if armed then Some (snd (flush_now wr c s)) else writeSubscription wr armed timed scheduled c s es)"
| "writeSubscription wr armed timed scheduled c s (Quiet # es) =
     (if timed then Some (snd (flush_now wr c s)) else writeSubscription wr armed timed scheduled c s es)"
| "writeSubscription wr armed timed scheduled c s (Flush_due # es) =
     (if scheduled then
        (case flush_now wr c s of
           (c', s', Some e) \<Rightarrow> Some (s', Some e)
         | (c', s', None) \<Rightarrow> writeSubscription wr armed timed False c' s' es)
      else writeSubscription wr armed timed scheduled c s es)"

definition start_following ::
  "('s, 'e) writer \<Rightarrow> bool \<Rightarrow> bool \<Rightarrow> 's \<Rightarrow> loop_event list \<Rightarrow> ('s \<times> 'e runner_error option) option" where
  "start_following wr cancelable timed s es = writeSubscription wr cancelable timed False NewTerminalCleaner s es"

text \<open>The line before the cursor is written as it is, before the cleaned chunks.\<close>

definition sendFollow ::
  "runner_env \<Rightarrow> ('s, 'e) writer \<Rightarrow> bool \<Rightarrow> bool \<Rightarrow> string \<Rightarrow> 's \<Rightarrow> loop_event list \<Rightarrow> (string list \<times> 's \<times> 'e runner_error option) option" where
  "sendFollow env wr cancelable timed input s es =
     (let typed = [input @ [chr_lf]] in
      case type_bytes env (input @ [chr_lf]) of
        Some e \<Rightarrow> Some (typed, s, Some e)
      | None \<Rightarrow>
          (case (if pe_line env \<noteq> [] then write_string wr s (pe_line env) else (s, None)) of
             (s', Some e) \<Rightarrow> Some (typed, s', Some e)
           | (s', None) \<Rightarrow> map_option (Pair typed) (start_following wr cancelable timed s' es)))"

definition typed_then_follow ::
  "runner_env \<Rightarrow> ('s, 'e) writer \<Rightarrow> bool \<Rightarrow> bool \<Rightarrow> string \<Rightarrow> 's \<Rightarrow> loop_event list \<Rightarrow> (string list \<times> 's \<times> 'e runner_error option) option" where
  "typed_then_follow env wr cancelable timed bytes s es =
     (case type_bytes env bytes of
        Some e \<Rightarrow> Some ([bytes], s, Some e)
      | None \<Rightarrow> map_option (Pair [bytes]) (start_following wr cancelable timed s es))"

definition commandFollow ::
  "runner_env \<Rightarrow> ('s, 'e) writer \<Rightarrow> bool \<Rightarrow> bool \<Rightarrow> string \<Rightarrow> 's \<Rightarrow> loop_event list \<Rightarrow> (string list \<times> 's \<times> 'e runner_error option) option" where
  "commandFollow env wr cancelable timed keys s es =
     (case parseKeySequence keys of
        Inl e \<Rightarrow> Some ([], s, Some (Bad_key_sequence e))
      | Inr bytes \<Rightarrow> typed_then_follow env wr cancelable timed bytes s es)"

definition keysFollow ::
  "runner_env \<Rightarrow> ('s, 'e) writer \<Rightarrow> bool \<Rightarrow> bool \<Rightarrow> string \<Rightarrow> 's \<Rightarrow> loop_event list \<Rightarrow> (string list \<times> 's \<times> 'e runner_error option) option" where
  "keysFollow env wr cancelable timed keys s es =
     (case parseKeySequenceNoEnter keys of
        Inl e \<Rightarrow> Some ([], s, Some (Bad_key_sequence e))
      | Inr bytes \<Rightarrow> typed_then_follow env wr cancelable timed bytes s es)"

subsection \<open>Control-C\<close>

record skip_prefix =
  sk_prefix :: string
  sk_pending :: string
  sk_done :: bool

text \<open>The writer reports all bytes of the piece as written, also when it fails.\<close>

definition skipPrefixWriter_Write :: "('s, 'e) writer \<Rightarrow> (skip_prefix \<times> 's, 'e) writer" where
  "skipPrefixWriter_Write wr ks p =
     (case ks of (k, s) \<Rightarrow>
        if sk_done k \<or> sk_prefix k = [] then (case wr s p of (s', n, e) \<Rightarrow> ((k, s'), int (length p), e))
        else (let pending = sk_pending k @ p in
          if prefix pending (sk_prefix k)
          then ((if pending = sk_prefix k then k\<lparr>sk_done := True, sk_pending := []\<rparr> else k\<lparr>sk_pending := pending\<rparr>, s),
                int (length p), None)
          else (let rest = (if prefix (sk_prefix k) pending then drop (length (sk_prefix k)) pending else pending) in
            case wr s rest of (s', n, e) \<Rightarrow> ((k\<lparr>sk_done := True, sk_pending := []\<rparr>, s'), int (length p), e))))"

definition new_skip :: "string \<Rightarrow> skip_prefix" where
  "new_skip pre = \<lparr>sk_prefix = pre, sk_pending = [], sk_done = False\<rparr>"

definition ctrlCFollow ::
  "runner_env \<Rightarrow> ('s, 'e) writer \<Rightarrow> bool \<Rightarrow> bool \<Rightarrow> 's \<Rightarrow> loop_event list \<Rightarrow> (string list \<times> 's \<times> 'e runner_error option) option" where
  "ctrlCFollow env wr cancelable timed s es =
     (let typed = [[char_of (3::nat)]] in
      case type_bytes env [char_of (3::nat)] of
        Some e \<Rightarrow> Some (typed, s, Some e)
      | None \<Rightarrow>
          (case write_string wr s ''^C'' of
             (s', Some e) \<Rightarrow> Some (typed, s', Some e)
           | (s', None) \<Rightarrow>
               map_option (\<lambda>((k, s''), e). (typed, s'', e))
                 (start_following (skipPrefixWriter_Write wr) cancelable timed (new_skip ''^C'', s') es)))"

subsection \<open>The output of a run\<close>










subsection \<open>What a follower prints\<close>

lemma writeRaw_chunks:
  "writeRawSubscription buffer_write armed s (map Chunk ds @ es) = writeRawSubscription buffer_write armed (s @ concat ds) es"
  by (induction ds arbitrary: s) (simp_all add: write_string_def buffer_write_def)

text \<open>C36: following a target prints exactly a prefix of what its PTY printed since the subscription. It ends by
  itself only with an error: the follower was too slow, or reading the PTY has ended; then all of the output
  was printed but for what was still in the channel.\<close>

lemma follow_prints_the_output:
  assumes "pty_reachable w" "p < length (pw_loops w)" "ls_pc (pw_loops w ! p) = Returned (Sub_ended r)"
  shows "\<exists>err. Runner_Follow buffer_write cancelable [] (map Chunk (ls_got (pw_loops w ! p)) @ [Sub_done r]) =
      Some (concat (ls_got (pw_loops w ! p)), Some (Subscription err)) \<and>
    prefix (concat (ls_got (pw_loops w ! p))) (concat (owed (pw_log w) (pw_loops w ! p))) \<and>
    (err \<noteq> Subscriber_too_slow \<longrightarrow>
      concat (ls_got (pw_loops w ! p)) @ concat (sb_ch (the_sub w p)) = concat (owed (pw_log w) (pw_loops w ! p)))"
proof -
  have "sb_done (the_sub w p)" and reason: "reason_ok (hb_closed (pw_hub w)) (pw_log w) (the_sub w p) (pw_loops w ! p)"
    using loop_inv [OF assms(1,2)] assms(3) unfolding loop_ok_def by auto
  have "prefix (ls_got (pw_loops w ! p)) (owed (pw_log w) (pw_loops w ! p))"
    using loop_received [OF assms(1,2)] .
  then have "prefix (concat (ls_got (pw_loops w ! p))) (concat (owed (pw_log w) (pw_loops w ! p)))"
    by (auto simp: prefix_def)
  moreover obtain err where "r = Some err" "err \<noteq> Subscriber_too_slow \<longrightarrow>
      ls_got (pw_loops w ! p) @ sb_ch (the_sub w p) = owed (pw_log w) (pw_loops w ! p)"
    using reason assms(3) by (auto simp: reason_ok_def stop_reason_def seen_def split: if_split_asm)
  ultimately show ?thesis
    by (intro exI [of _ err]) (auto simp: Runner_Follow_def writeRaw_chunks simp flip: concat_append)
qed

lemma follow_prints_the_output_witness:
  "\<exists>w err. pty_reachable w \<and> Runner_Follow buffer_write True [] (map Chunk (ls_got (pw_loops w ! 0)) @ [Sub_done (Some Io_EOF)]) =
     Some (''hi'', Some (Subscription err)) \<and> concat (owed (pw_log w) (pw_loops w ! 0)) = ''hi''"
proof -
  let ?w = "one_world [] None True (Stopping Io_EOF []) [''hi''] (Returned (Sub_ended (Some Io_EOF))) [''hi''] True"
  from follow_prints_the_output [OF ended_run, of 0 "Some Io_EOF" True]
  obtain err where "Runner_Follow buffer_write True [] (map Chunk (ls_got (pw_loops ?w ! 0)) @ [Sub_done (Some Io_EOF)]) =
     Some (''hi'', Some (Subscription err))" by auto
  then show ?thesis using ended_run by (intro exI [of _ ?w] exI [of _ err] conjI) (simp_all add: owed_def)
qed

text \<open>The other follow operations write clean text only.\<close>

lemma write_buffer [simp]: "write_string buffer_write s text = (s @ text, None)"
  by (simp add: write_string_def buffer_write_def)

lemma flush_now_clean:
  assumes "cleaner_inv c"
  shows "\<exists>c' out. flush_now buffer_write c s = (c', s @ out, None) \<and> cleaner_inv c' \<and> clean_output out"
  using Flush_ok [OF assms] by (auto simp: flush_now_def Let_def intro: exI [of _ "[]"])

lemma writeSubscription_clean:
  assumes "cleaner_inv c" "writeSubscription buffer_write armed timed scheduled c s es = Some (s', r)"
  shows "\<exists>out. s' = s @ out \<and> clean_output out"
  using assms
proof (induction es arbitrary: c s scheduled)
  case (Cons e es)
  obtain c1 out1 where f: "flush_now buffer_write c s = (c1, s @ out1, None)" "cleaner_inv c1" "clean_output out1"
    using flush_now_clean [OF Cons.prems(1)] by blast
  have skip: ?case if "writeSubscription buffer_write armed timed scheduled c s es = Some (s', r)"
    using Cons.IH [OF Cons.prems(1) that] .
  show ?case
  proof (cases e)
    case (Chunk d)
    note ok = WriteString_ok [OF Cons.prems(1), of d]
    have "writeSubscription buffer_write armed timed (Pending (fst (WriteString c d))) (fst (WriteString c d)) (s @ snd (WriteString c d)) es =
        Some (s', r)" using Cons.prems(2) Chunk by (simp add: Let_def)
    then obtain out where "s' = (s @ snd (WriteString c d)) @ out" "clean_output out"
      using Cons.IH [OF conjunct1 [OF ok]] by blast
    then show ?thesis using ok clean_output_append by auto
  next
    case Flush_due
    show ?thesis
    proof (cases scheduled)
      case True
      then have "writeSubscription buffer_write armed timed False c1 (s @ out1) es = Some (s', r)"
        using Cons.prems(2) Flush_due f(1) by simp
      then obtain out where "s' = (s @ out1) @ out" "clean_output out" using Cons.IH [OF f(2)] by blast
      then show ?thesis using f(3) clean_output_append by auto
    qed (use Cons.prems(2) Flush_due skip in simp)
  qed (use Cons.prems(2) f skip in \<open>auto split: if_split_asm\<close>)
qed simp

subsection \<open>Control-C is echoed once\<close>

text \<open>The writer that drops an expected echo, fed into a buffer.\<close>

definition feed_skip :: "skip_prefix \<times> string \<Rightarrow> string \<Rightarrow> (skip_prefix \<times> string) option" where
  "feed_skip ks p = Some (fst (skipPrefixWriter_Write buffer_write ks p))"

definition skip_inv :: "skip_prefix \<times> string \<Rightarrow> bool" where
  "skip_inv ks \<longleftrightarrow> sk_done (fst ks) \<or> sk_prefix (fst ks) = [] \<or> strict_prefix (sk_pending (fst ks)) (sk_prefix (fst ks))"

lemma skip_step:
  assumes "\<not> sk_done k" "sk_prefix k \<noteq> []" "strict_prefix (sk_pending k) (sk_prefix k)"
  shows "skipPrefixWriter_Write buffer_write (k, s) p =
    ((if strict_prefix (sk_pending k @ p) (sk_prefix k) then (k\<lparr>sk_pending := sk_pending k @ p\<rparr>, s)
      else (k\<lparr>sk_done := True, sk_pending := []\<rparr>,
            s @ (if prefix (sk_prefix k) (sk_pending k @ p) then drop (length (sk_prefix k)) (sk_pending k @ p)
                 else sk_pending k @ p))), int (length p), None)"
  using assms by (auto simp: skipPrefixWriter_Write_def Let_def buffer_write_def strict_prefix_def)

interpretation skip_stream: stream_consumer feed_skip skip_inv
proof
  fix ks :: "skip_prefix \<times> string" and xs ys :: string
  assume ok: "skip_inv ks"
  obtain k s where ks: "ks = (k, s)" by fastforce
  show "\<exists>s'. feed_skip ks xs = Some s' \<and> skip_inv s'"
  proof (cases "sk_done k \<or> sk_prefix k = []")
    case False
    then show ?thesis using ok skip_step [of k s xs] by (auto simp: ks feed_skip_def skip_inv_def)
  qed (auto simp: ks feed_skip_def skip_inv_def skipPrefixWriter_Write_def buffer_write_def)
  show "feed_skip ks [] = Some ks"
  proof (cases "sk_done k \<or> sk_prefix k = []")
    case False
    then show ?thesis using ok skip_step [of k s "[]"] by (auto simp: ks feed_skip_def skip_inv_def)
  qed (auto simp: ks feed_skip_def skipPrefixWriter_Write_def buffer_write_def)
  show "feed_skip ks (xs @ ys) = (case feed_skip ks xs of None \<Rightarrow> None | Some t \<Rightarrow> feed_skip t ys)"
  proof (cases "sk_done k \<or> sk_prefix k = []")
    case True
    then show ?thesis by (auto simp: ks feed_skip_def skipPrefixWriter_Write_def buffer_write_def)
  next
    case False
    then have k: "\<not> sk_done k" "sk_prefix k \<noteq> []" "strict_prefix (sk_pending k) (sk_prefix k)" using ok by (simp_all add: ks skip_inv_def)
    show ?thesis
    proof (cases "strict_prefix (sk_pending k @ xs) (sk_prefix k)")
      case True
      then show ?thesis using skip_step [OF k] skip_step [of "k\<lparr>sk_pending := sk_pending k @ xs\<rparr>" s ys] k by (simp add: ks feed_skip_def)
    next
      case False
      let ?P = "sk_pending k @ xs"
      let ?halted = "k\<lparr>sk_done := True, sk_pending := []\<rparr>"
      let ?rest = "\<lambda>P. if prefix (sk_prefix k) P then drop (length (sk_prefix k)) P else P"
      have no: "\<not> strict_prefix (?P @ ys) (sk_prefix k)"
      proof
        assume "strict_prefix (?P @ ys) (sk_prefix k)"
        then have "length (?P @ ys) < length (sk_prefix k)" "prefix (?P @ ys) (sk_prefix k)"
          by (rule prefix_length_less, rule prefix_order.less_imp_le)
        then have "length (?P @ ys) < length (sk_prefix k)" "prefix ?P (sk_prefix k)" using append_prefixD by blast+
        moreover from this have "?P \<noteq> sk_prefix k" by force
        ultimately show False using False by (simp add: strict_prefix_def)
      qed
      have rest: "?rest (?P @ ys) = ?rest ?P @ ys"
      proof (cases "prefix (sk_prefix k) ?P")
        case True
        then have "prefix (sk_prefix k) (?P @ ys)" "length (sk_prefix k) \<le> length ?P" by (rule prefix_prefix, rule prefix_length_le)
        then show ?thesis using True by simp
      next
        case apart: False
        have "\<not> prefix (sk_prefix k) (?P @ ys)"
          using apart False prefix_same_cases [of "sk_prefix k" "?P @ ys" ?P] by (auto simp: strict_prefix_def)
        then show ?thesis using apart by simp
      qed
      have "feed_skip ks xs = Some (?halted, s @ ?rest ?P)"
        using skip_step [OF k] False by (simp add: ks feed_skip_def)
      moreover have "feed_skip ks (xs @ ys) = Some (?halted, s @ ?rest (?P @ ys))"
        using skip_step [OF k, of s "xs @ ys"] no by (simp add: ks feed_skip_def)
      moreover have "feed_skip (?halted, t) ys = Some (?halted, t @ ys)" for t
        by (simp add: feed_skip_def skipPrefixWriter_Write_def buffer_write_def)
      ultimately show ?thesis unfolding rest by simp
    qed
  qed
qed

text \<open>C37: after Control-C the target's own echo of it is dropped once, however the PTY cuts its output: what
  is printed after the client's \<open>^C\<close> is the output less that echo, or all of it when it begins differently.\<close>

lemma control_c_echoed_once:
  "\<exists>k. feed_all feed_skip (new_skip ''^C'', ''^C'') chunks =
    Some (k, ''^C'' @ (if prefix ''^C'' (concat chunks) then drop 2 (concat chunks)
                       else if prefix (concat chunks) ''^C'' then [] else concat chunks))"
proof -
  have ok: "skip_inv (new_skip ''^C'', ''^C'')" by (simp add: skip_inv_def new_skip_def)
  show ?thesis
    unfolding skip_stream.feed_all_concat [OF ok] feed_skip_def
    by (subst skip_step) (auto simp: new_skip_def strict_prefix_def numeral_2_eq_2)
qed

end
