(* ===== verification/Sgr_Reader.thy ===== *)
theory Sgr_Reader
  imports Ansi_Style Utf8_Prefix
begin

section \<open>A terminal that reads SGR sequences\<close>

text \<open>
  The reference for what the rendering of the screen (internal/server/transcript.go) means to its reader: a
  terminal that knows the SGR parameters of ECMA-48 it can be sent, with a notion of look of its own, and
  refuses everything else. It shares no definition with the style tracking of the transcript.
\<close>

datatype shown_colour = Terminal_default | Palette nat | True_colour nat nat nat

record look =
  lk_bold :: bool
  lk_italic :: bool
  lk_underline :: bool
  lk_blink :: bool
  lk_fg :: shown_colour
  lk_bg :: shown_colour

definition plain_look :: look where
  "plain_look = \<lparr>lk_bold = False, lk_italic = False, lk_underline = False, lk_blink = False,
     lk_fg = Terminal_default, lk_bg = Terminal_default\<rparr>"

text \<open>The parameters after 38 and 48: a colour and what is left.\<close>

definition read_colour :: "nat list \<Rightarrow> (shown_colour \<times> nat list) option" where
  "read_colour ps =
     (case ps of m # n # rest \<Rightarrow>
        if m = 5 then (if n \<le> 255 then Some (Palette n, rest) else None)
        else if m = 2 then
          (case rest of g # b # rest' \<Rightarrow>
             if n \<le> 255 \<and> g \<le> 255 \<and> b \<le> 255 then Some (True_colour n g b, rest') else None
           | _ \<Rightarrow> None)
        else None
      | _ \<Rightarrow> None)"

lemma read_colour_shorter: "read_colour ps = Some (c, rest) \<Longrightarrow> length rest < length ps"
  by (auto simp: read_colour_def split: list.splits if_splits)

function read_sgr :: "nat list \<Rightarrow> look \<Rightarrow> look option" where
  "read_sgr [] l = Some l"
| "read_sgr (p # ps) l =
     (if p = 38 then (case read_colour ps of None \<Rightarrow> None | Some (c, rest) \<Rightarrow> read_sgr rest (l\<lparr>lk_fg := c\<rparr>))
      else if p = 48 then (case read_colour ps of None \<Rightarrow> None | Some (c, rest) \<Rightarrow> read_sgr rest (l\<lparr>lk_bg := c\<rparr>))
      else if p = 0 then read_sgr ps plain_look
      else if p = 1 then read_sgr ps (l\<lparr>lk_bold := True\<rparr>)
      else if p = 3 then read_sgr ps (l\<lparr>lk_italic := True\<rparr>)
      else if p = 4 then read_sgr ps (l\<lparr>lk_underline := True\<rparr>)
      else if p = 5 then read_sgr ps (l\<lparr>lk_blink := True\<rparr>)
      else None)"
  by pat_completeness auto
termination
  by (relation "measure (\<lambda>(ps, l). length ps)") (auto dest!: read_colour_shorter)

text \<open>What a line shows from a look on: every cell with its look and rune. \<open>None\<close> is a line with an escape the
  terminal does not know.\<close>

function read_screen :: "look \<Rightarrow> string \<Rightarrow> (look \<times> rune) list option" where
  "read_screen l [] = Some []"
| "read_screen l (c # cs) =
     (if c = chr_esc then
        (if cs \<noteq> [] \<and> hd cs = CHR ''['' then
           (let raw = takeWhile (\<lambda>b. b \<noteq> CHR ''m'') (tl cs) in
            if length (tl cs) \<le> length raw \<or> \<not> list_all (\<lambda>b. is_digit b \<or> b = CHR '';'') raw then None
            else (case read_sgr (map digits_value (split_on CHR '';'' raw)) l of None \<Rightarrow> None
              | Some l' \<Rightarrow> read_screen l' (drop (length raw + 2) cs)))
         else None)
      else (let r = decode_rune (c # cs) in
        map_option (Cons (l, fst r)) (read_screen l (drop (max 1 (snd r)) (c # cs)))))"
  by pat_completeness auto
termination
  by (relation "measure (\<lambda>(l, s). length s)") (auto simp: Let_def)

declare read_screen.simps(2) [simp del]

lemma read_screen_sgr:
  assumes "\<forall>p\<in>set parts. list_all is_digit p" "parts \<noteq> []"
  shows "read_screen l (chr_esc # CHR ''['' # join '';'' parts @ ''m'' @ rest) =
    (case read_sgr (map digits_value parts) l of None \<Rightarrow> None | Some l' \<Rightarrow> read_screen l' rest)"
proof -
  let ?raw = "join '';'' parts"
  have "set (join '';'' xs) \<subseteq> insert CHR '';'' (\<Union> (set ` set xs))" for xs
    by (induction "'';''" xs rule: join.induct) auto
  then have chars: "\<forall>c\<in>set ?raw. is_digit c \<or> c = CHR '';''"
    using assms(1) by (fastforce simp: list_all_iff)
  then have "CHR ''m'' \<notin> set ?raw" by (auto simp: is_digit_def)
  then have "takeWhile (\<lambda>b. b \<noteq> CHR ''m'') (?raw @ ''m'' @ rest) = ?raw" by (simp add: takeWhile_append)
  moreover have "split_on CHR '';'' ?raw = parts"
    using assms by (intro split_join) (fastforce simp: is_digit_def list_all_iff)+
  moreover have "drop (length ?raw + 2) (CHR ''['' # ?raw @ ''m'' @ rest) = rest" by simp
  moreover have "list_all (\<lambda>b. is_digit b \<or> b = CHR '';'') ?raw" using chars by (simp add: list_all_iff)
  ultimately show ?thesis
    by (cases "read_sgr (map digits_value parts) l") (simp_all add: read_screen.simps(2) Let_def)
qed

lemma read_screen_rune:
  assumes "valid_rune r" "r \<noteq> 27"
  shows "read_screen l (encode_rune r @ rest) = map_option (Cons (l, r)) (read_screen l rest)"
proof -
  obtain c cs where e: "encode_rune r = c # cs" by (cases "encode_rune r") simp_all
  have d: "decode_rune (encode_rune r @ rest) = (r, length (encode_rune r))" using decode_encode [OF assms(1)] .
  have "c \<noteq> chr_esc"
  proof
    assume "c = chr_esc"
    then have "decode_rune (encode_rune r @ rest) = (27, 1)" using e by simp
    then show False using d assms(2) by simp
  qed
  then show ?thesis using e d by (simp add: read_screen.simps(2))
qed

subsection \<open>Reading the sequence of a style\<close>

text \<open>The look a style of the code stands for; faint, concealed and struck-out text is not among the looks.\<close>

definition colour_of :: "ansi_color \<Rightarrow> shown_colour" where
  "colour_of c =
     (let v = unat (color_value c) in
      if color_kind c = 0 then Terminal_default else if color_kind c = 1 then Palette v
      else True_colour (v div 65536 mod 256) (v div 256 mod 256) (v mod 256))"

definition look_of :: "ansi_style \<Rightarrow> look" where
  "look_of s = \<lparr>lk_bold = st_bold s, lk_italic = st_italic s, lk_underline = st_underline s, lk_blink = st_blink s,
     lk_fg = colour_of (st_fg s), lk_bg = colour_of (st_bg s)\<rparr>"

definition wf_look :: "ansi_style \<Rightarrow> bool" where
  "wf_look s \<longleftrightarrow> wf_style s \<and> \<not> st_faint s \<and> \<not> st_conceal s \<and> \<not> st_strike s"

lemma unat_drop: "unat (drop_bit n v :: 32 word) = unat v div 2 ^ n"
  by (simp only: unat_drop_bit_eq drop_bit_eq_div [where ?'a = nat])

lemma unat_low: "unat (v AND 0xFF :: 32 word) = unat v mod 256"
proof -
  have "unat (v AND 0xFF) = take_bit 8 (unat v)" by (simp only: mask_8 flip: take_bit_eq_mask unsigned_take_bit_eq)
  then show ?thesis by (simp add: take_bit_eq_mod)
qed

lemma read_colour_codes:
  assumes "wf_color c" "c \<noteq> no_color"
  shows "\<exists>ps. color_codes c f = (if f then 38 else 48) # ps \<and> read_colour (ps @ rest) = Some (colour_of c, rest)"
  using assms unfolding wf_color_def
proof (elim disjE)
  assume "color_kind c = 1 \<and> unat (color_value c) \<le> 255"
  then show ?thesis by (simp add: color_codes_def read_colour_def colour_of_def Let_def)
next
  assume "color_kind c = 2 \<and> unat (color_value c) < 2 ^ 24"
  then show ?thesis
    using mod_less_divisor [of 256] by (simp add: color_codes_def read_colour_def colour_of_def Let_def unat_drop unat_low flip: less_Suc_eq_le)
qed simp

lemma read_sgr_colour:
  assumes "wf_color c"
  shows "read_sgr (color_codes c f @ rest) l =
    read_sgr rest (if c = no_color then l else if f then l\<lparr>lk_fg := colour_of c\<rparr> else l\<lparr>lk_bg := colour_of c\<rparr>)"
proof (cases "c = no_color")
  case True
  then show ?thesis by (simp add: color_codes_def no_color_def)
next
  case False
  then obtain ps where "color_codes c f = (if f then 38 else 48) # ps" "read_colour (ps @ rest) = Some (colour_of c, rest)"
    using read_colour_codes [OF assms] by blast
  with False show ?thesis by simp
qed

lemma colour_of_no_color [simp]: "colour_of no_color = Terminal_default"
  by (simp add: colour_of_def no_color_def)

lemma read_sgr_style:
  assumes "wf_look s"
  shows "read_sgr (style_codes s) plain_look = Some (look_of s)"
proof -
  have c: "wf_color (st_fg s)" "wf_color (st_bg s)" using assms by (simp_all add: wf_look_def wf_style_def)
  have flags: "read_sgr (flag_codes s @ rest) plain_look =
      read_sgr rest (look_of s\<lparr>lk_fg := Terminal_default, lk_bg := Terminal_default\<rparr>)" for rest
    using assms by (auto simp: wf_look_def flag_codes_def plain_look_def look_of_def)
  show ?thesis
    unfolding style_codes_def append_assoc flags read_sgr_colour [OF c(1)]
    using read_sgr_colour [OF c(2), of False "[]"] by (simp add: look_of_def)
qed

lemma read_screen_sequence:
  assumes "wf_look s"
  shows "read_screen plain_look (sequence s @ rest) = read_screen (look_of s) rest"
proof (cases "style_codes s = []")
  case True
  then show ?thesis using read_sgr_style [OF assms] by (simp add: sequence_def style_params_codes)
next
  case False
  have d: "\<forall>p\<in>set (map format_uint (style_codes s)). list_all is_digit p" using format_uint_props by auto
  have "map digits_value (map format_uint (style_codes s)) = style_codes s"
    using format_uint_props by (simp add: map_idI comp_def)
  then show ?thesis
    using read_screen_sgr [OF d, of plain_look rest] False read_sgr_style [OF assms]
    by (simp add: sequence_def style_params_codes)
qed

lemma read_screen_reset: "read_screen l (chr_esc # ''[0m'' @ rest) = read_screen plain_look rest"
  using read_screen_sgr [of "[''0'']" l rest] by (simp add: is_digit_def digits_value_def)

end
