(* ===== verification/Terminal_Screen.thy ===== *)
theory Terminal_Screen
  imports Sgr_Reader Ansi_Transcript Utf8_Prefix Command_Markers Server_Protocol
begin

section \<open>The screen of a PTY (internal/server/transcript.go, internal/server/tab.go)\<close>

text \<open>
  The terminal emulator, package vt10x, is not part of the sources: what the code reads of it is the record
  \<open>terminal\<close>, and its \<open>Write\<close> is an argument. \<open>dfg\<close> and \<open>dbg\<close> are its default colours. The code renders the
  screen with the style sequences of the transcript, and feeds the emulator with whole runes.
\<close>

record glyph =
  gl_char :: rune
  gl_mode :: "16 word"
  gl_fg :: "32 word"
  gl_bg :: "32 word"

record terminal =
  tm_cols :: nat
  tm_rows :: nat
  tm_cell :: "nat \<Rightarrow> nat \<Rightarrow> glyph"
  tm_cursor :: "int \<times> nat"
  tm_alt_screen :: bool

subsection \<open>Styles of glyphs\<close>

definition vtAttrUnderline :: "16 word" where "vtAttrUnderline = push_bit 1 1"
definition vtAttrBold :: "16 word" where "vtAttrBold = push_bit 2 1"
definition vtAttrItalic :: "16 word" where "vtAttrItalic = push_bit 4 1"
definition vtAttrBlink :: "16 word" where "vtAttrBlink = push_bit 5 1"

definition terminalColor :: "32 word \<Rightarrow> 32 word \<Rightarrow> 32 word \<Rightarrow> ansi_color" where
  "terminalColor dfg color defaultColor =
     (if color = defaultColor then no_color
      else if color \<le> 255 then indexedColor color
      else if color < dfg
      then rgbColor (drop_bit 16 color AND 0xFF) (drop_bit 8 color AND 0xFF) (color AND 0xFF)
      else no_color)"

definition glyphStyle :: "32 word \<Rightarrow> 32 word \<Rightarrow> glyph \<Rightarrow> ansi_style" where
  "glyphStyle dfg dbg g =
     default_style\<lparr>st_bold := (gl_mode g AND vtAttrBold \<noteq> 0), st_italic := (gl_mode g AND vtAttrItalic \<noteq> 0),
       st_underline := (gl_mode g AND vtAttrUnderline \<noteq> 0), st_blink := (gl_mode g AND vtAttrBlink \<noteq> 0),
       st_fg := terminalColor dfg (gl_fg g) dfg, st_bg := terminalColor dfg (gl_bg g) dbg\<rparr>"

definition glyphMeaningful :: "32 word \<Rightarrow> 32 word \<Rightarrow> glyph \<Rightarrow> bool" where
  "glyphMeaningful dfg dbg g \<longleftrightarrow> (gl_char g \<noteq> 0 \<and> gl_char g \<noteq> 32) \<or> \<not> isDefault (glyphStyle dfg dbg g)"

text \<open>A cell that was never written shows a space.\<close>

definition shown_char :: "glyph \<Rightarrow> rune" where
  "shown_char g = (if gl_char g = 0 then 32 else gl_char g)"

subsection \<open>Rendering\<close>

definition ansi_reset :: string where
  "ansi_reset = chr_esc # ''[0m''"

text \<open>The loop of \<open>renderGlyphs\<close>: what it writes, from a current style on.\<close>

fun render_from :: "32 word \<Rightarrow> 32 word \<Rightarrow> ansi_style \<Rightarrow> glyph list \<Rightarrow> string" where
  "render_from dfg dbg current [] = (if \<not> isDefault current then ansi_reset else [])"
| "render_from dfg dbg current (g # gs) =
     (let style = glyphStyle dfg dbg g in
      (if style \<noteq> current then ansi_reset @ sequence style else []) @
      encode_rune (shown_char g) @ render_from dfg dbg style gs)"

definition trim_prefix :: "string \<Rightarrow> string \<Rightarrow> string" where
  "trim_prefix s p = (if prefix p s then drop (length p) s else s)"

definition renderGlyphs :: "32 word \<Rightarrow> 32 word \<Rightarrow> glyph list \<Rightarrow> string" where
  "renderGlyphs dfg dbg gs = trim_prefix (render_from dfg dbg default_style gs) ansi_reset"

text \<open>A row up to its last cell that shows anything.\<close>

definition row_glyphs :: "32 word \<Rightarrow> 32 word \<Rightarrow> terminal \<Rightarrow> nat \<Rightarrow> glyph list" where
  "row_glyphs dfg dbg t y =
     trim_right (\<lambda>g. \<not> glyphMeaningful dfg dbg g) (map (\<lambda>x. tm_cell t x y) [0..<tm_cols t])"

definition render_row :: "32 word \<Rightarrow> 32 word \<Rightarrow> terminal \<Rightarrow> nat \<Rightarrow> string list" where
  "render_row dfg dbg t y =
     (let gs = row_glyphs dfg dbg t y in
      if gs = [] then [[]]
      else if isInternalMarkerLine (encode_runes (map shown_char gs)) then []
      else [renderGlyphs dfg dbg gs])"

definition screen_lines :: "32 word \<Rightarrow> 32 word \<Rightarrow> terminal \<Rightarrow> int \<Rightarrow> string list" where
  "screen_lines dfg dbg t count =
     (let lines = trim_right (\<lambda>l. l = []) (concat (map (render_row dfg dbg t) [0..<tm_rows t]))
      in if 0 < count \<and> count < int (length lines) then take_last (nat count) lines else lines)"

definition renderTerminalScreen :: "32 word \<Rightarrow> 32 word \<Rightarrow> terminal \<Rightarrow> int \<Rightarrow> string" where
  "renderTerminalScreen dfg dbg t count = join [chr_lf] (screen_lines dfg dbg t count)"

subsection \<open>The operations of the runner that look at the terminal\<close>

text \<open>\<open>Read\<close>; a runner without a terminal has \<open>None\<close>.\<close>

definition Runner_Read :: "32 word \<Rightarrow> 32 word \<Rightarrow> terminal option \<Rightarrow> ansiTranscript \<Rightarrow> int \<Rightarrow> run_result" where
  "Runner_Read dfg dbg term transcript count =
     (case term of
        None \<Rightarrow> \<lparr>rr_output = [], rr_exit_code = 0, rr_truncated = False\<rparr>
      | Some t \<Rightarrow>
          \<lparr>rr_output = (if 0 < count
              then (if tm_alt_screen t then renderTerminalScreen dfg dbg t count else RecentLines transcript count)
              else renderTerminalScreen dfg dbg t 0), rr_exit_code = 0, rr_truncated = False\<rparr>)"

definition currentLine :: "terminal option \<Rightarrow> string" where
  "currentLine term =
     (case term of None \<Rightarrow> []
      | Some t \<Rightarrow> (case tm_cursor t of (cx, cy) \<Rightarrow>
          if cx \<le> 0 then [] else encode_runes (map (\<lambda>x. shown_char (tm_cell t x cy)) [0..<nat cx])))"

text \<open>
  \<open>observe\<close> hands the emulator what it has up to the last whole rune and keeps what the emulator did not take;
  \<open>vt_write\<close> returns how many bytes that was. A runner without a terminal only passes the data on. A slice out of
  range or a panic of the transcript is \<open>None\<close>.
\<close>

record 't pty_screen =
  sn_term :: "'t option"
  sn_pending :: string
  sn_transcript :: ansiTranscript

definition observe :: "('t \<Rightarrow> string \<Rightarrow> 't \<times> nat) \<Rightarrow> string \<Rightarrow> 't pty_screen \<Rightarrow> ('t pty_screen \<times> string) option" where
  "observe vt_write data s =
     (case sn_term s of
        None \<Rightarrow> Some (s, data)
      | Some term \<Rightarrow>
          (let terminalData = sn_pending s @ data;
               complete = completeUTF8Prefix terminalData
           in case vt_write term (take complete terminalData) of (t, written) \<Rightarrow>
             if length terminalData < written then None
             else (case transcript_write (sn_transcript s) data of
               None \<Rightarrow> None
             | Some transcript \<Rightarrow>
                 Some (\<lparr>sn_term = Some t, sn_pending = drop written terminalData, sn_transcript = transcript\<rparr>, data))))"

subsection \<open>Reading a rendered row\<close>

text \<open>
  The reference: how a cell looks. The attributes are single bits of the mode; a colour is the terminal's own when
  the cell has the default of its side, an entry of the palette up to 255, and 24 bits of RGB below the default
  foreground, above which vt10x keeps its special colours.
\<close>

definition cell_colour :: "32 word \<Rightarrow> 32 word \<Rightarrow> 32 word \<Rightarrow> shown_colour" where
  "cell_colour dfg own c =
     (if c = own then Terminal_default
      else if unat c < 256 then Palette (unat c)
      else if unat c < unat dfg then True_colour (unat c div 65536 mod 256) (unat c div 256 mod 256) (unat c mod 256)
      else Terminal_default)"

definition cell_look :: "32 word \<Rightarrow> 32 word \<Rightarrow> glyph \<Rightarrow> look" where
  "cell_look dfg dbg g =
     \<lparr>lk_bold = bit (gl_mode g) 2, lk_italic = bit (gl_mode g) 4, lk_underline = bit (gl_mode g) 1, lk_blink = bit (gl_mode g) 5,
      lk_fg = cell_colour dfg dfg (gl_fg g), lk_bg = cell_colour dfg dbg (gl_bg g)\<rparr>"

definition cell_rune :: "glyph \<Rightarrow> rune" where
  "cell_rune g = (if gl_char g = 0 then 32 else gl_char g)"

definition blank_cell :: "32 word \<Rightarrow> 32 word \<Rightarrow> glyph \<Rightarrow> bool" where
  "blank_cell dfg dbg g \<longleftrightarrow> cell_rune g = 32 \<and> cell_look dfg dbg g = plain_look"

lemma mode_bit: "(m AND push_bit n 1 \<noteq> (0 :: 16 word)) = bit m n"
proof
  assume "bit m n"
  then have "bit (m AND push_bit n 1) n"
    using bit_imp_le_length [of m n] by (simp add: bit_simps)
  then show "m AND push_bit n 1 \<noteq> 0" by auto
next
  assume "m AND push_bit n 1 \<noteq> 0"
  then obtain i where "bit (m AND push_bit n 1) i" by (auto simp: bit_eq_iff)
  then show "bit m n" by (auto simp: bit_simps)
qed

lemma attr_bits:
  "m AND vtAttrBold \<noteq> 0 \<longleftrightarrow> bit m 2" "m AND vtAttrItalic \<noteq> 0 \<longleftrightarrow> bit m 4"
  "m AND vtAttrUnderline \<noteq> 0 \<longleftrightarrow> bit m 1" "m AND vtAttrBlink \<noteq> 0 \<longleftrightarrow> bit m 5"
  unfolding vtAttrBold_def vtAttrItalic_def vtAttrUnderline_def vtAttrBlink_def by (rule mode_bit)+

lemma wf_terminalColor: "wf_color (terminalColor dfg c d)"
proof -
  have "wf_color (indexedColor c)" if "c \<le> 255" using that by (simp add: wf_color_def indexedColor_def word_le_nat_alt)
  moreover have "wf_color (rgbColor (drop_bit 16 c AND 0xFF) (drop_bit 8 c AND 0xFF) (c AND 0xFF))"
    unfolding wf_color_def rgbColor_def using rgb_bits [OF byte_le byte_le byte_le, of "drop_bit 16 c" "drop_bit 8 c" c] by simp
  ultimately show ?thesis by (simp add: terminalColor_def)
qed

lemma wf_glyphStyle: "wf_look (glyphStyle dfg dbg g)"
  by (simp add: wf_look_def wf_style_def glyphStyle_def wf_terminalColor default_style_def)

lemma rgb_bytes:
  fixes c :: "32 word"
  defines "v \<equiv> push_bit 16 (drop_bit 16 c AND 0xFF) OR push_bit 8 (drop_bit 8 c AND 0xFF) OR (c AND 0xFF)"
  shows "drop_bit 16 v AND 0xFF = drop_bit 16 c AND 0xFF" "drop_bit 8 v AND 0xFF = drop_bit 8 c AND 0xFF" "v AND 0xFF = c AND 0xFF"
  unfolding v_def mask_8 by (rule bit_word_eqI; auto simp: bit_simps)+

lemma colour_of_rgb:
  "colour_of (rgbColor (drop_bit 16 c AND 0xFF) (drop_bit 8 c AND 0xFF) (c AND 0xFF)) =
     True_colour (unat c div 65536 mod 256) (unat c div 256 mod 256) (unat c mod 256)"
proof -
  let ?v = "push_bit 16 (drop_bit 16 c AND 0xFF) OR push_bit 8 (drop_bit 8 c AND 0xFF) OR (c AND 0xFF)"
  have b: "unat w div 65536 mod 256 = unat (drop_bit 16 w AND 0xFF)" "unat w div 256 mod 256 = unat (drop_bit 8 w AND 0xFF)"
    "unat w mod 256 = unat (w AND 0xFF)" for w :: "32 word"
    using unat_low [of "drop_bit 16 w"] unat_low [of "drop_bit 8 w"] unat_low [of w] by (simp_all add: unat_drop)
  have "color_kind (rgbColor (drop_bit 16 c AND 0xFF) (drop_bit 8 c AND 0xFF) (c AND 0xFF)) = 2"
    "color_value (rgbColor (drop_bit 16 c AND 0xFF) (drop_bit 8 c AND 0xFF) (c AND 0xFF)) = ?v" by (simp_all add: rgbColor_def)
  then show ?thesis unfolding colour_of_def Let_def b by (simp only: rgb_bytes) simp
qed

lemma cell_colour_eq: "colour_of (terminalColor dfg c d) = cell_colour dfg d c"
  by (simp add: terminalColor_def cell_colour_def colour_of_rgb word_le_nat_alt word_less_nat_alt less_Suc_eq_le
      indexedColor_def colour_of_def [of "\<lparr>color_kind = 1, color_value = c\<rparr>"])

lemma cell_look_eq: "look_of (glyphStyle dfg dbg g) = cell_look dfg dbg g"
  by (simp add: look_of_def glyphStyle_def cell_look_def cell_colour_eq attr_bits)

lemma colour_of_default: "wf_color c \<Longrightarrow> colour_of c = Terminal_default \<longleftrightarrow> c = no_color"
  by (auto simp: wf_color_def colour_of_def no_color_def Let_def)

lemma plain_style: "wf_look s \<Longrightarrow> look_of s = plain_look \<longleftrightarrow> s = default_style"
  by (cases s) (auto simp: wf_look_def wf_style_def look_of_def plain_look_def default_style_def colour_of_default)

lemma blank_iff: "blank_cell dfg dbg g \<longleftrightarrow> \<not> glyphMeaningful dfg dbg g"
  by (auto simp: blank_cell_def glyphMeaningful_def cell_rune_def isDefault_def plain_style [OF wf_glyphStyle] simp flip: cell_look_eq)

lemma cell_rune_eq: "shown_char g = cell_rune g"
  by (simp add: shown_char_def cell_rune_def)

lemma read_render_from:
  assumes "\<forall>g\<in>set gs. valid_rune (cell_rune g) \<and> cell_rune g \<noteq> 27"
  shows "read_screen (look_of st) (render_from dfg dbg st gs) = Some (map (\<lambda>g. (cell_look dfg dbg g, cell_rune g)) gs)"
  using assms
proof (induction gs arbitrary: st)
  case Nil
  then show ?case using read_screen_reset [of "look_of st" "[]"] by (simp add: ansi_reset_def)
next
  case (Cons g gs)
  then have g: "valid_rune (cell_rune g)" "cell_rune g \<noteq> 27" by simp_all
  let ?s = "glyphStyle dfg dbg g"
  have "read_screen (look_of st) ((if ?s \<noteq> st then ansi_reset @ sequence ?s else []) @ rest) = read_screen (look_of ?s) rest" for rest
    using read_screen_reset [of "look_of st" "sequence ?s @ rest"] read_screen_sequence [OF wf_glyphStyle, of dfg dbg g rest]
    by (simp add: ansi_reset_def)
  then show ?case
    using Cons.prems Cons.IH [of ?s] read_screen_rune [OF g] by (simp add: Let_def cell_rune_eq cell_look_eq)
qed

lemma read_renderGlyphs:
  assumes "\<forall>g\<in>set gs. valid_rune (cell_rune g) \<and> cell_rune g \<noteq> 27"
  shows "read_screen plain_look (renderGlyphs dfg dbg gs) = Some (map (\<lambda>g. (cell_look dfg dbg g, cell_rune g)) gs)"
proof -
  let ?r = "render_from dfg dbg default_style gs"
  have plain: "look_of default_style = plain_look" by (simp add: look_of_def plain_look_def default_style_def)
  have "read_screen plain_look (renderGlyphs dfg dbg gs) = read_screen plain_look ?r"
  proof (cases "prefix ansi_reset ?r")
    case True
    then obtain rest where "?r = ansi_reset @ rest" by (auto simp: prefix_def)
    then show ?thesis
      using read_screen_reset [of plain_look rest] by (simp add: renderGlyphs_def trim_prefix_def ansi_reset_def)
  qed (simp add: renderGlyphs_def trim_prefix_def)
  then show ?thesis using read_render_from [OF assms, of default_style dfg dbg] by (simp only: plain)
qed

text \<open>The columns a row is shown to: what follows is blank, and the last one is not.\<close>

lemma trim_right_columns:
  "\<exists>n\<le>m. trim_right P (map f [0..<m]) = map f [0..<n] \<and> (\<forall>x<m. n \<le> x \<longrightarrow> P (f x)) \<and> (0 < n \<longrightarrow> \<not> P (f (n - 1)))"
proof (induction m)
  case (Suc m)
  show ?case
  proof (cases "P (f m)")
    case True
    then show ?thesis using Suc by (simp add: less_Suc_eq) (metis le_SucI)
  next
    case False
    then show ?thesis by (intro exI [of _ "Suc m"]) simp
  qed
qed (simp add: trim_right_def)

text \<open>C38: a row of the screen is cut after its last cell that shows anything. A row that holds one of the shell's
  markers is dropped; of every other row a terminal that prints the line shows exactly its cells up to there, each
  with its character, colours and attributes, and nothing else. What it shows is read by a terminal of its own, and
  how a cell looks is a reference on the bits of the cell.\<close>

lemma rendered_row_reads_back:
  assumes "\<forall>x<tm_cols t. valid_rune (cell_rune (tm_cell t x y)) \<and> cell_rune (tm_cell t x y) \<noteq> 27"
  shows "\<exists>n\<le>tm_cols t.
    (\<forall>x<tm_cols t. n \<le> x \<longrightarrow> blank_cell dfg dbg (tm_cell t x y)) \<and>
    (0 < n \<longrightarrow> \<not> blank_cell dfg dbg (tm_cell t (n - 1) y)) \<and>
    (if \<exists>m\<in>{''__ptymux_status=$?'', ''__ptymux_token_a='', ''__ptymux_token_b='', ''$__ptymux_token_a'',
          ''$__ptymux_token_b'', ''$__ptymux_status'', ''__PTYMUX_DONE_''}.
          sublist m (encode_runes (map (\<lambda>x. cell_rune (tm_cell t x y)) [0..<n]))
     then render_row dfg dbg t y = []
     else \<exists>l. render_row dfg dbg t y = [l] \<and> (n = 0 \<longrightarrow> l = []) \<and>
       read_screen plain_look l =
         Some (map (\<lambda>x. (cell_look dfg dbg (tm_cell t x y), cell_rune (tm_cell t x y))) [0..<n]))"
proof -
  let ?f = "\<lambda>x. tm_cell t x y"
  obtain n where n: "n \<le> tm_cols t" "row_glyphs dfg dbg t y = map ?f [0..<n]"
    "\<forall>x<tm_cols t. n \<le> x \<longrightarrow> blank_cell dfg dbg (?f x)" "0 < n \<longrightarrow> \<not> blank_cell dfg dbg (?f (n - 1))"
    using trim_right_columns [of "tm_cols t" "\<lambda>g. \<not> glyphMeaningful dfg dbg g" ?f] unfolding row_glyphs_def blank_iff by blast
  define M where "M = isInternalMarkerLine (encode_runes (map (\<lambda>x. cell_rune (?f x)) [0..<n]))"
  have gs: "\<forall>g\<in>set (map ?f [0..<n]). valid_rune (cell_rune g) \<and> cell_rune g \<noteq> 27" using assms n(1) by auto
  have r: "render_row dfg dbg t y = (if n = 0 then [[]] else if M then [] else [renderGlyphs dfg dbg (map ?f [0..<n])])"
    by (simp add: render_row_def n(2) M_def cell_rune_eq Let_def comp_def)
  have "n = 0 \<Longrightarrow> \<not> M" by (simp add: M_def isInternalMarkerLine_def internal_markers_def contains_def)
  then have "if M then render_row dfg dbg t y = [] else \<exists>l. render_row dfg dbg t y = [l] \<and> (n = 0 \<longrightarrow> l = []) \<and>
      read_screen plain_look l = Some (map (\<lambda>x. (cell_look dfg dbg (?f x), cell_rune (?f x))) [0..<n])"
    using read_renderGlyphs [OF gs, of dfg dbg] by (auto simp: r comp_def)
  moreover have "M \<longleftrightarrow> (\<exists>m\<in>{''__ptymux_status=$?'', ''__ptymux_token_a='', ''__ptymux_token_b='', ''$__ptymux_token_a'',
          ''$__ptymux_token_b'', ''$__ptymux_status'', ''__PTYMUX_DONE_''}.
          sublist m (encode_runes (map (\<lambda>x. cell_rune (?f x)) [0..<n])))"
    unfolding M_def isInternalMarkerLine_def internal_markers_def contains_def list_ex_iff by (simp only: set_simps)
  ultimately show ?thesis using n by (intro exI [of _ n]) (simp only: simp_thms)
qed

definition sample_terminal :: terminal where
  "sample_terminal = \<lparr>tm_cols = 3, tm_rows = 1,
     tm_cell = (\<lambda>x y. \<lparr>gl_char = (if x = 0 then 104 else if x = 1 then 105 else 0), gl_mode = (if x = 1 then 4 else 0),
       gl_fg = (if x = 1 then 0x010203 else 0x1000000), gl_bg = 0x1000001\<rparr>),
     tm_cursor = (2, 0), tm_alt_screen = False\<rparr>"

lemma sample_cells:
  "cell_rune (tm_cell sample_terminal 0 0) = 104" "cell_rune (tm_cell sample_terminal (Suc 0) 0) = 105"
  "cell_look 0x1000000 0x1000001 (tm_cell sample_terminal 0 0) = plain_look"
  "cell_look 0x1000000 0x1000001 (tm_cell sample_terminal (Suc 0) 0) = plain_look\<lparr>lk_bold := True, lk_fg := True_colour 1 2 3\<rparr>"
  "\<not> blank_cell 0x1000000 0x1000001 (tm_cell sample_terminal 1 0)" "blank_cell 0x1000000 0x1000001 (tm_cell sample_terminal 2 0)"
  by (simp_all add: sample_terminal_def cell_rune_def cell_look_def cell_colour_def plain_look_def blank_cell_def bit_iff_odd)

lemma rendered_row_reads_back_witness:
  "\<exists>l. render_row 0x1000000 0x1000001 sample_terminal 0 = [l] \<and>
     read_screen plain_look l = Some [(plain_look, 104), (plain_look\<lparr>lk_bold := True, lk_fg := True_colour 1 2 3\<rparr>, 105)]"
proof -
  have "\<forall>x<tm_cols sample_terminal. valid_rune (cell_rune (tm_cell sample_terminal x 0)) \<and> cell_rune (tm_cell sample_terminal x 0) \<noteq> 27"
    by (auto simp: sample_terminal_def cell_rune_def valid_rune_def)
  from rendered_row_reads_back [of sample_terminal 0 "0x1000000" "0x1000001", OF this] obtain n where
    n: "n \<le> 3" "\<forall>x<3. n \<le> x \<longrightarrow> blank_cell 0x1000000 0x1000001 (tm_cell sample_terminal x 0)"
      "0 < n \<longrightarrow> \<not> blank_cell 0x1000000 0x1000001 (tm_cell sample_terminal (n - 1) 0)"
    and row: "if \<exists>m\<in>{''__ptymux_status=$?'', ''__ptymux_token_a='', ''__ptymux_token_b='', ''$__ptymux_token_a'',
          ''$__ptymux_token_b'', ''$__ptymux_status'', ''__PTYMUX_DONE_''}.
          sublist m (encode_runes (map (\<lambda>x. cell_rune (tm_cell sample_terminal x 0)) [0..<n]))
     then render_row 0x1000000 0x1000001 sample_terminal 0 = []
     else \<exists>l. render_row 0x1000000 0x1000001 sample_terminal 0 = [l] \<and> (n = 0 \<longrightarrow> l = []) \<and>
       read_screen plain_look l = Some (map (\<lambda>x. (cell_look 0x1000000 0x1000001 (tm_cell sample_terminal x 0),
         cell_rune (tm_cell sample_terminal x 0))) [0..<n])"
    by (auto simp: sample_terminal_def)
  have "n \<noteq> 3" using n(3) sample_cells(6) by auto
  moreover have "1 < n" using n(2) [rule_format, of 1] sample_cells(5) by (metis linorder_not_le one_less_numeral_iff semiring_norm(77))
  ultimately have "n = 2" using n(1) by simp
  then show ?thesis using row by (simp add: sample_cells numeral_2_eq_2 encode_rune_ascii sublist_Cons_right)
qed

subsection \<open>The emulator gets whole runes\<close>

fun observe_all :: "('t \<Rightarrow> string \<Rightarrow> 't \<times> nat) \<Rightarrow> string list \<Rightarrow> 't pty_screen \<Rightarrow> 't pty_screen option" where
  "observe_all vt_write [] s = Some s"
| "observe_all vt_write (d # ds) s =
     (case observe vt_write d s of None \<Rightarrow> None | Some (s', chunk) \<Rightarrow> observe_all vt_write ds s')"

lemma valid_utf8_drop: "valid_utf8 (a @ b) \<Longrightarrow> valid_utf8 a \<Longrightarrow> valid_utf8 b"
  by (metis encode_runes_runes valid_encode_append valid_runes)

text \<open>
  What an emulator that is offered pieces ends as, and the bytes it took of them: of each piece a prefix, by the
  contract of \<open>io.Writer\<close>. vt10x stops at bytes that are not UTF-8.
\<close>

fun offer :: "('t \<Rightarrow> string \<Rightarrow> 't \<times> nat) \<Rightarrow> 't \<Rightarrow> string list \<Rightarrow> 't \<times> string" where
  "offer vt_write t [] = (t, [])"
| "offer vt_write t (p # ps) =
     (case vt_write t p of (t1, n) \<Rightarrow> (case offer vt_write t1 ps of (t', taken) \<Rightarrow> (t', take n p @ taken)))"

lemma observe_step:
  fixes d :: string
  assumes "\<And>t d. snd (vt_write t d) \<le> length d" "transcript_inv (sn_transcript s)" "sn_term s = Some tm"
  defines "D \<equiv> sn_pending s @ d"
  shows "\<exists>s' tr t n. observe vt_write d s = Some (s', d) \<and>
    transcript_write (sn_transcript s) d = Some tr \<and> transcript_inv tr \<and>
    vt_write tm (take (completeUTF8Prefix D) D) = (t, n) \<and> n \<le> completeUTF8Prefix D \<and>
    s' = \<lparr>sn_term = Some t, sn_pending = drop n D, sn_transcript = tr\<rparr>"
proof -
  obtain tr where "transcript_write (sn_transcript s) d = Some tr" "transcript_inv tr"
    using transcript_stream.feed_total [OF assms(2)] by blast
  moreover have le: "completeUTF8Prefix D \<le> length D" by (rule completeUTF8Prefix_le)
  moreover obtain t n where w: "vt_write tm (take (completeUTF8Prefix D) D) = (t, n)" by fastforce
  moreover have "n \<le> completeUTF8Prefix D" using assms(1) [of tm "take (completeUTF8Prefix D) D"] le w by simp
  ultimately show ?thesis using assms(3) unfolding observe_def D_def [symmetric] Let_def by simp
qed

lemma observe_all_pieces:
  assumes "\<And>t d. snd (vt_write t d) \<le> length d" "transcript_inv (sn_transcript s)" "sn_term s = Some tm"
  shows "\<exists>s' pieces. observe_all vt_write ds s = Some s' \<and>
    transcript_write (sn_transcript s) (concat ds) = Some (sn_transcript s') \<and>
    length pieces = length ds \<and> sn_term s' = Some (fst (offer vt_write tm pieces)) \<and>
    snd (offer vt_write tm pieces) @ sn_pending s' = sn_pending s @ concat ds \<and>
    (\<forall>i<length ds. \<exists>held. length held \<le> 3 \<and>
      snd (offer vt_write tm (take i pieces)) @ pieces ! i @ held = sn_pending s @ concat (take (Suc i) ds)) \<and>
    ((\<forall>t d. valid_utf8 d \<longrightarrow> snd (vt_write t d) = length d) \<and> length (sn_pending s) \<le> 3 \<and>
      valid_utf8 (sn_pending s @ concat ds @ rest) \<longrightarrow>
      (\<forall>p\<in>set pieces. valid_utf8 p) \<and> concat pieces @ sn_pending s' = sn_pending s @ concat ds \<and> length (sn_pending s') \<le> 3)"
  using assms(2,3)
proof (induction ds arbitrary: s tm)
  case Nil
  then show ?case by (intro exI [of _ s] exI [of _ "[]"]) (simp add: transcript_stream.feed_Nil)
next
  case (Cons d ds)
  define D where "D = sn_pending s @ d"
  define P where "P = take (completeUTF8Prefix D) D"
  obtain s1 tr t n where step: "observe vt_write d s = Some (s1, d)" "transcript_write (sn_transcript s) d = Some tr" "transcript_inv tr"
    "vt_write tm P = (t, n)" "n \<le> completeUTF8Prefix D"
    and s1: "sn_term s1 = Some t" "sn_pending s1 = drop n D" "sn_transcript s1 = tr"
    using observe_step [of vt_write, OF assms(1) Cons.prems, of d] unfolding D_def [symmetric] P_def [symmetric]
    by (metis pty_screen.select_convs)
  have taken: "take n P = take n D" unfolding P_def using step(5) by simp
  have D: "take n D @ sn_pending s1 = D" unfolding s1(2) by (rule append_take_drop_id)
  have held: "P @ drop (completeUTF8Prefix D) D = D" unfolding P_def by (rule append_take_drop_id)
  obtain s' pieces where rec: "observe_all vt_write ds s1 = Some s'"
    "transcript_write tr (concat ds) = Some (sn_transcript s')"
    "length pieces = length ds" "sn_term s' = Some (fst (offer vt_write t pieces))"
    "snd (offer vt_write t pieces) @ sn_pending s' = sn_pending s1 @ concat ds"
    "\<forall>i<length ds. \<exists>held. length held \<le> 3 \<and>
      snd (offer vt_write t (take i pieces)) @ pieces ! i @ held = sn_pending s1 @ concat (take (Suc i) ds)"
    "(\<forall>t d. valid_utf8 d \<longrightarrow> snd (vt_write t d) = length d) \<and> length (sn_pending s1) \<le> 3 \<and>
      valid_utf8 (sn_pending s1 @ concat ds @ rest) \<longrightarrow>
      (\<forall>p\<in>set pieces. valid_utf8 p) \<and> concat pieces @ sn_pending s' = sn_pending s1 @ concat ds \<and> length (sn_pending s') \<le> 3"
    using Cons.IH [of s1 t] step(3) s1(1) unfolding s1(3) by blast
  have offer: "offer vt_write tm (P # qs) = (fst (offer vt_write t qs), take n D @ snd (offer vt_write t qs))" for qs
    by (simp add: step(4) taken split: prod.splits)
  have rest3: "length (drop (completeUTF8Prefix D) D) \<le> 3" using completeUTF8Prefix_rest [of D] by auto
  have "\<forall>i<length (d # ds). \<exists>held. length held \<le> 3 \<and>
      snd (offer vt_write tm (take i (P # pieces))) @ (P # pieces) ! i @ held = sn_pending s @ concat (take (Suc i) (d # ds))"
  proof (intro allI impI)
    fix i assume i: "i < length (d # ds)"
    show "\<exists>held. length held \<le> 3 \<and>
      snd (offer vt_write tm (take i (P # pieces))) @ (P # pieces) ! i @ held = sn_pending s @ concat (take (Suc i) (d # ds))"
    proof (cases i)
      case 0
      then show ?thesis using held rest3 by (intro exI [of _ "drop (completeUTF8Prefix D) D"]) (simp add: D_def)
    next
      case (Suc j)
      then obtain h where h: "length h \<le> 3"
        "snd (offer vt_write t (take j pieces)) @ pieces ! j @ h = sn_pending s1 @ concat (take (Suc j) ds)"
        using rec(6) i by auto
      have "take n D @ sn_pending s1 @ concat (take (Suc j) ds) = sn_pending s @ concat (take (Suc i) (d # ds))"
        using D Suc by (simp add: D_def flip: append_assoc)
      then show ?thesis using h Suc by (intro exI [of _ h]) (simp add: offer del: offer.simps)
    qed
  qed
  moreover have "(\<forall>t d. valid_utf8 d \<longrightarrow> snd (vt_write t d) = length d) \<and> length (sn_pending s) \<le> 3 \<and>
      valid_utf8 (sn_pending s @ concat (d # ds) @ rest) \<longrightarrow>
      (\<forall>p\<in>set (P # pieces). valid_utf8 p) \<and> concat (P # pieces) @ sn_pending s' = sn_pending s @ concat (d # ds) \<and>
      length (sn_pending s') \<le> 3"
  proof (rule impI)
    assume whole: "(\<forall>t d. valid_utf8 d \<longrightarrow> snd (vt_write t d) = length d) \<and> length (sn_pending s) \<le> 3 \<and>
      valid_utf8 (sn_pending s @ concat (d # ds) @ rest)"
    have v: "valid_utf8 (D @ concat ds @ rest)" using whole by (simp add: D_def)
    then have p: "valid_utf8 P" unfolding P_def by (rule completeUTF8Prefix_cut)
    then have "n = length P" using whole step(4) by (metis snd_conv)
    then have n: "n = completeUTF8Prefix D" unfolding P_def using completeUTF8Prefix_le [of D] by simp
    have PD: "P @ sn_pending s1 = D" using held n s1(2) by simp
    then have "valid_utf8 (P @ sn_pending s1 @ concat ds @ rest)" using v by (metis append.assoc)
    then have "valid_utf8 (sn_pending s1 @ concat ds @ rest)" using p valid_utf8_drop by blast
    then have "(\<forall>p\<in>set pieces. valid_utf8 p) \<and> concat pieces @ sn_pending s' = sn_pending s1 @ concat ds \<and> length (sn_pending s') \<le> 3"
      using rec(7) whole rest3 unfolding s1(2) n by blast
    moreover have "P @ sn_pending s1 @ concat ds = sn_pending s @ concat (d # ds)"
      unfolding append_assoc [symmetric] PD by (simp add: D_def)
    ultimately show "(\<forall>p\<in>set (P # pieces). valid_utf8 p) \<and> concat (P # pieces) @ sn_pending s' = sn_pending s @ concat (d # ds) \<and>
      length (sn_pending s') \<le> 3"
      using p by simp
  qed
  moreover have "snd (offer vt_write tm (P # pieces)) @ sn_pending s' = sn_pending s @ concat (d # ds)"
  proof -
    have "take n D @ sn_pending s1 @ concat ds = sn_pending s @ concat (d # ds)"
      unfolding append_assoc [symmetric] D by (simp add: D_def)
    then show ?thesis unfolding offer snd_conv append_assoc rec(5) .
  qed
  moreover have "transcript_write (sn_transcript s) (concat (d # ds)) = Some (sn_transcript s')"
    using transcript_stream.feed_append [OF Cons.prems(1), of d "concat ds"] step(2) rec(2) by simp
  moreover have "sn_term s' = Some (fst (offer vt_write tm (P # pieces)))" using rec(4) by (simp add: offer del: offer.simps)
  moreover have "observe_all vt_write (d # ds) s = Some s'" using step(1) rec(1) by simp
  moreover have "length (P # pieces) = length (d # ds)" using rec(3) by simp
  ultimately show ?case by - (rule exI [of _ s'], rule exI [of _ "P # pieces"], (intro conjI; assumption))
qed

lemma observe_all_no_terminal: "sn_term s = None \<Longrightarrow> observe_all vt_write ds s = Some s"
  by (induction ds) (simp_all add: observe_def)

text \<open>C39: however the PTY's output is cut into reads, and however much of what it is offered the emulator takes,
  nothing is lost, repeated or moved: the bytes it took and the bytes still pending are the output. At every read it
  is offered all it has not taken yet, but for at most three bytes at the end. When the output is UTF-8 and the
  emulator takes valid UTF-8 whole, every piece it is offered is whole runes, the pieces are the output in order,
  and at most three bytes are pending. The transcript has seen the output as a whole. Without a terminal, nothing
  changes. That \<open>Write\<close> returns at most the length of its argument is the contract of \<open>io.Writer\<close>.\<close>

lemma emulator_gets_whole_runes:
  assumes "\<And>t d. snd (vt_write t d) \<le> length d"
  shows "(\<exists>s' pieces. observe_all vt_write ds \<lparr>sn_term = Some t0, sn_pending = [], sn_transcript = new_transcript\<rparr> = Some s' \<and>
    transcript_write new_transcript (concat ds) = Some (sn_transcript s') \<and>
    length pieces = length ds \<and> sn_term s' = Some (fst (offer vt_write t0 pieces)) \<and>
    snd (offer vt_write t0 pieces) @ sn_pending s' = concat ds \<and>
    (\<forall>i<length ds. \<exists>held. length held \<le> 3 \<and>
      snd (offer vt_write t0 (take i pieces)) @ pieces ! i @ held = concat (take (Suc i) ds)) \<and>
    ((\<forall>t d. valid_utf8 d \<longrightarrow> snd (vt_write t d) = length d) \<and> valid_utf8 (concat ds @ rest) \<longrightarrow>
      (\<forall>p\<in>set pieces. valid_utf8 p) \<and> concat pieces @ sn_pending s' = concat ds \<and> length (sn_pending s') \<le> 3)) \<and>
    observe_all vt_write ds \<lparr>sn_term = None, sn_pending = [], sn_transcript = new_transcript\<rparr> =
      Some \<lparr>sn_term = None, sn_pending = [], sn_transcript = new_transcript\<rparr>"
  using observe_all_pieces [of vt_write "\<lparr>sn_term = Some t0, sn_pending = [], sn_transcript = new_transcript\<rparr>" t0 ds rest, OF assms]
  by (simp add: observe_all_no_terminal)

text \<open>An emulator that keeps what it takes and stops at a byte that begins no rune: the rest waits for the next read.\<close>

definition sample_emulator :: "string \<Rightarrow> string \<Rightarrow> string \<times> nat" where
  "sample_emulator t d =
     (let n = (if CHR 0xFF \<in> set d then Suc (length (takeWhile (\<lambda>c. c \<noteq> CHR 0xFF) d)) else length d) in (t @ take n d, n))"

lemma emulator_gets_whole_runes_witness:
  "(\<exists>s' pieces. observe_all sample_emulator [''a'' @ [CHR 0xC3], [CHR 0xA9], [CHR 0xFF] @ ''b'', ''c'']
      \<lparr>sn_term = Some [], sn_pending = [], sn_transcript = new_transcript\<rparr> = Some s' \<and>
     length pieces = 4 \<and> sn_term s' = Some (fst (offer sample_emulator [] pieces)) \<and>
     snd (offer sample_emulator [] pieces) @ sn_pending s' = ''a'' @ [CHR 0xC3, CHR 0xA9, CHR 0xFF] @ ''bc'') \<and>
   (\<exists>s' pieces. observe_all (\<lambda>t d. (t @ d, length d)) [''a'' @ [CHR 0xC3], [CHR 0xA9]]
      \<lparr>sn_term = Some [], sn_pending = [], sn_transcript = new_transcript\<rparr> = Some s' \<and>
     (\<forall>p\<in>set pieces. valid_utf8 p) \<and> concat pieces @ sn_pending s' = ''a'' @ [CHR 0xC3, CHR 0xA9])"
proof (rule conjI, goal_cases)
  case 1
  let ?ds = "[''a'' @ [CHR 0xC3], [CHR 0xA9], [CHR 0xFF] @ ''b'', ''c'']"
  have "length (takeWhile P d) \<le> length d" for P and d :: string by (rule length_takeWhile_le)
  moreover have "length (takeWhile (\<lambda>c. c \<noteq> x) d) < length d" if "x \<in> set d" for x :: char and d
    using that by (induction d) auto
  ultimately have "snd (sample_emulator t d) \<le> length d" for t d
    by (simp add: sample_emulator_def Let_def Suc_le_eq)
  note all = emulator_gets_whole_runes [of sample_emulator, OF this, of ?ds "[]" "[]", THEN conjunct1]
  have l: "length ?ds = 4" "concat ?ds = ''a'' @ [CHR 0xC3, CHR 0xA9, CHR 0xFF] @ ''bc''" by simp_all
  from all show ?case unfolding l by (elim exE conjE) (rule exI, rule exI, intro conjI; assumption)
next
  case 2
  let ?ds = "[''a'' @ [CHR 0xC3], [CHR 0xA9]]"
  have e: "''a'' @ [CHR 0xC3, CHR 0xA9] = encode_runes [97, 233]" by (simp add: encode_rune_ascii) (simp add: encode_rune_def valid_rune_def)
  have v: "valid_utf8 (''a'' @ [CHR 0xC3, CHR 0xA9])" unfolding e by (rule valid_encode_runes) (simp add: valid_rune_def)
  have "snd ((\<lambda>t d. (t @ d, length d)) t d) \<le> length d" for t d :: string by simp
  note all = emulator_gets_whole_runes [of "\<lambda>t d. (t @ d, length d)", OF this, of ?ds "[]" "[]", THEN conjunct1]
  have c: "concat ?ds = ''a'' @ [CHR 0xC3, CHR 0xA9]" by simp
  have w: "(\<forall>t d. valid_utf8 d \<longrightarrow> snd ((t :: string) @ d, length d) = length d) \<and> valid_utf8 ((''a'' @ [CHR 0xC3, CHR 0xA9]) @ [])"
    using v by simp
  from all obtain s' pieces where
    o: "observe_all (\<lambda>t d. (t @ d, length d)) ?ds \<lparr>sn_term = Some [], sn_pending = [], sn_transcript = new_transcript\<rparr> = Some s'"
    and i: "(\<forall>t d. valid_utf8 d \<longrightarrow> snd ((t :: string) @ d, length d) = length d) \<and> valid_utf8 (concat ?ds @ []) \<longrightarrow>
      (\<forall>p\<in>set pieces. valid_utf8 p) \<and> concat pieces @ sn_pending s' = concat ?ds \<and> length (sn_pending s') \<le> 3"
    by (elim exE conjE) (rule that)
  have "(\<forall>p\<in>set pieces. valid_utf8 p) \<and> concat pieces @ sn_pending s' = ''a'' @ [CHR 0xC3, CHR 0xA9]"
    using i w unfolding c by (elim impE conjE) (intro conjI; assumption)+
  with o show ?case by (intro exI conjI) (assumption | elim conjE, assumption)+
qed

end
