(* ===== verification/App_Config.thy ===== *)
theory App_Config
  imports Cli_Parse Remote_Registry "HOL-Library.Word"
begin

unbundle bit_operations_syntax

section \<open>Configuration and secrets (internal/app/config.go, remote_config.go, internal/remote/token.go)\<close>

text \<open>
  Secrets come from the command line, from a profile of the client configuration or from a file that nobody
  else may read. What the system calls on a path return is a record \<open>os_file\<close>; a file system is a function from
  paths to those. JSON and \<open>time.ParseDuration\<close> are arguments, like \<open>home\<close>: the path of a file below ~/.ptymux,
  which does not exist when the home directory is not known.
\<close>

definition maxPrivateConfigSize :: nat where "maxPrivateConfigSize = 1048576"
definition maxServerTokenSize :: nat where "maxServerTokenSize = 65536"

datatype os_error = Not_exist | Os_failure

record os_file =
  of_open :: "os_error option"
  of_symlink :: bool
  of_stat :: bool
  of_regular :: bool
  of_perm :: "32 word"
  of_size :: nat
  of_data :: string
  of_read :: bool

datatype file_error =
    Open_failed os_error
  | Stat_failed
  | Not_regular
  | Accessible_by_others
  | Too_large
  | Read_failed

text \<open>
  \<open>readRegularFile\<close> after \<open>Open\<close>: \<open>forbidden\<close> are the permission bits that are refused, and \<open>O_NOFOLLOW\<close> makes
  \<open>Open\<close> fail on a symbolic link. The \<open>LimitReader\<close> ends after one byte more than the limit.
\<close>

definition read_checked :: "bool \<Rightarrow> 32 word \<Rightarrow> nat \<Rightarrow> os_file \<Rightarrow> file_error + string" where
  "read_checked nofollow forbidden maxSize f =
     (case (if nofollow \<and> of_symlink f then Some Os_failure else of_open f) of
        Some e \<Rightarrow> Inl (Open_failed e)
      | None \<Rightarrow>
          if \<not> of_stat f then Inl Stat_failed
          else if \<not> of_regular f then Inl Not_regular
          else if of_perm f AND forbidden \<noteq> 0 then Inl Accessible_by_others
          else if maxSize < of_size f then Inl Too_large
          else if \<not> of_read f then Inl Read_failed
          else (let data = take (maxSize + 1) (of_data f) in if maxSize < length data then Inl Too_large else Inr data))"

definition readRegularFile :: "(string \<Rightarrow> os_file) \<Rightarrow> string \<Rightarrow> nat \<Rightarrow> bool \<Rightarrow> file_error + string" where
  "readRegularFile fs path maxSize private_file =
     read_checked private_file (if private_file then 0x3F else 0) maxSize (fs path)"

definition readPrivateFile :: "(string \<Rightarrow> os_file) \<Rightarrow> string \<Rightarrow> nat \<Rightarrow> file_error + string" where
  "readPrivateFile fs path maxSize = readRegularFile fs path maxSize True"

subsection \<open>Secrets\<close>

datatype secret_error =
    Empty_path
  | Both_set
  | Required
  | File_failed file_error
  | Secret_empty
  | Contains_nul

abbreviation nul :: char where "nul \<equiv> CHR 0x00"

text \<open>What both readers of a secret do with the bytes of its file.\<close>

definition secret_of :: "string \<Rightarrow> secret_error + string" where
  "secret_of data =
     (let data = trim_right (\<lambda>c. c = chr_cr \<or> c = chr_lf) data in
      if data = [] then Inl Secret_empty else if nul \<in> set data then Inl Contains_nul else Inr data)"


text \<open>The server's own token: the file may be read by others, but not written.\<close>

definition LoadServerTokenFile :: "(string \<Rightarrow> os_file) \<Rightarrow> string \<Rightarrow> secret_error + string" where
  "LoadServerTokenFile fs path =
     (if path = [] then Inl Empty_path
      else (case read_checked True 0x12 maxServerTokenSize (fs path) of
        Inl e \<Rightarrow> Inl (File_failed e)
      | Inr data \<Rightarrow> secret_of data))"

subsection \<open>The client's profile\<close>

record remote_profile =
  rp_url :: string
  rp_token :: string
  rp_token_file :: string
  rp_name :: string
  rp_password :: string
  rp_password_file :: string








text \<open>\<open>LoadRemoteConfig\<close>: no file means no profiles; \<open>decode\<close> is \<open>json.Unmarshal\<close>.\<close>

definition LoadRemoteConfig ::
  "(string list \<Rightarrow> string option) \<Rightarrow> (string \<Rightarrow> os_file) \<Rightarrow> (string \<Rightarrow> (string \<Rightarrow> remote_profile option) option) \<Rightarrow>
     file_error option + (string \<Rightarrow> remote_profile option)" where
  "LoadRemoteConfig home fs decode =
     (case home [''client'', ''config''] of
        None \<Rightarrow> Inl None
      | Some path \<Rightarrow>
          (case readPrivateFile fs path maxPrivateConfigSize of
             Inl e \<Rightarrow> if e = Open_failed Not_exist then Inr Map.empty else Inl (Some e)
           | Inr data \<Rightarrow> (case decode data of None \<Rightarrow> Inl None | Some clients \<Rightarrow> Inr clients)))"

subsection \<open>The daemon's configuration\<close>

record user_config =
  uc_shell :: string
  uc_enabled :: bool
  uc_target_idle :: int
  uc_daemon_idle :: int

record raw_auto_release =
  ra_enabled :: "bool option"
  ra_target_idle :: string
  ra_daemon_idle :: string

datatype user_config_error = No_config_home | Config_file file_error | Bad_json | Bad_target_idle | Bad_daemon_idle

definition defaultUserConfig :: user_config where
  "defaultUserConfig = \<lparr>uc_shell = ''/bin/sh'', uc_enabled = True, uc_target_idle = 8 * 3600 * 1000000000,
     uc_daemon_idle = 30 * 60 * 1000000000\<rparr>"

definition apply_auto_release ::
  "(string \<Rightarrow> int option) \<Rightarrow> raw_auto_release \<Rightarrow> user_config \<Rightarrow> user_config_error + user_config" where
  "apply_auto_release parse raw cfg =
     (let cfg = (case ra_enabled raw of None \<Rightarrow> cfg | Some b \<Rightarrow> cfg\<lparr>uc_enabled := b\<rparr>) in
      bind_err (if ra_target_idle raw = [] then Inr cfg
                else (case parse (ra_target_idle raw) of None \<Rightarrow> Inl Bad_target_idle | Some d \<Rightarrow> Inr (cfg\<lparr>uc_target_idle := d\<rparr>)))
        (\<lambda>cfg. if ra_daemon_idle raw = [] then Inr cfg
               else (case parse (ra_daemon_idle raw) of None \<Rightarrow> Inl Bad_daemon_idle | Some d \<Rightarrow> Inr (cfg\<lparr>uc_daemon_idle := d\<rparr>))))"

text \<open>
  The private file ~/.ptymux/config, or else config.json, which may be read by others; the decoded value is the
  shell and, when the file has one, the section on the release of idle targets.
\<close>

definition LoadUserConfig ::
  "(string list \<Rightarrow> string option) \<Rightarrow> (string \<Rightarrow> os_file) \<Rightarrow> (string \<Rightarrow> (string \<times> raw_auto_release option) option) \<Rightarrow>
     (string \<Rightarrow> int option) \<Rightarrow> user_config_error + user_config" where
  "LoadUserConfig home fs decode parse =
     (case home [''config''] of None \<Rightarrow> Inl No_config_home | Some path \<Rightarrow>
        (let data = readPrivateFile fs path maxPrivateConfigSize in
         case (if data = Inl (Open_failed Not_exist) then home [''config.json''] else Some path) of
           None \<Rightarrow> Inl No_config_home
         | Some path \<Rightarrow>
             (case (if data = Inl (Open_failed Not_exist) then readRegularFile fs path maxPrivateConfigSize False else data) of
                Inl e \<Rightarrow> if e = Open_failed Not_exist then Inr defaultUserConfig else Inl (Config_file e)
              | Inr bytes \<Rightarrow>
                  (case decode bytes of
                     None \<Rightarrow> Inl Bad_json
                   | Some (shell, auto_release) \<Rightarrow>
                       (let cfg = (if shell \<noteq> [] then defaultUserConfig\<lparr>uc_shell := shell\<rparr> else defaultUserConfig) in
                        case auto_release of None \<Rightarrow> Inr cfg | Some raw \<Rightarrow> apply_auto_release parse raw cfg)))))"

subsection \<open>Properties\<close>


























end
